(* ===== verification/Prelude.thy ===== *)
theory Prelude
  imports Main "HOL-Library.Word"
begin

text \<open>
  Shared ground of the development: the machine types of the C sources, little-endian access
  to byte buffers, and the command type in which every stateful function of the sources is
  written.

  A C function that touches globals, performs system calls, may call \<open>exit\<close> or may write out
  of the bounds of an array is a \<open>cmd\<close>: a function from the program state to an \<open>outcome\<close>.
  \<^item> \<open>Ret a s\<close>: the function returned \<open>a\<close> in state \<open>s\<close>;
  \<^item> \<open>Exit k s\<close>: it called \<open>exit(k)\<close>;
  \<^item> \<open>Blocked s\<close>: the environment has no further answer to a system call, so the function is
    still waiting (the environment is a finite script of answers);
  \<^item> \<open>Fault\<close>: it accessed an array out of its bounds.
  The judgement \<open>triple P c Q E\<close> says that from a state in \<open>P\<close> the command never faults,
  satisfies \<open>Q\<close> when it returns and \<open>E\<close> when it stops in any other way; \<open>wtriple\<close> says the same
  of every outcome other than a fault.
\<close>

unbundle bit_operations_syntax

section \<open>Machine types\<close>

type_synonym u8 = "8 word"
type_synonym u16 = "16 word"
type_synonym u32 = "32 word"
type_synonym u64 = "64 word"
type_synonym bytes = "u8 list"

section \<open>Words\<close>

lemma xor_cancel_right: "(a::'a::len word) XOR c = b XOR c \<longleftrightarrow> a = b"
  by (metis xor.assoc xor.right_neutral xor_self_eq)

lemma xor_cancel_left: "c XOR (a::'a::len word) = c XOR b \<longleftrightarrow> a = b"
  by (metis xor.commute xor_cancel_right)

lemma word_bit_beyond: "LENGTH('a) \<le> n \<Longrightarrow> \<not> bit (w::'a::len word) n"
  by (meson bit_imp_le_length not_le)

lemma u16_ff: "(0xff::u16) = mask 8"
  by (simp add: mask_eq_exp_minus_1)

lemma u16_low_less: "unat ((x::u16) AND 0xff) < 256"
proof -
  have "x AND 0xff \<le> 0xff" by (rule word_and_le1)
  then show ?thesis by (simp add: word_le_nat_alt)
qed

lemma ucast_ucast_u8_u16 [simp]: "ucast (ucast (b::u8) :: u16) = b"
  by (rule bit_word_eqI) (simp add: bit_ucast_iff)

lemma ucast_u8_inj: "(ucast (b::u8) :: u16) = ucast b' \<longleftrightarrow> b = b'"
  by (metis ucast_ucast_u8_u16)

lemma drop_bit_ucast_u8 [simp]: "drop_bit 8 (ucast (b::u8) :: u16) = 0"
  by (rule bit_word_eqI) (simp add: bit_drop_bit_eq bit_ucast_iff word_bit_beyond)

section \<open>Little-endian fields\<close>

definition le_bytes :: "nat \<Rightarrow> 'a::len word \<Rightarrow> bytes" where
  "le_bytes n w = map (\<lambda>i. ucast (drop_bit (8 * i) w)) [0..<n]"

fun le_word :: "bytes \<Rightarrow> 'a::len word" where
  "le_word [] = 0"
| "le_word (b # bs) = ucast b OR push_bit 8 (le_word bs)"

lemma length_le_bytes [simp]: "length (le_bytes n w) = n"
  by (simp add: le_bytes_def)

lemma bit_le_word:
  "bit (le_word bs :: 'a::len word) n \<longleftrightarrow>
     n < LENGTH('a) \<and> n div 8 < length bs \<and> bit (bs ! (n div 8)) (n mod 8)"
proof (induction bs arbitrary: n)
  case (Cons b bs)
  show ?case
  proof (cases "8 \<le> n")
    case True
    then have "n div 8 = Suc ((n - 8) div 8)" "(n - 8) mod 8 = n mod 8" by (simp_all add: le_div_geq le_mod_geq)
    with True show ?thesis by (auto simp: bit_or_iff bit_push_bit_iff bit_ucast_iff Cons.IH word_bit_beyond)
  qed (auto simp: bit_or_iff bit_push_bit_iff bit_ucast_iff)
qed simp

lemma le_word_le_bytes: "LENGTH('a) \<le> 8 * n \<Longrightarrow> le_word (le_bytes n w) = (w :: 'a::len word)"
proof (rule bit_word_eqI)
  fix k assume "LENGTH('a) \<le> 8 * n" "k < LENGTH('a)"
  moreover from this have "k div 8 < n" by (simp add: less_mult_imp_div_less)
  ultimately show "bit (le_word (le_bytes n w) :: 'a word) k = bit w k"
    by (simp add: bit_le_word le_bytes_def bit_ucast_iff bit_drop_bit_eq)
qed

lemma le_bytes_le_word:
  assumes "length bs = n" "8 * n \<le> LENGTH('a)"
  shows "le_bytes n (le_word bs :: 'a::len word) = bs"
proof (rule nth_equalityI)
  fix i assume "i < length (le_bytes n (le_word bs :: 'a word))"
  then have i: "i < n" by simp
  show "le_bytes n (le_word bs :: 'a word) ! i = bs ! i"
  proof (rule bit_word_eqI)
    fix k assume "k < LENGTH(8)"
    then have "k < 8" by simp
    then have "(8 * i + k) div 8 = i" "(8 * i + k) mod 8 = k" "8 * i + k < LENGTH('a)" using i assms by simp_all
    then show "bit (le_bytes n (le_word bs :: 'a word) ! i) k = bit (bs ! i) k"
      using i assms \<open>k < 8\<close> by (simp add: le_bytes_def bit_ucast_iff bit_drop_bit_eq bit_le_word)
  qed
qed (simp add: assms)

section \<open>Commands\<close>

datatype ('s, 'a) outcome = Ret 'a 's | Exit int 's | Blocked 's | Fault

type_synonym ('s, 'a) cmd = "'s \<Rightarrow> ('s, 'a) outcome"

definition retC :: "'a \<Rightarrow> ('s, 'a) cmd" where
  "retC a s = Ret a s"

definition bindC :: "('s, 'a) cmd \<Rightarrow> ('a \<Rightarrow> ('s, 'b) cmd) \<Rightarrow> ('s, 'b) cmd" where
  "bindC c k s = (case c s of
     Ret a s' \<Rightarrow> k a s'
   | Exit n s' \<Rightarrow> Exit n s'
   | Blocked s' \<Rightarrow> Blocked s'
   | Fault \<Rightarrow> Fault)"

definition exitC :: "int \<Rightarrow> ('s, 'a) cmd" where
  "exitC n s = Exit n s"

definition faultC :: "('s, 'a) cmd" where
  "faultC s = Fault"

definition getsC :: "('s \<Rightarrow> 'a) \<Rightarrow> ('s, 'a) cmd" where
  "getsC f s = Ret (f s) s"

definition modifyC :: "('s \<Rightarrow> 's) \<Rightarrow> ('s, unit) cmd" where
  "modifyC f s = Ret () (f s)"

lemmas cmd_defs = retC_def bindC_def exitC_def faultC_def getsC_def modifyC_def

lemma bindC_Ret_iff:
  "bindC c k s = Ret b t \<longleftrightarrow> (\<exists>a s'. c s = Ret a s' \<and> k a s' = Ret b t)"
  by (auto simp: bindC_def split: outcome.splits)

lemma bindC_RetE:
  assumes "bindC c k s = Ret b t"
  obtains a u where "c s = Ret a u" "k a u = Ret b t"
  using assms unfolding bindC_Ret_iff by blast

lemma bindC_retC [simp]: "bindC (retC a) k = k a"
  by (auto simp: bindC_def retC_def)

lemma bindC_assoc: "bindC (bindC c k) h = bindC c (\<lambda>a. bindC (k a) h)"
  by (auto simp: bindC_def fun_eq_iff split: outcome.splits)

section \<open>Triples\<close>

named_theorems triple_rules
  \<open>rules that decompose a command in a triple\<close>

definition gtriple ::
  "bool \<Rightarrow> ('s \<Rightarrow> bool) \<Rightarrow> ('s, 'a) cmd \<Rightarrow> ('a \<Rightarrow> 's \<Rightarrow> bool) \<Rightarrow> ('s \<Rightarrow> bool) \<Rightarrow> bool" where
  "gtriple f P c Q E \<longleftrightarrow> (\<forall>s. P s \<longrightarrow> (case c s of
     Ret a s' \<Rightarrow> Q a s'
   | Exit n s' \<Rightarrow> E s'
   | Blocked s' \<Rightarrow> E s'
   | Fault \<Rightarrow> f))"

abbreviation triple where "triple \<equiv> gtriple False"
abbreviation wtriple where "wtriple \<equiv> gtriple True"

lemma gtriple_weak: "gtriple f P c Q E \<Longrightarrow> wtriple P c Q E"
  by (fastforce simp: gtriple_def split: outcome.splits)

lemma triple_Ret: "gtriple f P c Q E \<Longrightarrow> P s \<Longrightarrow> c s = Ret a t \<Longrightarrow> Q a t"
  by (auto simp: gtriple_def dest: spec [of _ s])

lemma triple_no_Fault: "triple P c Q E \<Longrightarrow> P s \<Longrightarrow> c s \<noteq> Fault"
  by (auto simp: gtriple_def dest: spec [of _ s])

lemma triple_conseq:
  "gtriple f P c Q E \<Longrightarrow> (\<And>s. P' s \<Longrightarrow> P s) \<Longrightarrow> (\<And>a s. Q a s \<Longrightarrow> Q' a s) \<Longrightarrow>
   (\<And>s. E s \<Longrightarrow> E' s) \<Longrightarrow> gtriple f P' c Q' E'"
  by (fastforce simp: gtriple_def split: outcome.splits)

lemma triple_pre: "gtriple f P c Q E \<Longrightarrow> (\<And>s. P' s \<Longrightarrow> P s) \<Longrightarrow> gtriple f P' c Q E"
  by (rule triple_conseq)

lemma tripleI:
  "(\<And>s. P s \<Longrightarrow> case c s of Ret a s' \<Rightarrow> Q a s' | Exit n s' \<Rightarrow> E s' | Blocked s' \<Rightarrow> E s' | Fault \<Rightarrow> f)
   \<Longrightarrow> gtriple f P c Q E"
  by (simp add: gtriple_def)

lemma tripleD:
  "gtriple f P c Q E \<Longrightarrow> P s \<Longrightarrow>
   case c s of Ret a s' \<Rightarrow> Q a s' | Exit n s' \<Rightarrow> E s' | Blocked s' \<Rightarrow> E s' | Fault \<Rightarrow> f"
  by (simp add: gtriple_def)

lemma triple_bindC [triple_rules]:
  assumes c: "gtriple f P c R E" and k: "\<And>a. gtriple f (R a) (k a) Q E"
  shows "gtriple f P (bindC c k) Q E"
proof (rule tripleI)
  fix s assume "P s"
  note fst = tripleD [OF c this]
  show "case bindC c k s of Ret a s' \<Rightarrow> Q a s' | Exit n s' \<Rightarrow> E s' | Blocked s' \<Rightarrow> E s' | Fault \<Rightarrow> f"
  proof (cases "c s")
    case (Ret a t)
    with fst have "R a t" by simp
    from tripleD [OF k this] Ret show ?thesis by (simp add: bindC_def)
  qed (use fst in \<open>simp_all add: bindC_def\<close>)
qed

lemma triple_retC [triple_rules]: "(\<And>s. P s \<Longrightarrow> Q a s) \<Longrightarrow> gtriple f P (retC a) Q E"
  by (auto simp: gtriple_def retC_def)

lemma triple_if [triple_rules]:
  "(b \<Longrightarrow> gtriple f P c Q E) \<Longrightarrow> (\<not> b \<Longrightarrow> gtriple f P d Q E) \<Longrightarrow> gtriple f P (if b then c else d) Q E"
  by simp

lemma triple_exitC [triple_rules]: "(\<And>s. P s \<Longrightarrow> E s) \<Longrightarrow> gtriple f P (exitC n) Q E"
  by (auto simp: gtriple_def exitC_def)

lemma triple_getsC [triple_rules]: "(\<And>s. P s \<Longrightarrow> Q (g s) s) \<Longrightarrow> gtriple f P (getsC g) Q E"
  by (auto simp: gtriple_def getsC_def)

lemma triple_modifyC [triple_rules]: "(\<And>s. P s \<Longrightarrow> Q () (g s)) \<Longrightarrow> gtriple f P (modifyC g) Q E"
  by (auto simp: gtriple_def modifyC_def)

lemma triple_gets_bind: "(\<And>a. gtriple f P (k a) Q E) \<Longrightarrow> gtriple f P (bindC (getsC g) k) Q E"
  by (auto simp: gtriple_def bindC_def getsC_def)

lemma triple_prod: "(\<And>x y. gtriple f P (c x y) Q E) \<Longrightarrow> gtriple f P (case z of (x, y) \<Rightarrow> c x y) Q E"
  by (cases z) simp

lemma triple_option:
  "gtriple f P c Q E \<Longrightarrow> (\<And>y. gtriple f P (k y) Q E) \<Longrightarrow>
   gtriple f P (case x of None \<Rightarrow> c | Some y \<Rightarrow> k y) Q E"
  by (cases x) simp_all

lemma triple_conj:
  "gtriple f P c Q E \<Longrightarrow> wtriple P' c Q' E' \<Longrightarrow>
   gtriple f (\<lambda>s. P s \<and> P' s) c (\<lambda>a s. Q a s \<and> Q' a s) (\<lambda>s. E s \<and> E' s)"
  by (fastforce simp: gtriple_def split: outcome.splits)

section \<open>Step orders\<close>

text \<open>
  \<open>steps R c\<close>: however the command ends, short of a fault, the state it leaves is related by
  \<open>R\<close> to the state it started in. For a reflexive and transitive \<open>R\<close> this composes; the locale
  carries the rules, and its instances are the frame conditions of the components (a projection
  of the state is unchanged) and the consumption of the environment's answers.
\<close>

definition steps :: "('s \<Rightarrow> 's \<Rightarrow> bool) \<Rightarrow> ('s, 'a) cmd \<Rightarrow> bool" where
  "steps R c \<longleftrightarrow> (\<forall>s. case c s of
     Ret a t \<Rightarrow> R s t | Exit n t \<Rightarrow> R s t | Blocked t \<Rightarrow> R s t | Fault \<Rightarrow> True)"

lemma steps_Ret: "steps R c \<Longrightarrow> c s = Ret a t \<Longrightarrow> R s t"
  by (auto simp: steps_def dest: spec [of _ s])

lemma steps_Exit: "steps R c \<Longrightarrow> c s = Exit n t \<Longrightarrow> R s t"
  by (auto simp: steps_def dest: spec [of _ s])

lemma steps_Blocked: "steps R c \<Longrightarrow> c s = Blocked t \<Longrightarrow> R s t"
  by (auto simp: steps_def dest: spec [of _ s])

lemma stepsI:
  "(\<And>s a t. c s = Ret a t \<Longrightarrow> R s t) \<Longrightarrow> (\<And>s n t. c s = Exit n t \<Longrightarrow> R s t) \<Longrightarrow>
   (\<And>s t. c s = Blocked t \<Longrightarrow> R s t) \<Longrightarrow> steps R c"
  by (auto simp: steps_def split: outcome.splits)

lemma steps_mono: "steps R c \<Longrightarrow> (\<And>s t. R s t \<Longrightarrow> R' s t) \<Longrightarrow> steps R' c"
  by (fastforce simp: steps_def split: outcome.splits)

abbreviation same :: "('s \<Rightarrow> 'b) \<Rightarrow> 's \<Rightarrow> 's \<Rightarrow> bool" where
  "same f s t \<equiv> f t = f s"

lemma steps_same_triple: "steps (same f) c \<Longrightarrow> wtriple (\<lambda>s. f s = x) c (\<lambda>_ t. f t = x) (\<lambda>t. f t = x)"
  by (fastforce simp: steps_def gtriple_def split: outcome.splits)

lemma steps_inv:
  assumes "steps R c" "\<And>s t. R s t \<Longrightarrow> P s \<Longrightarrow> P t"
  shows "wtriple P c (\<lambda>_. P) P"
proof (rule tripleI)
  fix s assume "P s"
  with assms show "case c s of Ret a s' \<Rightarrow> P s' | Exit n s' \<Rightarrow> P s' | Blocked s' \<Rightarrow> P s' | Fault \<Rightarrow> True"
    by (cases "c s") (auto dest: steps_Ret steps_Exit steps_Blocked)
qed

locale step_order =
  fixes R :: "'s \<Rightarrow> 's \<Rightarrow> bool"
  assumes refl: "R s s"
    and trans: "R s t \<Longrightarrow> R t u \<Longrightarrow> R s u"
begin

lemma bindC_steps:
  assumes "steps R c" "\<And>a. steps R (k a)"
  shows "steps R (bindC c k)"
proof (rule stepsI)
  fix s a t assume "bindC c k s = Ret a t"
  then obtain b u where "c s = Ret b u" "k b u = Ret a t" by (auto simp: bindC_Ret_iff)
  then show "R s t" using assms by (blast intro: trans dest: steps_Ret)
next
  fix s n t assume "bindC c k s = Exit n t"
  then consider b u where "c s = Ret b u" "k b u = Exit n t" | "c s = Exit n t"
    by (auto simp: bindC_def split: outcome.splits)
  then show "R s t" using assms by cases (blast intro: trans dest: steps_Ret steps_Exit)+
next
  fix s t assume "bindC c k s = Blocked t"
  then consider b u where "c s = Ret b u" "k b u = Blocked t" | "c s = Blocked t"
    by (auto simp: bindC_def split: outcome.splits)
  then show "R s t" using assms by cases (blast intro: trans dest: steps_Ret steps_Blocked)+
qed

lemma base_steps:
  "steps R (retC a)" "steps R (exitC n)" "steps R faultC" "steps R (getsC g)" "steps R Blocked"
  by (simp_all add: steps_def cmd_defs refl)

lemma if_steps: "(b \<Longrightarrow> steps R c) \<Longrightarrow> (\<not> b \<Longrightarrow> steps R d) \<Longrightarrow> steps R (if b then c else d)"
  by simp

lemma option_steps:
  "steps R c \<Longrightarrow> (\<And>x. steps R (d x)) \<Longrightarrow> steps R (case z of None \<Rightarrow> c | Some x \<Rightarrow> d x)"
  by (cases z) simp_all

lemma prod_steps: "(\<And>x y. steps R (c x y)) \<Longrightarrow> steps R (case z of (x, y) \<Rightarrow> c x y)"
  by (cases z) simp

lemma modifyC_steps: "(\<And>s. R s (g s)) \<Longrightarrow> steps R (modifyC g)"
  by (simp add: steps_def modifyC_def)

lemmas steps_rules = bindC_steps base_steps if_steps option_steps prod_steps modifyC_steps

end

interpretation same: step_order "same f" for f
  by unfold_locales simp_all

lemma bindC_cong:
  "s = s' \<Longrightarrow> c s' = c' s' \<Longrightarrow> (\<And>a t. c' s' = Ret a t \<Longrightarrow> k a t = k' a t) \<Longrightarrow>
   bindC c k s = bindC c' k' s'"
  by (auto simp: bindC_def split: outcome.splits)

end
