(* ===== verification/Hdlc.thy ===== *)
theory Hdlc
  imports Prelude
begin

text \<open>
  The HDLC layer of the RCP configuration tool: \<^verbatim>\<open>hdlc/CFUonHDLC.c\<close>. The globals of the
  file are the record \<open>hdlc_globals\<close>; the pointers \<open>pEncBuffer\<close> and \<open>pDecBuffer\<close> are indices
  into their buffers, and a store at an index outside the buffer is a \<open>Fault\<close>. The record is
  extensible: the other components of the tool add their own globals to it.
\<close>

unbundle bit_operations_syntax

section \<open>Data\<close>

datatype hdlc_decode_ret =
    HDLD_DECODE_COMPLETE
  | HDLD_DECODE_PENDING
  | HDLD_DECODE_NO_BUFS
  | HDLD_DECODE_PARSE_ERR

datatype hdlc_dec_state = kStateNoSync | kStateSync | kStateEscaped

definition kFlagXOn :: u8 where "kFlagXOn = 0x11"
definition kFlagXOff :: u8 where "kFlagXOff = 0x13"
definition kFlagSequence :: u8 where "kFlagSequence = 0x7e"
definition kEscapeSequence :: u8 where "kEscapeSequence = 0x7d"
definition kFlagSpecial :: u8 where "kFlagSpecial = 0xf8"

definition kInitFcs :: u16 where "kInitFcs = 0xffff"
definition kGoodFcs :: u16 where "kGoodFcs = 0xf0b8"
definition kFcsSize :: u16 where "kFcsSize = 2"

lemmas hdlc_consts =
  kFlagXOn_def kFlagXOff_def kFlagSequence_def kEscapeSequence_def kFlagSpecial_def
  kInitFcs_def kGoodFcs_def kFcsSize_def

record hdlc_globals =
  encodeBuffer :: bytes
  pEncBuffer :: nat
  mEncodedLength :: u16
  mEncFcs :: u16
  decodeBuffer :: bytes
  remainingLen :: u16
  pDecBuffer :: nat
  mState :: hdlc_dec_state
  mDecodedLength :: u16
  mFcs :: u16

definition hdlc_init :: hdlc_globals where
  "hdlc_init = \<lparr>
     encodeBuffer = replicate 256 0, pEncBuffer = 0, mEncodedLength = 0, mEncFcs = 0,
     decodeBuffer = replicate 256 0, remainingLen = 256, pDecBuffer = 0,
     mState = kStateNoSync, mDecodedLength = 0, mFcs = 0\<rparr>"

section \<open>Operations\<close>

definition sFcsTable :: "u16 list" where
  "sFcsTable = [
    0x0000, 0x1189, 0x2312, 0x329b, 0x4624, 0x57ad, 0x6536, 0x74bf, 0x8c48, 0x9dc1, 0xaf5a, 0xbed3, 0xca6c, 0xdbe5,
    0xe97e, 0xf8f7, 0x1081, 0x0108, 0x3393, 0x221a, 0x56a5, 0x472c, 0x75b7, 0x643e, 0x9cc9, 0x8d40, 0xbfdb, 0xae52,
    0xdaed, 0xcb64, 0xf9ff, 0xe876, 0x2102, 0x308b, 0x0210, 0x1399, 0x6726, 0x76af, 0x4434, 0x55bd, 0xad4a, 0xbcc3,
    0x8e58, 0x9fd1, 0xeb6e, 0xfae7, 0xc87c, 0xd9f5, 0x3183, 0x200a, 0x1291, 0x0318, 0x77a7, 0x662e, 0x54b5, 0x453c,
    0xbdcb, 0xac42, 0x9ed9, 0x8f50, 0xfbef, 0xea66, 0xd8fd, 0xc974, 0x4204, 0x538d, 0x6116, 0x709f, 0x0420, 0x15a9,
    0x2732, 0x36bb, 0xce4c, 0xdfc5, 0xed5e, 0xfcd7, 0x8868, 0x99e1, 0xab7a, 0xbaf3, 0x5285, 0x430c, 0x7197, 0x601e,
    0x14a1, 0x0528, 0x37b3, 0x263a, 0xdecd, 0xcf44, 0xfddf, 0xec56, 0x98e9, 0x8960, 0xbbfb, 0xaa72, 0x6306, 0x728f,
    0x4014, 0x519d, 0x2522, 0x34ab, 0x0630, 0x17b9, 0xef4e, 0xfec7, 0xcc5c, 0xddd5, 0xa96a, 0xb8e3, 0x8a78, 0x9bf1,
    0x7387, 0x620e, 0x5095, 0x411c, 0x35a3, 0x242a, 0x16b1, 0x0738, 0xffcf, 0xee46, 0xdcdd, 0xcd54, 0xb9eb, 0xa862,
    0x9af9, 0x8b70, 0x8408, 0x9581, 0xa71a, 0xb693, 0xc22c, 0xd3a5, 0xe13e, 0xf0b7, 0x0840, 0x19c9, 0x2b52, 0x3adb,
    0x4e64, 0x5fed, 0x6d76, 0x7cff, 0x9489, 0x8500, 0xb79b, 0xa612, 0xd2ad, 0xc324, 0xf1bf, 0xe036, 0x18c1, 0x0948,
    0x3bd3, 0x2a5a, 0x5ee5, 0x4f6c, 0x7df7, 0x6c7e, 0xa50a, 0xb483, 0x8618, 0x9791, 0xe32e, 0xf2a7, 0xc03c, 0xd1b5,
    0x2942, 0x38cb, 0x0a50, 0x1bd9, 0x6f66, 0x7eef, 0x4c74, 0x5dfd, 0xb58b, 0xa402, 0x9699, 0x8710, 0xf3af, 0xe226,
    0xd0bd, 0xc134, 0x39c3, 0x284a, 0x1ad1, 0x0b58, 0x7fe7, 0x6e6e, 0x5cf5, 0x4d7c, 0xc60c, 0xd785, 0xe51e, 0xf497,
    0x8028, 0x91a1, 0xa33a, 0xb2b3, 0x4a44, 0x5bcd, 0x6956, 0x78df, 0x0c60, 0x1de9, 0x2f72, 0x3efb, 0xd68d, 0xc704,
    0xf59f, 0xe416, 0x90a9, 0x8120, 0xb3bb, 0xa232, 0x5ac5, 0x4b4c, 0x79d7, 0x685e, 0x1ce1, 0x0d68, 0x3ff3, 0x2e7a,
    0xe70e, 0xf687, 0xc41c, 0xd595, 0xa12a, 0xb0a3, 0x8238, 0x93b1, 0x6b46, 0x7acf, 0x4854, 0x59dd, 0x2d62, 0x3ceb,
    0x0e70, 0x1ff9, 0xf78f, 0xe606, 0xd49d, 0xc514, 0xb1ab, 0xa022, 0x92b9, 0x8330, 0x7bc7, 0x6a4e, 0x58d5, 0x495c,
    0x3de3, 0x2c6a, 0x1ef1, 0x0f78]"

definition UpdateFcs :: "u16 \<Rightarrow> u8 \<Rightarrow> u16" where
  "UpdateFcs aFcs aByte =
     drop_bit 8 aFcs XOR sFcsTable ! unat ((aFcs XOR ucast aByte) AND 0xff)"

definition HdlcByteNeedsEscape :: "u8 \<Rightarrow> bool" where
  "HdlcByteNeedsEscape aByte \<longleftrightarrow>
     aByte = kFlagXOn \<or> aByte = kFlagXOff \<or> aByte = kEscapeSequence \<or>
     aByte = kFlagSequence \<or> aByte = kFlagSpecial"

text \<open>\<open>*pEncBuffer = b; pEncBuffer++; mEncodedLength++\<close>\<close>

definition enc_put :: "u8 \<Rightarrow> ('z hdlc_globals_scheme, unit) cmd" where
  "enc_put b s =
     (if pEncBuffer s < length (encodeBuffer s)
      then Ret () (s\<lparr>encodeBuffer := (encodeBuffer s)[pEncBuffer s := b],
                     pEncBuffer := pEncBuffer s + 1,
                     mEncodedLength := mEncodedLength s + 1\<rparr>)
      else Fault)"

definition enc_put_escaped :: "u8 \<Rightarrow> ('z hdlc_globals_scheme, unit) cmd" where
  "enc_put_escaped aByte =
     (if HdlcByteNeedsEscape aByte
      then bindC (enc_put kEscapeSequence) (\<lambda>_. enc_put (aByte XOR 0x20))
      else enc_put aByte)"

fun enc_data :: "bytes \<Rightarrow> ('z hdlc_globals_scheme, unit) cmd" where
  "enc_data [] = retC ()"
| "enc_data (aByte # aData) =
     bindC (enc_put_escaped aByte) (\<lambda>_.
     bindC (modifyC (\<lambda>s. s\<lparr>mEncFcs := UpdateFcs (mEncFcs s) aByte\<rparr>)) (\<lambda>_.
     enc_data aData))"

text \<open>
  The result is the function's return value and, through the out parameters, the encoded bytes
  (\<open>*encData\<close> points at \<open>encodeBuffer\<close>, \<open>*encLength\<close> is \<open>mEncodedLength\<close>).
\<close>

definition hdlc_encode :: "bytes \<Rightarrow> ('z hdlc_globals_scheme, bool \<times> bytes) cmd" where
  "hdlc_encode aData =
     (if 1 + length aData * 2 + 2 + 1 > 256 then retC (False, [])
      else
        bindC (modifyC (\<lambda>s. s\<lparr>pEncBuffer := 0, mEncodedLength := 0\<rparr>)) (\<lambda>_.
        bindC (enc_put kFlagSequence) (\<lambda>_.
        bindC (modifyC (\<lambda>s. s\<lparr>mEncFcs := kInitFcs\<rparr>)) (\<lambda>_.
        bindC (enc_data aData) (\<lambda>_.
        bindC (modifyC (\<lambda>s. s\<lparr>mEncFcs := mEncFcs s XOR 0xffff\<rparr>)) (\<lambda>_.
        bindC (getsC mEncFcs) (\<lambda>fcs.
        bindC (enc_put_escaped (ucast (fcs AND 0xff))) (\<lambda>_.
        bindC (enc_put_escaped (ucast (drop_bit 8 fcs))) (\<lambda>_.
        bindC (enc_put kFlagSequence) (\<lambda>_.
        getsC (\<lambda>s. (True, take (unat (mEncodedLength s)) (encodeBuffer s)))))))))))))"

definition hdlc_decoder_reset :: "('z hdlc_globals_scheme, unit) cmd" where
  "hdlc_decoder_reset = modifyC (\<lambda>s. s\<lparr>
     mState := kStateNoSync, mFcs := 0, mDecodedLength := 0, pDecBuffer := 0\<rparr>)"

text \<open>
  The store of a received byte: with room left (\<open>remainingLen >= sizeof(uint8_t)\<close>) the byte
  goes into the FCS and the buffer; otherwise the decoder drops the frame. The second argument
  is the decoder state after a successful store.
\<close>

definition dec_store :: "u8 \<Rightarrow> hdlc_dec_state \<Rightarrow> ('z hdlc_globals_scheme, unit) cmd" where
  "dec_store byte st s =
     (if remainingLen s \<ge> 1
      then (if pDecBuffer s < length (decodeBuffer s)
            then Ret () (s\<lparr>mFcs := UpdateFcs (mFcs s) byte,
                           decodeBuffer := (decodeBuffer s)[pDecBuffer s := byte],
                           pDecBuffer := pDecBuffer s + 1,
                           remainingLen := remainingLen s - 1,
                           mDecodedLength := mDecodedLength s + 1,
                           mState := st\<rparr>)
            else Fault)
      else hdlc_decoder_reset s)"

text \<open>
  \<open>hdlc_decode aData ret\<close>: the loop over the received bytes, with the content of \<open>*ret\<close> as a
  loop variable; the result is the return value and the final \<open>*ret\<close>.
\<close>

fun hdlc_decode ::
  "bytes \<Rightarrow> hdlc_decode_ret \<Rightarrow> ('z hdlc_globals_scheme, u16 \<times> hdlc_decode_ret) cmd" where
  "hdlc_decode [] ret s = Ret (mDecodedLength s, HDLD_DECODE_PENDING) s"
| "hdlc_decode (byte # aData) ret s = (case mState s of
     kStateNoSync \<Rightarrow>
       (if byte = kFlagSequence
        then hdlc_decode aData ret (s\<lparr>mState := kStateSync, mDecodedLength := 0, mFcs := kInitFcs\<rparr>)
        else hdlc_decode aData ret s)
   | kStateSync \<Rightarrow>
       (if byte = kEscapeSequence
        then hdlc_decode aData ret (s\<lparr>mState := kStateEscaped\<rparr>)
        else if byte = kFlagSequence
        then (if mDecodedLength s > 0 \<and> mDecodedLength s \<ge> kFcsSize \<and> mFcs s = kGoodFcs
              then (if pDecBuffer s < 2 then Fault
                    else Ret (mDecodedLength s - kFcsSize, HDLD_DECODE_COMPLETE)
                           (s\<lparr>pDecBuffer := pDecBuffer s - 2,
                              remainingLen := remainingLen s + kFcsSize,
                              mDecodedLength := mDecodedLength s - kFcsSize\<rparr>))
              else hdlc_decode aData
                     (if mDecodedLength s > 0 then HDLD_DECODE_PARSE_ERR else ret)
                     (s\<lparr>mDecodedLength := 0, pDecBuffer := 0, mFcs := kInitFcs\<rparr>))
        else bindC (dec_store byte kStateSync) (\<lambda>_. hdlc_decode aData ret) s)
   | kStateEscaped \<Rightarrow>
       bindC (dec_store (byte XOR 0x20) kStateSync) (\<lambda>_. hdlc_decode aData ret) s)"

section \<open>The frame check sequence\<close>

text \<open>
  The contract of a check register: its update is injective in the register and in the byte.
  A client then knows that two messages that differ in one byte leave different registers.
\<close>

locale crc_register =
  fixes upd :: "'r \<Rightarrow> 'b \<Rightarrow> 'r"
  assumes upd_inj_register: "upd r b = upd r' b \<Longrightarrow> r = r'"
    and upd_inj_byte: "upd r b = upd r b' \<Longrightarrow> b = b'"
begin

lemma register_inj: "fold (\<lambda>b r. upd r b) bs r = fold (\<lambda>b r. upd r b) bs r' \<Longrightarrow> r = r'"
  by (induction bs arbitrary: r r') (auto dest: upd_inj_register)

lemma one_change_detected:
  assumes "b \<noteq> b'"
  shows "fold (\<lambda>b r. upd r b) (xs @ b # ys) r \<noteq> fold (\<lambda>b r. upd r b) (xs @ b' # ys) r"
proof
  assume "fold (\<lambda>b r. upd r b) (xs @ b # ys) r = fold (\<lambda>b r. upd r b) (xs @ b' # ys) r"
  then have "upd (fold (\<lambda>b r. upd r b) xs r) b = upd (fold (\<lambda>b r. upd r b) xs r) b'"
    by (auto dest: register_inj)
  with assms show False by (auto dest: upd_inj_byte)
qed

end

text \<open>The reference: the reflected CRC-16 with polynomial \<open>0x8408\<close>, bit by bit.\<close>

definition crc_bit :: "u16 \<Rightarrow> u16" where
  "crc_bit x = (if bit x 0 then drop_bit 1 x XOR 0x8408 else drop_bit 1 x)"

definition crc_byte :: "u16 \<Rightarrow> u16" where
  "crc_byte x =
     crc_bit (crc_bit (crc_bit (crc_bit (crc_bit (crc_bit (crc_bit (crc_bit x)))))))"

fun crc_tabulates :: "u16 \<Rightarrow> u16 list \<Rightarrow> bool" where
  "crc_tabulates x [] = True"
| "crc_tabulates x (t # ts) = (crc_byte x = t \<and> crc_tabulates (x + 1) ts)"

lemma crc_tabulates_nth:
  "crc_tabulates x ts \<Longrightarrow> i < length ts \<Longrightarrow> ts ! i = crc_byte (x + of_nat i)"
proof (induction ts arbitrary: x i)
  case (Cons t ts)
  then show ?case by (cases i) (auto simp: algebra_simps)
qed simp

lemma length_sFcsTable: "length sFcsTable = 256"
  by (simp add: sFcsTable_def)

lemma sFcsTable_tabulates: "crc_tabulates 0 sFcsTable"
  by (simp add: sFcsTable_def crc_byte_def crc_bit_def)

lemma sFcsTable_nth: "i < 256 \<Longrightarrow> sFcsTable ! i = crc_byte (of_nat i)"
  using crc_tabulates_nth [OF sFcsTable_tabulates] by (simp add: length_sFcsTable)

lemma crc_bit_xor: "crc_bit (x XOR y) = crc_bit x XOR crc_bit y"
  by (auto simp: crc_bit_def bit_xor_iff ac_simps)

lemma crc_byte_xor: "crc_byte (x XOR y) = crc_byte x XOR crc_byte y"
  by (simp add: crc_byte_def crc_bit_xor)

lemma bit_crc_bit_15: "bit (crc_bit x) 15 = bit x 0"
proof -
  have "\<not> bit (drop_bit 1 x) 15" by (simp add: bit_drop_bit_eq word_bit_beyond)
  then show ?thesis by (simp add: crc_bit_def bit_xor_iff)
qed

lemma crc_bit_inj: "crc_bit x = crc_bit y \<Longrightarrow> x = y"
proof (rule bit_word_eqI)
  fix n assume eq: "crc_bit x = crc_bit y" and "n < LENGTH(16)"
  from eq have b0: "bit x 0 = bit y 0" by (metis bit_crc_bit_15)
  with eq have "drop_bit 1 x = drop_bit 1 y" by (auto simp: crc_bit_def xor_cancel_right split: if_splits)
  then have "bit (drop_bit 1 x) m = bit (drop_bit 1 y) m" for m by simp
  then have "bit x (Suc m) = bit y (Suc m)" for m by (simp add: bit_drop_bit_eq)
  with b0 show "bit x n = bit y n" by (cases n) simp_all
qed

lemma crc_byte_inj: "crc_byte x = crc_byte y \<Longrightarrow> x = y"
  unfolding crc_byte_def by (blast dest: crc_bit_inj)

lemma crc_byte_push: "crc_byte (push_bit 8 (drop_bit 8 x)) = drop_bit 8 x"
proof (rule bit_word_eqI)
  fix n assume "n < LENGTH(16)"
  have nb: "\<not> bit (drop_bit k (push_bit 8 (drop_bit 8 x))) 0" if "k < 8" for k
    using that by (simp add: bit_drop_bit_eq bit_push_bit_iff)
  have step: "crc_bit (drop_bit k (push_bit 8 (drop_bit 8 x))) = drop_bit (Suc k) (push_bit 8 (drop_bit 8 x))"
    if "k < 8" for k
    using nb [OF that] by (simp add: crc_bit_def)
  have "crc_byte (push_bit 8 (drop_bit 8 x)) = drop_bit 8 (push_bit 8 (drop_bit 8 x))"
    using step [of 0] step [of 1] step [of 2] step [of 3] step [of 4] step [of 5] step [of 6] step [of 7]
    by (simp add: crc_byte_def numeral_eq_Suc del: drop_bit_drop_bit drop_bit_push_bit)
  moreover have "bit (drop_bit 8 (push_bit 8 (drop_bit 8 x))) n = bit (drop_bit 8 x) n"
    by (cases "n < 8") (auto simp: bit_drop_bit_eq bit_push_bit_iff word_bit_beyond)
  ultimately show "bit (crc_byte (push_bit 8 (drop_bit 8 x))) n = bit (drop_bit 8 x) n" by simp
qed

lemma u16_low_high: "(x AND 0xff) XOR push_bit 8 (drop_bit 8 x) = (x::u16)"
  unfolding u16_ff
  by (rule bit_word_eqI) (auto simp: bit_xor_iff bit_and_iff bit_mask_iff bit_push_bit_iff bit_drop_bit_eq not_less)

lemma UpdateFcs_crc_byte: "UpdateFcs f b = crc_byte (f XOR ucast b)"
proof -
  let ?z = "f XOR ucast b"
  have "crc_byte ?z = crc_byte (?z AND 0xff) XOR crc_byte (push_bit 8 (drop_bit 8 ?z))"
    by (simp only: crc_byte_xor [symmetric] u16_low_high)
  also have "crc_byte (push_bit 8 (drop_bit 8 ?z)) = drop_bit 8 f"
    by (simp add: crc_byte_push drop_bit_xor drop_bit_ucast_u8)
  also have "crc_byte (?z AND 0xff) = sFcsTable ! unat (?z AND 0xff)"
    using sFcsTable_nth [OF u16_low_less, of ?z] by simp
  finally show ?thesis by (simp add: UpdateFcs_def xor.commute)
qed

interpretation fcs: crc_register UpdateFcs
proof
  fix f f' :: u16 and b :: u8
  assume "UpdateFcs f b = UpdateFcs f' b"
  then show "f = f'" by (auto simp: UpdateFcs_crc_byte xor_cancel_right dest!: crc_byte_inj)
next
  fix f :: u16 and b b' :: u8
  assume "UpdateFcs f b = UpdateFcs f b'"
  then show "b = b'" by (auto simp: UpdateFcs_crc_byte xor_cancel_left ucast_u8_inj dest!: crc_byte_inj)
qed

section \<open>The encoder\<close>

text \<open>
  What a frame is: a flag, the payload and its complemented check sequence (low byte first) with
  every special byte escaped, and a flag.
\<close>

definition stuff :: "u8 \<Rightarrow> bytes" where
  "stuff b = (if HdlcByteNeedsEscape b then [kEscapeSequence, b XOR 0x20] else [b])"

definition fcs_of :: "bytes \<Rightarrow> u16" where
  "fcs_of bs = fold (\<lambda>b f. UpdateFcs f b) bs kInitFcs"

definition fcs_trailer :: "bytes \<Rightarrow> bytes" where
  "fcs_trailer bs =
     (let f = fcs_of bs XOR 0xffff in [ucast (f AND 0xff), ucast (drop_bit 8 f)])"

definition hdlc_frame :: "bytes \<Rightarrow> bytes" where
  "hdlc_frame bs =
     kFlagSequence # concat (map stuff (bs @ fcs_trailer bs)) @ [kFlagSequence]"

lemma length_fcs_trailer [simp]: "length (fcs_trailer bs) = 2"
  by (simp add: fcs_trailer_def Let_def)

lemma length_stuff: "1 \<le> length (stuff b)" "length (stuff b) \<le> 2"
  by (auto simp: stuff_def)

lemma length_stuffed: "length (concat (map stuff bs)) \<le> 2 * length bs"
proof (induction bs)
  case (Cons b bs)
  with length_stuff(2) [of b] show ?case by simp
qed simp

lemma length_hdlc_frame: "length (hdlc_frame bs) \<le> 2 * length bs + 6"
  using length_stuffed [of "bs @ fcs_trailer bs"] by (simp add: hdlc_frame_def del: map_append concat_append)

text \<open>The encoder's state after it has put the bytes \<open>out\<close> into an empty buffer.\<close>

definition enc_set :: "bytes \<Rightarrow> 'z hdlc_globals_scheme \<Rightarrow> 'z hdlc_globals_scheme" where
  "enc_set out s = s\<lparr>encodeBuffer := out @ drop (length out) (encodeBuffer s),
                     pEncBuffer := length out,
                     mEncodedLength := of_nat (length out)\<rparr>"

lemma enc_set_fcs [simp]:
  "mEncFcs (enc_set out s) = mEncFcs s"
  "enc_set out s\<lparr>mEncFcs := f\<rparr> = enc_set out (s\<lparr>mEncFcs := f\<rparr>)"
  by (simp_all add: enc_set_def)

lemma enc_put_set:
  assumes "length (encodeBuffer s) = 256" "length out \<le> 256"
  shows "enc_put b (enc_set out s) =
    (if length out + 1 \<le> 256 then Ret () (enc_set (out @ [b]) s) else Fault)"
proof (cases "length out < 256")
  case True
  with assms obtain c cs where d: "drop (length out) (encodeBuffer s) = c # cs"
    by (metis Cons_nth_drop_Suc)
  then have "drop (Suc (length out)) (encodeBuffer s) = cs" by (metis drop_Suc list.sel(3) tl_drop)
  with True assms d show ?thesis by (simp add: enc_put_def enc_set_def list_update_append)
next
  case False
  with assms show ?thesis by (simp add: enc_put_def enc_set_def)
qed

lemma enc_put_escaped_set:
  assumes "length (encodeBuffer s) = 256" "length out \<le> 256"
  shows "enc_put_escaped b (enc_set out s) =
    (if length out + length (stuff b) \<le> 256 then Ret () (enc_set (out @ stuff b) s) else Fault)"
  using assms by (auto simp: enc_put_escaped_def stuff_def bindC_def enc_put_set)

lemma enc_data_set:
  assumes "length (encodeBuffer s) = 256" "length out \<le> 256"
  shows "enc_data bs (enc_set out s) =
    (if length out + length (concat (map stuff bs)) \<le> 256
     then Ret () (enc_set (out @ concat (map stuff bs))
                    (s\<lparr>mEncFcs := fold (\<lambda>b f. UpdateFcs f b) bs (mEncFcs s)\<rparr>))
     else Fault)"
  using assms
proof (induction bs arbitrary: out s)
  case Nil
  then show ?case by (simp add: retC_def)
next
  case (Cons b bs)
  then show ?case by (simp add: bindC_def modifyC_def enc_put_escaped_set)
qed

text \<open>
  The encoder computes the frame, or runs out of its buffer: it faults exactly when its own
  length check passes and the frame has more than 256 bytes.
\<close>

lemma hdlc_encode_spec:
  assumes "length (encodeBuffer s) = 256"
  shows "hdlc_encode bs s =
    (if 126 < length bs then Ret (False, []) s
     else if length (hdlc_frame bs) \<le> 256
     then Ret (True, hdlc_frame bs)
            (enc_set (hdlc_frame bs) (s\<lparr>mEncFcs := fcs_of bs XOR 0xffff\<rparr>))
     else Fault)"
proof (cases "126 < length bs")
  case True
  then show ?thesis by (simp add: hdlc_encode_def retC_def)
next
  case False
  have start: "s\<lparr>pEncBuffer := 0, mEncodedLength := 0\<rparr> = enc_set [] s"
    by (simp add: enc_set_def)
  have bound: "length (hdlc_frame bs) < 65536"
    using length_hdlc_frame [of bs] False by simp
  have out: "take (unat (mEncodedLength (enc_set out t))) (encodeBuffer (enc_set out t)) = out"
    if "length out < 65536" for out and t :: "'a hdlc_globals_scheme"
    using that by (simp add: enc_set_def unat_of_nat)
  show ?thesis
    using False assms bound
    by (simp add: hdlc_encode_def bindC_def modifyC_def getsC_def start enc_put_set enc_put_escaped_set
        enc_data_set hdlc_frame_def fcs_of_def [symmetric] fcs_trailer_def Let_def out)
qed

lemma hdlc_encode_safe:
  assumes "length (encodeBuffer s) = 256" "length bs \<le> 125"
  shows "hdlc_encode bs s =
    Ret (True, hdlc_frame bs) (enc_set (hdlc_frame bs) (s\<lparr>mEncFcs := fcs_of bs XOR 0xffff\<rparr>))"
  using assms length_hdlc_frame [of bs] by (simp add: hdlc_encode_spec)

lemma enc_set_frame [simp]:
  "length (encodeBuffer s) = 256 \<Longrightarrow> length out \<le> 256 \<Longrightarrow> length (encodeBuffer (enc_set out s)) = 256"
  by (simp add: enc_set_def)

section \<open>The decoder\<close>

text \<open>
  The invariant of the decoder's globals: the write index is the number of decoded bytes, what
  the counter \<open>remainingLen\<close> still admits fits behind it, and a decoder out of sync has an empty
  frame.
\<close>

definition dec_inv :: "'z hdlc_globals_scheme \<Rightarrow> bool" where
  "dec_inv s \<longleftrightarrow>
     length (decodeBuffer s) = 256 \<and>
     pDecBuffer s = unat (mDecodedLength s) \<and>
     pDecBuffer s + unat (remainingLen s) \<le> 256 \<and>
     (mState s = kStateNoSync \<longrightarrow> pDecBuffer s = 0)"

lemma dec_inv_init: "dec_inv hdlc_init"
  by (simp add: dec_inv_def hdlc_init_def)

lemma word_ge_1: "(1 \<le> (w::u16)) = (0 < unat w)"
  by (simp add: word_le_nat_alt Suc_le_eq)

lemma dec_store_inv:
  assumes "dec_inv s" "st \<noteq> kStateNoSync"
  shows "\<exists>s'. dec_store b st s = Ret () s' \<and> dec_inv s'"
proof (cases "1 \<le> remainingLen s")
  case True
  then have pos: "0 < unat (remainingLen s)" by (simp add: word_ge_1)
  then have "unat (remainingLen s - 1) = unat (remainingLen s) - 1"
    using True by (simp add: unat_sub)
  moreover have "unat (mDecodedLength s + 1) = unat (mDecodedLength s) + 1"
    using assms pos by (simp add: dec_inv_def unat_word_ariths)
  ultimately show ?thesis
    using assms True pos by (auto simp: dec_store_def dec_inv_def)
next
  case False
  then show ?thesis
    using assms by (auto simp: dec_store_def dec_inv_def hdlc_decoder_reset_def modifyC_def)
qed

text \<open>A decoder fed any bytes at all returns, and keeps its invariant.\<close>

definition dec_returns :: "('z hdlc_globals_scheme, u16 \<times> hdlc_decode_ret) outcome \<Rightarrow> bool" where
  "dec_returns out \<longleftrightarrow> (\<exists>r s'. out = Ret (mDecodedLength s', r) s' \<and> dec_inv s' \<and>
     (r = HDLD_DECODE_PENDING \<or> r = HDLD_DECODE_COMPLETE))"

lemma dec_returns_store:
  assumes "dec_inv s" "\<And>t. dec_inv t \<Longrightarrow> dec_returns (k t)"
  shows "dec_returns (bindC (dec_store c kStateSync) (\<lambda>_. k) s)"
proof -
  obtain t where "dec_store c kStateSync s = Ret () t" "dec_inv t"
    using dec_store_inv [OF assms(1), of kStateSync c] by auto
  with assms(2) show ?thesis by (simp add: bindC_def)
qed

lemma hdlc_decode_inv: "dec_inv s \<Longrightarrow> dec_returns (hdlc_decode bs ret s)"
proof (induction bs ret s rule: hdlc_decode.induct)
  case (1 ret s)
  then show ?case by (auto simp: dec_returns_def)
next
  case (2 b bs ret s)
  show ?case
  proof (cases "mState s")
    case kStateNoSync
    then show ?thesis using "2.IH"(1,2) "2.prems" by (auto simp: dec_inv_def)
  next
    case kStateEscaped
    then show ?thesis using "2.IH"(6) "2.prems" by (simp add: dec_returns_store)
  next
    case kStateSync
    consider (esc) "b = kEscapeSequence" | (flag) "b \<noteq> kEscapeSequence" "b = kFlagSequence"
      | (data) "b \<noteq> kEscapeSequence" "b \<noteq> kFlagSequence" by blast
    then show ?thesis
    proof cases
      case esc
      then show ?thesis using "2.IH"(3) "2.prems" kStateSync by (auto simp: dec_inv_def)
    next
      case data
      then show ?thesis using "2.IH"(5) "2.prems" kStateSync by (simp add: dec_returns_store)
    next
      case flag
      show ?thesis
      proof (cases "mDecodedLength s > 0 \<and> mDecodedLength s \<ge> kFcsSize \<and> mFcs s = kGoodFcs")
        case True
        then have "2 \<le> unat (mDecodedLength s)" by (simp add: kFcsSize_def word_le_nat_alt)
        moreover have "unat (mDecodedLength s - 2) = unat (mDecodedLength s) - 2"
          using True by (simp add: kFcsSize_def unat_sub)
        moreover have "unat (remainingLen s + 2) = unat (remainingLen s) + 2"
          using "2.prems" calculation by (simp add: dec_inv_def unat_word_ariths)
        ultimately show ?thesis
          using True flag kStateSync "2.prems" by (auto simp: dec_returns_def dec_inv_def kFcsSize_def)
      next
        case False
        then show ?thesis using "2.IH"(4) flag kStateSync "2.prems" by (auto simp: dec_inv_def)
      qed
    qed
  qed
qed

subsection \<open>Specification of the decoder\<close>

text \<open>
  The abstract decoder works on the state of the automaton, the unescaped bytes of the current
  frame and the room left. It returns the payload of the first good frame, if there is one.
  The room goes down with every stored byte; nothing but a good frame's check sequence gives
  any of it back.
\<close>

type_synonym abs_dec = "hdlc_dec_state \<times> bytes \<times> nat"

definition abs_store :: "bytes \<Rightarrow> nat \<Rightarrow> u8 \<Rightarrow> abs_dec" where
  "abs_store p room b =
     (if 0 < room then (kStateSync, p @ [b], room - 1) else (kStateNoSync, [], room))"

fun abs_decode :: "bytes \<Rightarrow> abs_dec \<Rightarrow> bytes option \<times> abs_dec" where
  "abs_decode [] a = (None, a)"
| "abs_decode (b # bs) (kStateNoSync, p, room) =
     abs_decode bs (if b = kFlagSequence then (kStateSync, [], room) else (kStateNoSync, p, room))"
| "abs_decode (b # bs) (kStateSync, p, room) =
     (if b = kEscapeSequence then abs_decode bs (kStateEscaped, p, room)
      else if b = kFlagSequence
      then (if 2 \<le> length p \<and> fcs_of p = kGoodFcs
            then (Some (take (length p - 2) p), (kStateSync, take (length p - 2) p, room + 2))
            else abs_decode bs (kStateSync, [], room))
      else abs_decode bs (abs_store p room b))"
| "abs_decode (b # bs) (kStateEscaped, p, room) = abs_decode bs (abs_store p room (b XOR 0x20))"

definition dec_rel :: "'z hdlc_globals_scheme \<Rightarrow> abs_dec \<Rightarrow> bool" where
  "dec_rel s a \<longleftrightarrow> (case a of (st, p, room) \<Rightarrow>
     mState s = st \<and> take (pDecBuffer s) (decodeBuffer s) = p \<and>
     unat (remainingLen s) = room \<and> (st \<noteq> kStateNoSync \<longrightarrow> mFcs s = fcs_of p))"

lemma fcs_of_snoc: "fcs_of (p @ [b]) = UpdateFcs (fcs_of p) b"
  by (simp add: fcs_of_def)

lemma fcs_of_Nil: "fcs_of [] = kInitFcs"
  by (simp add: fcs_of_def)

lemma dec_rel_len: "dec_inv s \<Longrightarrow> dec_rel s (st, p, room) \<Longrightarrow> length p = unat (mDecodedLength s)"
  by (auto simp: dec_inv_def dec_rel_def)

lemma dec_store_rel:
  assumes inv: "dec_inv s" and rel: "dec_rel s (st, p, room)" and st: "st \<noteq> kStateNoSync"
  shows "\<exists>t. dec_store b kStateSync s = Ret () t \<and> dec_inv t \<and> dec_rel t (abs_store p room b)"
proof -
  obtain t where t: "dec_store b kStateSync s = Ret () t" "dec_inv t"
    using dec_store_inv [OF inv, of kStateSync b] by auto
  have "dec_rel t (abs_store p room b)"
  proof (cases "1 \<le> remainingLen s")
    case True
    then have pos: "0 < room" using rel by (simp add: dec_rel_def word_ge_1)
    have lt: "pDecBuffer s < length (decodeBuffer s)"
      using inv rel pos by (auto simp: dec_inv_def dec_rel_def)
    have "unat (remainingLen s - 1) = room - 1"
      using True rel by (simp add: unat_sub dec_rel_def)
    moreover have "take (Suc (pDecBuffer s)) ((decodeBuffer s)[pDecBuffer s := b]) = p @ [b]"
      using lt rel by (simp add: dec_rel_def take_Suc_conv_app_nth)
    ultimately show ?thesis
      using True pos lt t(1) rel st by (auto simp: dec_store_def dec_rel_def abs_store_def fcs_of_snoc)
  next
    case False
    then have "room = 0" using rel by (simp add: dec_rel_def word_ge_1)
    with False t(1) rel show ?thesis
      by (auto simp: dec_store_def dec_rel_def abs_store_def hdlc_decoder_reset_def modifyC_def)
  qed
  with t show ?thesis by blast
qed

definition dec_refines ::
  "('z hdlc_globals_scheme, u16 \<times> hdlc_decode_ret) outcome \<Rightarrow> bytes option \<times> abs_dec \<Rightarrow> bool" where
  "dec_refines out ra \<longleftrightarrow> (case ra of
     (None, a) \<Rightarrow> \<exists>s'. out = Ret (mDecodedLength s', HDLD_DECODE_PENDING) s' \<and> dec_inv s' \<and> dec_rel s' a
   | (Some q, (st, p, room)) \<Rightarrow> \<exists>s'. out = Ret (mDecodedLength s', HDLD_DECODE_COMPLETE) s' \<and> dec_inv s' \<and>
        unat (mDecodedLength s') = length q \<and> take (length q) (decodeBuffer s') = q \<and>
        unat (remainingLen s') = room)"

lemma dec_refines_store:
  assumes "dec_inv s" "dec_rel s (st, p, room)" "st \<noteq> kStateNoSync"
    and "\<And>t. dec_inv t \<Longrightarrow> dec_rel t (abs_store p room c) \<Longrightarrow> dec_refines (k t) (abs_decode bs (abs_store p room c))"
  shows "dec_refines (bindC (dec_store c kStateSync) (\<lambda>_. k) s) (abs_decode bs (abs_store p room c))"
proof -
  obtain t where "dec_store c kStateSync s = Ret () t" "dec_inv t" "dec_rel t (abs_store p room c)"
    using dec_store_rel [OF assms(1-3)] by blast
  with assms(4) show ?thesis by (simp add: bindC_def)
qed

lemma dec_complete_refines:
  assumes "dec_inv s" "dec_rel s (kStateSync, p, room)" "2 \<le> length p" "fcs_of p = kGoodFcs"
  shows "dec_refines (hdlc_decode (kFlagSequence # bs) ret s) (Some (take (length p - 2) p), (st, q, room + 2))"
proof -
  have len: "length p = unat (mDecodedLength s)" using assms(1,2) by (rule dec_rel_len)
  then have ge: "2 \<le> unat (mDecodedLength s)" using assms(3) by simp
  then have le: "(2::u16) \<le> mDecodedLength s" by (simp add: word_le_nat_alt)
  then have "unat (mDecodedLength s - 2) = length p - 2" using len by (simp add: unat_sub)
  moreover have "unat (remainingLen s + 2) = room + 2"
    using assms(1,2) ge by (simp add: dec_inv_def dec_rel_def unat_word_ariths)
  moreover have "mDecodedLength s > 0" using ge by (simp add: word_less_nat_alt)
  moreover have "take (length p - 2) (decodeBuffer s) = take (length p - 2) p"
    using assms(1,2) len by (auto simp: dec_inv_def dec_rel_def)
  ultimately show ?thesis
    using assms ge le len
    by (auto simp: dec_refines_def dec_rel_def dec_inv_def kFcsSize_def kFlagSequence_def kEscapeSequence_def)
qed

lemma hdlc_decode_refines:
  "dec_inv s \<Longrightarrow> dec_rel s a \<Longrightarrow> dec_refines (hdlc_decode bs ret s) (abs_decode bs a)"
proof (induction bs a arbitrary: ret s rule: abs_decode.induct)
  case (1 a)
  then show ?case by (auto simp: dec_refines_def)
next
  case (2 b bs p room)
  then show ?case by (auto simp: dec_inv_def dec_rel_def fcs_of_Nil)
next
  case (3 b bs p room)
  note len = dec_rel_len [OF "3.prems"]
  have st: "mState s = kStateSync" using "3.prems" by (simp add: dec_rel_def)
  consider (esc) "b = kEscapeSequence" | (flag) "b \<noteq> kEscapeSequence" "b = kFlagSequence"
    | (data) "b \<noteq> kEscapeSequence" "b \<noteq> kFlagSequence" by blast
  then show ?case
  proof cases
    case esc
    then show ?thesis using "3.IH"(1) "3.prems" st by (auto simp: dec_inv_def dec_rel_def)
  next
    case data
    then have "dec_refines (bindC (dec_store b kStateSync) (\<lambda>_. hdlc_decode bs ret) s)
        (abs_decode bs (abs_store p room b))"
      by (intro dec_refines_store [OF "3.prems"] "3.IH"(3)) auto
    with data st show ?thesis by simp
  next
    case flag
    show ?thesis
    proof (cases "2 \<le> length p \<and> fcs_of p = kGoodFcs")
      case True
      then show ?thesis using dec_complete_refines [OF "3.prems"] flag by simp
    next
      case False
      have "\<not> (mDecodedLength s > 0 \<and> mDecodedLength s \<ge> kFcsSize \<and> mFcs s = kGoodFcs)"
        using False "3.prems" len by (auto simp: dec_rel_def kFcsSize_def word_le_nat_alt)
      with False flag st "3.IH"(2) "3.prems" show ?thesis
        by (auto simp: dec_inv_def dec_rel_def fcs_of_Nil)
    qed
  qed
next
  case (4 b bs p room)
  have st: "mState s = kStateEscaped" using "4.prems" by (simp add: dec_rel_def)
  have "dec_refines (bindC (dec_store (b XOR 0x20) kStateSync) (\<lambda>_. hdlc_decode bs ret) s)
      (abs_decode bs (abs_store p room (b XOR 0x20)))"
    by (intro dec_refines_store [OF "4.prems"] "4.IH") auto
  with st show ?case by simp
qed

subsection \<open>Frames through the decoder\<close>

lemma abs_decode_stuff:
  "0 < room \<Longrightarrow> abs_decode (stuff b @ bs) (kStateSync, p, room) = abs_decode bs (kStateSync, p @ [b], room - 1)"
  by (auto simp: stuff_def HdlcByteNeedsEscape_def abs_store_def xor.assoc)

lemma abs_decode_stuffed:
  "length ds \<le> room \<Longrightarrow>
   abs_decode (concat (map stuff ds) @ bs) (kStateSync, p, room) = abs_decode bs (kStateSync, p @ ds, room - length ds)"
proof (induction ds arbitrary: p room)
  case (Cons d ds)
  then show ?case by (simp add: abs_decode_stuff)
qed simp

lemma xor_common: "(a XOR c) XOR (a XOR d) = c XOR (d::'a::len word)"
  by (rule bit_word_eqI) (auto simp: bit_xor_iff)

lemma fcs_residue: "fcs_of (bs @ fcs_trailer bs) = kGoodFcs"
proof -
  let ?f = "fcs_of bs"
  let ?g = "?f XOR 0xffff"
  let ?lo = "ucast (?g AND 0xff) :: u8" and ?hi = "ucast (drop_bit 8 ?g) :: u8"
  have ffff: "(0xffff::u16) = mask 16" by (simp add: mask_eq_exp_minus_1)
  have "(?f XOR ucast ?lo) AND 0xff = 0xff"
    unfolding u16_ff ffff
    by (rule bit_word_eqI) (auto simp: bit_simps)
  then have 1: "UpdateFcs ?f ?lo = drop_bit 8 ?f XOR 0x0f78"
    by (simp add: UpdateFcs_def sFcsTable_def)
  have "(ucast ?hi :: u16) = drop_bit 8 ?f XOR 0xff"
    unfolding u16_ff ffff
    by (rule bit_word_eqI) (auto simp: bit_simps word_bit_beyond)
  then have "(drop_bit 8 ?f XOR 0x0f78) XOR ucast ?hi = 0x0f78 XOR (0xff::u16)"
    by (simp only: xor_common)
  moreover have "drop_bit 8 (drop_bit 8 ?f XOR 0x0f78) = 0x0f"
    by (simp add: drop_bit_xor)
  ultimately have 2: "UpdateFcs (drop_bit 8 ?f XOR 0x0f78) ?hi = kGoodFcs"
    by (simp add: UpdateFcs_def sFcsTable_def kGoodFcs_def)
  have "fcs_of (bs @ fcs_trailer bs) = UpdateFcs (UpdateFcs ?f ?lo) ?hi"
    by (simp add: fcs_of_def fcs_trailer_def Let_def)
  with 1 2 show ?thesis by simp
qed

lemma abs_decode_body:
  assumes "length ds \<le> room"
  shows "abs_decode (concat (map stuff ds) @ kFlagSequence # rest) (kStateSync, [], room) =
    (if 2 \<le> length ds \<and> fcs_of ds = kGoodFcs
     then (Some (take (length ds - 2) ds), (kStateSync, take (length ds - 2) ds, room - length ds + 2))
     else abs_decode rest (kStateSync, [], room - length ds))"
  using abs_decode_stuffed [OF assms, of "kFlagSequence # rest" "[]"]
  by (simp add: kFlagSequence_def kEscapeSequence_def)

lemma abs_decode_noise:
  "kFlagSequence \<notin> set noise \<Longrightarrow>
   abs_decode (noise @ bs) (kStateNoSync, p, room) = abs_decode bs (kStateNoSync, p, room)"
  by (induction noise) auto

lemma abs_decode_frame:
  assumes "length bs + 2 \<le> room"
  shows "abs_decode (hdlc_frame bs @ rest) (kStateNoSync, p, room) =
    (Some bs, (kStateSync, bs, room - length bs))"
  using abs_decode_body [of "bs @ fcs_trailer bs" room rest] assms
  by (simp add: hdlc_frame_def fcs_residue del: map_append concat_append)

text \<open>The bytes of the current frame and the room left never grow together.\<close>

lemma abs_store_bound: "abs_store p room b = (st', p', room') \<Longrightarrow> length p' + room' \<le> length p + room"
  by (auto simp: abs_store_def split: if_splits)

lemma abs_decode_bound:
  "abs_decode bs (st, p, room) = (Some q, (st', p', room')) \<Longrightarrow>
   length q + 2 \<le> length p + room \<and> length q + room' \<le> length p + room"
proof (induction bs "(st, p, room)" arbitrary: st p room rule: abs_decode.induct)
  case (2 b bs p room)
  then show ?case by (fastforce split: if_splits)
next
  case (3 b bs p room)
  show ?case
  proof (cases "b \<noteq> kEscapeSequence \<and> b \<noteq> kFlagSequence")
    case True
    obtain st1 p1 room1 where a: "abs_store p room b = (st1, p1, room1)" by (cases "abs_store p room b")
    with True "3.prems" have "abs_decode bs (st1, p1, room1) = (Some q, (st', p', room'))" by simp
    with "3.hyps"(3) [of st1 p1 room1] True a abs_store_bound [OF a] show ?thesis by auto
  next
    case False
    then show ?thesis using "3.prems" "3.hyps"(1,2) by (fastforce split: if_splits)
  qed
next
  case (4 b bs p room)
  obtain st1 p1 room1 where a: "abs_store p room (b XOR 0x20) = (st1, p1, room1)"
    by (cases "abs_store p room (b XOR 0x20)")
  with "4.prems" have "abs_decode bs (st1, p1, room1) = (Some q, (st', p', room'))" by simp
  with "4.hyps" [of st1 p1 room1] a abs_store_bound [OF a] show ?case by auto
qed simp

text \<open>Splitting the input changes nothing as long as no frame is complete.\<close>

lemma abs_decode_append:
  "abs_decode (xs @ ys) a =
     (case abs_decode xs a of (None, a') \<Rightarrow> abs_decode ys a' | (Some q, a') \<Rightarrow> (Some q, a'))"
  by (induction xs a rule: abs_decode.induct) simp_all

lemma hdlc_decode_ret_irrelevant:
  fixes s :: "'z hdlc_globals_scheme"
  shows "hdlc_decode bs ret s = hdlc_decode bs ret' s"
proof (induction bs arbitrary: ret ret' s)
  case (Cons b bs)
  define c where "c = (hdlc_decode bs HDLD_DECODE_PENDING :: 'z hdlc_globals_scheme \<Rightarrow> _)"
  have "hdlc_decode bs r = c" for r
    unfolding c_def using Cons.IH by (intro ext)
  then show ?case by (cases "mState s") simp_all
qed simp

lemma dec_rel_reset:
  "dec_inv s \<Longrightarrow> \<exists>t. hdlc_decoder_reset s = Ret () t \<and> dec_inv t \<and>
     dec_rel t (kStateNoSync, [], unat (remainingLen s)) \<and> remainingLen t = remainingLen s"
  by (simp add: hdlc_decoder_reset_def modifyC_def dec_inv_def dec_rel_def)

section \<open>Properties of the layer\<close>

text \<open>The operations of the file, as the tool may call them in any order.\<close>

datatype hdlc_op = OpEncode bytes | OpReset | OpDecode bytes

fun hdlc_run :: "hdlc_op list \<Rightarrow> ('z hdlc_globals_scheme, unit) cmd" where
  "hdlc_run [] = retC ()"
| "hdlc_run (OpEncode bs # ops) = bindC (hdlc_encode bs) (\<lambda>_. hdlc_run ops)"
| "hdlc_run (OpReset # ops) = bindC hdlc_decoder_reset (\<lambda>_. hdlc_run ops)"
| "hdlc_run (OpDecode bs # ops) = bindC (hdlc_decode bs HDLD_DECODE_PENDING) (\<lambda>_. hdlc_run ops)"

fun encodes_at_most :: "nat \<Rightarrow> hdlc_op \<Rightarrow> bool" where
  "encodes_at_most n (OpEncode bs) = (length bs \<le> n)"
| "encodes_at_most n op = True"

definition hdlc_inv :: "'z hdlc_globals_scheme \<Rightarrow> bool" where
  "hdlc_inv s \<longleftrightarrow> dec_inv s \<and> length (encodeBuffer s) = 256"

lemma hdlc_inv_init: "hdlc_inv hdlc_init"
  by (simp add: hdlc_inv_def dec_inv_init) (simp add: hdlc_init_def)

lemma dec_inv_enc_set [simp]: "dec_inv (enc_set out s) = dec_inv s"
  by (simp add: enc_set_def dec_inv_def)

lemma dec_inv_mEncFcs [simp]: "dec_inv (s\<lparr>mEncFcs := f\<rparr>) = dec_inv s"
  by (simp add: dec_inv_def)

lemma encode_buffer_dec_store:
  "dec_store b st s = Ret u t \<Longrightarrow> encodeBuffer t = encodeBuffer s"
  by (auto simp: dec_store_def hdlc_decoder_reset_def modifyC_def split: if_splits)

lemma encode_buffer_hdlc_decode:
  "hdlc_decode bs ret s = Ret nr t \<Longrightarrow> encodeBuffer t = encodeBuffer s"
proof (induction bs arbitrary: ret s)
  case (Cons b bs)
  then show ?case
    by (auto simp: bindC_def split: hdlc_dec_state.splits if_splits outcome.splits
        dest!: encode_buffer_dec_store)
qed simp

lemma hdlc_encode_triple:
  "length bs \<le> 125 \<Longrightarrow>
   triple hdlc_inv (hdlc_encode bs) (\<lambda>(ok, f) t. hdlc_inv t \<and> ok \<and> f = hdlc_frame bs) (\<lambda>_. False)"
  using length_hdlc_frame [of bs]
  by (auto simp: gtriple_def hdlc_inv_def hdlc_encode_safe)

lemma hdlc_reset_triple:
  "triple hdlc_inv hdlc_decoder_reset (\<lambda>_ t. hdlc_inv t \<and> mState t = kStateNoSync \<and> mDecodedLength t = 0) (\<lambda>_. False)"
  by (auto simp: gtriple_def hdlc_inv_def dec_inv_def hdlc_decoder_reset_def modifyC_def)

lemma hdlc_decode_triple:
  "triple hdlc_inv (hdlc_decode bs ret) (\<lambda>(n, r) t. hdlc_inv t \<and> n = mDecodedLength t) (\<lambda>_. False)"
proof (rule tripleI)
  fix s :: "'a hdlc_globals_scheme" assume inv: "hdlc_inv s"
  then have "dec_returns (hdlc_decode bs ret s)"
    by (simp add: hdlc_inv_def hdlc_decode_inv)
  then obtain r t where d: "hdlc_decode bs ret s = Ret (mDecodedLength t, r) t" "dec_inv t"
    by (auto simp: dec_returns_def)
  from encode_buffer_hdlc_decode [OF d(1)] inv d(2) have "hdlc_inv t"
    by (simp add: hdlc_inv_def)
  with d(1) show "case hdlc_decode bs ret s of
      Ret a s' \<Rightarrow> (case a of (n, r) \<Rightarrow> \<lambda>t. hdlc_inv t \<and> n = mDecodedLength t) s'
    | Exit n s' \<Rightarrow> False | Blocked s' \<Rightarrow> False | Fault \<Rightarrow> False"
    by simp
qed

lemma hdlc_run_triple:
  "list_all (encodes_at_most 125) ops \<Longrightarrow> triple hdlc_inv (hdlc_run ops) (\<lambda>_. hdlc_inv) (\<lambda>_. False)"
proof (induction ops)
  case Nil
  show ?case by (auto intro: triple_rules)
next
  case (Cons op ops)
  then have "list_all (encodes_at_most 125) ops" by simp
  note IH = Cons.IH [OF this]
  show ?case
  proof (cases op)
    case (OpEncode bs)
    with Cons.prems have "length bs \<le> 125" by simp
    then show ?thesis unfolding OpEncode hdlc_run.simps
      by (rule triple_bindC [OF hdlc_encode_triple]) (rule triple_pre [OF IH], auto)
  next
    case OpReset
    show ?thesis unfolding OpReset hdlc_run.simps
      by (rule triple_bindC [OF hdlc_reset_triple]) (rule triple_pre [OF IH], auto)
  next
    case (OpDecode bs)
    show ?thesis unfolding OpDecode hdlc_run.simps
      by (rule triple_bindC [OF hdlc_decode_triple]) (rule triple_pre [OF IH], auto)
  qed
qed

text \<open>The check register evaluated byte by byte, for concrete payloads.\<close>

fun fcs_run :: "bytes \<Rightarrow> u16 \<Rightarrow> u16" where
  "fcs_run [] f = f"
| "fcs_run (b # bs) f = fcs_run bs (crc_byte (f XOR ucast b))"

lemma fcs_of_run: "fcs_of bs = fcs_run bs kInitFcs"
proof -
  have "fold (\<lambda>b f. UpdateFcs f b) bs f = fcs_run bs f" for f
    by (induction bs arbitrary: f) (simp_all add: UpdateFcs_crc_byte)
  then show ?thesis by (simp add: fcs_of_def)
qed

lemmas fcs_eval = fcs_of_run kInitFcs_def crc_byte_def crc_bit_def

definition overflow_payload :: bytes where
  "overflow_payload = replicate 123 0x11 @ [0x7d, 0x13, 0x7d]"

lemma replicate_step: "replicate (numeral k) x = x # replicate (pred_numeral k) x"
  by (simp add: numeral_eq_Suc)

lemma fcs_of_overflow_payload: "fcs_of overflow_payload = 0xf307"
  by (simp add: overflow_payload_def fcs_eval replicate_step)

lemma word_of_unat: "unat (w::'a::len word) = n \<Longrightarrow> w = of_nat n"
  by auto

lemma hdlc_decode_spec:
  assumes "hdlc_inv s" "dec_rel s a"
  shows "case abs_decode bs a of
      (None, a') \<Rightarrow> \<exists>t. hdlc_decode bs ret s = Ret (mDecodedLength t, HDLD_DECODE_PENDING) t \<and> hdlc_inv t \<and> dec_rel t a'
    | (Some q, (st, p, room)) \<Rightarrow> \<exists>t. hdlc_decode bs ret s = Ret (of_nat (length q), HDLD_DECODE_COMPLETE) t \<and>
        hdlc_inv t \<and> take (length q) (decodeBuffer t) = q \<and> unat (remainingLen t) = room"
proof -
  have ref: "dec_refines (hdlc_decode bs ret s) (abs_decode bs a)"
    using assms by (intro hdlc_decode_refines) (simp_all add: hdlc_inv_def)
  have inv: "hdlc_inv t" if "hdlc_decode bs ret s = Ret (n, r) t" for n r t
    using triple_Ret [OF hdlc_decode_triple assms(1) that] by simp
  show ?thesis
    using ref by (auto simp: dec_refines_def inv split: prod.splits option.splits)
      (rule word_of_unat)
qed

text \<open>
  C1: Whatever payload of up to 125 bytes the encoder is given, decoding its frame after a reset
  gives the payload back, as long as the decoder has room left for the payload and the two check
  bytes; noise without a flag byte may come before the frame and anything behind it. The room
  the payload took is not given back, so that the condition on the room cannot be dropped: from
  power-up it holds while the payloads received so far and this one have at most 254 bytes.
\<close>

theorem hdlc_roundtrip:
  assumes "hdlc_inv s" "length bs \<le> 125" "length bs + 2 \<le> unat (remainingLen s)"
    and "kFlagSequence \<notin> set noise"
  shows "\<exists>f s1 s2 s3.
    hdlc_encode bs s = Ret (True, f) s1 \<and>
    hdlc_decoder_reset s1 = Ret () s2 \<and>
    hdlc_decode (noise @ f @ rest) ret s2 = Ret (of_nat (length bs), HDLD_DECODE_COMPLETE) s3 \<and>
    take (length bs) (decodeBuffer s3) = bs \<and> hdlc_inv s3 \<and>
    unat (remainingLen s3) = unat (remainingLen s) - length bs"
proof -
  define s1 where "s1 = enc_set (hdlc_frame bs) (s\<lparr>mEncFcs := fcs_of bs XOR 0xffff\<rparr>)"
  have e: "hdlc_encode bs s = Ret (True, hdlc_frame bs) s1"
    using assms by (simp add: hdlc_inv_def hdlc_encode_safe s1_def)
  have inv1: "hdlc_inv s1"
    using triple_Ret [OF hdlc_encode_triple [OF assms(2)] assms(1) e] by simp
  obtain s2 where r: "hdlc_decoder_reset s1 = Ret () s2" "dec_inv s2"
    "dec_rel s2 (kStateNoSync, [], unat (remainingLen s1))"
    using dec_rel_reset [of s1] inv1 by (auto simp: hdlc_inv_def)
  have room: "remainingLen s1 = remainingLen s" by (simp add: s1_def enc_set_def)
  have "dec_refines (hdlc_decode (noise @ hdlc_frame bs @ rest) ret s2)
      (Some bs, (kStateSync, bs, unat (remainingLen s) - length bs))"
    using hdlc_decode_refines [OF r(2,3), of "noise @ hdlc_frame bs @ rest" ret]
      abs_decode_noise [OF assms(4)] abs_decode_frame [OF assms(3)] room by simp
  then obtain s3 where d: "hdlc_decode (noise @ hdlc_frame bs @ rest) ret s2 = Ret (mDecodedLength s3, HDLD_DECODE_COMPLETE) s3"
    and s3: "unat (mDecodedLength s3) = length bs" "take (length bs) (decodeBuffer s3) = bs"
    "unat (remainingLen s3) = unat (remainingLen s) - length bs"
    by (auto simp: dec_refines_def)
  have "hdlc_inv s2" using triple_Ret [OF hdlc_reset_triple inv1 r(1)] by simp
  then have "hdlc_inv s3" using triple_Ret [OF hdlc_decode_triple _ d] by simp
  moreover have "mDecodedLength s3 = of_nat (length bs)"
    using s3(1) by (rule word_of_unat)
  ultimately show ?thesis using e r(1) d s3 by auto
qed

theorem hdlc_roundtrip_witness:
  "\<exists>f s1 s2 s3.
    hdlc_encode [0x11, 0x7e, 0x7d, 0x2a] hdlc_init = Ret (True, f) s1 \<and>
    hdlc_decoder_reset s1 = Ret () s2 \<and>
    hdlc_decode ([0x55] @ f @ [0x00]) HDLD_DECODE_PENDING s2 =
      Ret (of_nat (length [0x11, 0x7e, 0x7d, 0x2a::u8]), HDLD_DECODE_COMPLETE) s3 \<and>
    take (length [0x11, 0x7e, 0x7d, 0x2a::u8]) (decodeBuffer s3) = [0x11, 0x7e, 0x7d, 0x2a] \<and> hdlc_inv s3 \<and>
    unat (remainingLen s3) = unat (remainingLen hdlc_init) - length [0x11, 0x7e, 0x7d, 0x2a::u8]"
  by (rule hdlc_roundtrip [OF hdlc_inv_init]) (simp_all add: hdlc_init_def hdlc_consts)

text \<open>
  C12: In whatever order the tool encodes payloads of up to 125 bytes, resets the decoder and
  feeds it bytes, no access leaves the two 256-byte buffers, every call returns, and the
  globals keep their invariant.
\<close>

theorem hdlc_memory_safe:
  assumes "list_all (encodes_at_most 125) ops"
  shows "\<exists>t. hdlc_run ops hdlc_init = Ret () t \<and> hdlc_inv t"
  using tripleD [OF hdlc_run_triple [OF assms] hdlc_inv_init] by (auto split: outcome.splits)

theorem hdlc_memory_safe_witness:
  "\<exists>t. hdlc_run [OpEncode [1, 2, 3], OpReset, OpDecode [0x7e, 0x41, 0x7e], OpReset] hdlc_init = Ret () t \<and> hdlc_inv t"
  using hdlc_memory_safe [of "[OpEncode [1, 2, 3], OpReset, OpDecode [0x7e, 0x41, 0x7e], OpReset]"] by simp

text \<open>
  C16: The decoder implements its specification: in step with the abstract automaton it returns
  \<open>HDLD_DECODE_COMPLETE\<close> with the payload in the buffer exactly when the automaton finds a good
  frame, and otherwise \<open>HDLD_DECODE_PENDING\<close> in a state that again represents the automaton's.
\<close>

theorem hdlc_decode_implements:
  assumes "hdlc_inv s" "dec_rel s a"
  shows "case abs_decode bs a of
      (None, a') \<Rightarrow> \<exists>t. hdlc_decode bs ret s = Ret (mDecodedLength t, HDLD_DECODE_PENDING) t \<and> hdlc_inv t \<and> dec_rel t a'
    | (Some q, (st, p, room)) \<Rightarrow> \<exists>t. hdlc_decode bs ret s = Ret (of_nat (length q), HDLD_DECODE_COMPLETE) t \<and>
        hdlc_inv t \<and> take (length q) (decodeBuffer t) = q \<and> unat (remainingLen t) = room"
  using assms by (rule hdlc_decode_spec)

theorem hdlc_decode_implements_witness:
  "\<exists>t. hdlc_decode [0x7e, 0x41, 0x7d] HDLD_DECODE_PENDING hdlc_init =
      Ret (mDecodedLength t, HDLD_DECODE_PENDING) t \<and> hdlc_inv t \<and> dec_rel t (kStateEscaped, [0x41], 255)"
proof -
  have "dec_rel hdlc_init (kStateNoSync, [], 256)" by (simp add: dec_rel_def hdlc_init_def)
  from hdlc_decode_implements [OF hdlc_inv_init this, of "[0x7e, 0x41, 0x7d]" HDLD_DECODE_PENDING]
  show ?thesis by (simp add: hdlc_consts abs_store_def)
qed

text \<open>
  C30: The table-driven update of the check sequence is the bitwise reflected CRC-16 with
  polynomial \<open>0x8408\<close>, byte by byte over any message.
\<close>

theorem UpdateFcs_is_crc16:
  "fold (\<lambda>b f. UpdateFcs f b) bs f = fold (\<lambda>b f. (crc_bit ^^ 8) (f XOR ucast b)) bs f"
proof -
  have "UpdateFcs f b = (crc_bit ^^ 8) (f XOR ucast b)" for f b
    by (simp add: UpdateFcs_crc_byte crc_byte_def numeral_eq_Suc)
  then show ?thesis by simp
qed

text \<open>
  C31: A frame in which one byte of the payload or of the check sequence was replaced by another
  is never delivered: the decoder drops it and stays in sync.
\<close>

theorem hdlc_single_error_detected:
  assumes "hdlc_inv s" "dec_rel s (kStateNoSync, [], room)" "length bs + 2 \<le> room"
    and "bs @ fcs_trailer bs = xs @ b # ys" "b' \<noteq> b"
  shows "\<exists>t. hdlc_decode (kFlagSequence # concat (map stuff (xs @ b' # ys)) @ [kFlagSequence]) ret s =
      Ret (0, HDLD_DECODE_PENDING) t \<and> mState t = kStateSync"
proof -
  let ?ds = "xs @ b' # ys"
  have "length ?ds = length (bs @ fcs_trailer bs)" unfolding assms(4) by simp
  then have len: "length ?ds \<le> room" using assms(3) by simp
  have "fcs_of (xs @ b # ys) = kGoodFcs" using fcs_residue [of bs] unfolding assms(4) .
  then have bad: "fcs_of ?ds \<noteq> kGoodFcs"
    using fcs.one_change_detected [OF assms(5), of xs ys kInitFcs] by (auto simp: fcs_of_def)
  have "abs_decode (kFlagSequence # concat (map stuff ?ds) @ [kFlagSequence]) (kStateNoSync, [], room) =
      (None, (kStateSync, [], room - length ?ds))"
    using abs_decode_body [OF len, of "[]"] bad by simp
  with hdlc_decode_spec [OF assms(1,2), of "kFlagSequence # concat (map stuff ?ds) @ [kFlagSequence]" ret]
  obtain t where t: "hdlc_decode (kFlagSequence # concat (map stuff ?ds) @ [kFlagSequence]) ret s =
      Ret (mDecodedLength t, HDLD_DECODE_PENDING) t" and inv: "hdlc_inv t" and rel: "dec_rel t (kStateSync, [], room - length ?ds)"
    by (auto simp del: hdlc_decode.simps)
  from rel have "mState t = kStateSync" by (simp add: dec_rel_def)
  moreover from inv have "dec_inv t" by (simp add: hdlc_inv_def)
  from dec_rel_len [OF this rel] have "mDecodedLength t = 0" by (simp add: unat_eq_0)
  ultimately show ?thesis using t by metis
qed

theorem hdlc_single_error_detected_witness:
  "\<exists>t. hdlc_decode (kFlagSequence # concat (map stuff ([0x41] @ 0x43 # fcs_trailer [0x41, 0x42])) @ [kFlagSequence])
      HDLD_DECODE_PENDING hdlc_init = Ret (0, HDLD_DECODE_PENDING) t \<and> mState t = kStateSync"
proof (rule hdlc_single_error_detected [OF hdlc_inv_init])
  show "dec_rel hdlc_init (kStateNoSync, [], 256)" by (simp add: dec_rel_def hdlc_init_def)
  show "[0x41, 0x42] @ fcs_trailer [0x41, 0x42] = [0x41] @ 0x42 # fcs_trailer [0x41, 0x42]" by simp
qed simp_all

text \<open>The encoded bytes between the two flags contain no byte that the line treats specially.\<close>

lemma stuff_plain: "c \<in> set (stuff b) \<Longrightarrow> c = kEscapeSequence \<or> \<not> HdlcByteNeedsEscape c"
  by (auto simp: stuff_def HdlcByteNeedsEscape_def hdlc_consts split: if_splits)

lemma stuffed_plain: "c \<in> set (concat (map stuff ds)) \<Longrightarrow> c = kEscapeSequence \<or> \<not> HdlcByteNeedsEscape c"
  by (auto dest: stuff_plain)

lemma length_stuffed_ge: "length ds \<le> length (concat (map stuff ds))"
proof (induction ds)
  case (Cons d ds)
  with length_stuff(1) [of d] show ?case by simp
qed simp

lemma flag_needs_escape: "HdlcByteNeedsEscape kFlagSequence" "kFlagSequence \<noteq> kEscapeSequence"
  by (simp_all add: HdlcByteNeedsEscape_def hdlc_consts)

lemma flag_not_stuffed: "kFlagSequence \<notin> set (concat (map stuff ds))"
  using stuffed_plain [of kFlagSequence ds] flag_needs_escape by blast

text \<open>A frame longer than the room left is lost, and takes all the room with it.\<close>

lemma abs_decode_too_long:
  assumes "room < length ds"
  shows "abs_decode (concat (map stuff ds) @ [kFlagSequence]) (kStateSync, p, room) = (None, (kStateSync, [], 0))"
proof -
  let ?xs = "take room ds" and ?y = "ds ! room" and ?zs = "drop (Suc room) ds"
  have ds: "ds = ?xs @ ?y # ?zs" using assms by (simp add: id_take_nth_drop)
  have full: "abs_decode (stuff ?y @ bs) (kStateSync, q, 0) = abs_decode bs (kStateNoSync, [], 0)" for bs q
    by (auto simp: stuff_def HdlcByteNeedsEscape_def abs_store_def)
  have "abs_decode (concat (map stuff ds) @ [kFlagSequence]) (kStateSync, p, room) =
      abs_decode (concat (map stuff ?xs) @ stuff ?y @ concat (map stuff ?zs) @ [kFlagSequence]) (kStateSync, p, room)"
    by (subst ds) (simp del: append_take_drop_id)
  also have "\<dots> = abs_decode (concat (map stuff ?zs) @ [kFlagSequence]) (kStateNoSync, [], 0)"
    using assms abs_decode_stuffed [of ?xs room "stuff ?y @ concat (map stuff ?zs) @ [kFlagSequence]" p]
    by (simp add: full)
  also have "\<dots> = (None, (kStateSync, [], 0))"
    using abs_decode_noise [OF flag_not_stuffed] by simp
  finally show ?thesis .
qed

lemma abs_decode_frame_iff:
  "abs_decode (hdlc_frame bs) (kStateNoSync, p, room) =
    (if length bs + 2 \<le> room then (Some bs, (kStateSync, bs, room - length bs)) else (None, (kStateSync, [], 0)))"
  using abs_decode_frame [of bs room "[]" p] abs_decode_too_long [of room "bs @ fcs_trailer bs" "[]"]
  by (simp add: hdlc_frame_def del: map_append concat_append)

text \<open>The reception of one frame as the tool does it: a reset and then the frame's bytes.\<close>

definition receive :: "bytes \<Rightarrow> ('z hdlc_globals_scheme, u16 \<times> hdlc_decode_ret) cmd" where
  "receive bs = bindC hdlc_decoder_reset (\<lambda>_. hdlc_decode bs HDLD_DECODE_PENDING)"

lemma receive_frame:
  assumes "hdlc_inv s"
  shows "\<exists>t n r. receive (hdlc_frame bs) s = Ret (n, r) t \<and> hdlc_inv t \<and>
    (if length bs + 2 \<le> unat (remainingLen s)
     then r = HDLD_DECODE_COMPLETE \<and> n = of_nat (length bs) \<and> take (length bs) (decodeBuffer t) = bs \<and>
       unat (remainingLen t) = unat (remainingLen s) - length bs
     else r = HDLD_DECODE_PENDING \<and> n = 0 \<and> remainingLen t = 0)"
proof -
  let ?room = "unat (remainingLen s)"
  from assms have "dec_inv s" "length (encodeBuffer s) = 256" by (simp_all add: hdlc_inv_def)
  with dec_rel_reset [of s] obtain s1 where s1: "hdlc_decoder_reset s = Ret () s1" "dec_inv s1"
      "dec_rel s1 (kStateNoSync, [], ?room)" by auto
  from triple_Ret [OF hdlc_reset_triple assms s1(1)] have "hdlc_inv s1" by simp
  note spec = hdlc_decode_spec [OF this s1(3), of "hdlc_frame bs" HDLD_DECODE_PENDING, unfolded abs_decode_frame_iff]
  show ?thesis
  proof (cases "length bs + 2 \<le> ?room")
    case True
    with spec s1(1) show ?thesis by (auto simp: receive_def bindC_def)
  next
    case False
    with spec obtain t where t: "hdlc_decode (hdlc_frame bs) HDLD_DECODE_PENDING s1 =
        Ret (mDecodedLength t, HDLD_DECODE_PENDING) t" "hdlc_inv t" "dec_rel t (kStateSync, [], 0)" by auto
    then have "mDecodedLength t = 0" using dec_rel_len [OF _ t(3)] by (simp add: hdlc_inv_def unat_eq_0)
    moreover have "remainingLen t = 0" using t(3) by (simp add: dec_rel_def unat_eq_0)
    ultimately show ?thesis using False t s1(1) by (auto simp: receive_def bindC_def)
  qed
qed

fun receive_all :: "bytes list \<Rightarrow> ('z hdlc_globals_scheme, (u16 \<times> hdlc_decode_ret) list) cmd" where
  "receive_all [] = retC []"
| "receive_all (p # ps) =
     bindC (receive (hdlc_frame p)) (\<lambda>nr. bindC (receive_all ps) (\<lambda>nrs. retC (nr # nrs)))"

definition delivered :: "bytes \<Rightarrow> u16 \<times> hdlc_decode_ret" where
  "delivered p = (of_nat (length p), HDLD_DECODE_COMPLETE)"

lemma receive_all_delivers:
  assumes "hdlc_inv s" "sum_list (map length ps) + 2 \<le> unat (remainingLen s)"
  shows "\<exists>t. receive_all ps s = Ret (map delivered ps) t \<and> hdlc_inv t \<and>
    unat (remainingLen t) = unat (remainingLen s) - sum_list (map length ps)"
  using assms
proof (induction ps arbitrary: s)
  case Nil
  then show ?case by (simp add: retC_def)
next
  case (Cons p ps)
  then obtain t where t: "receive (hdlc_frame p) s = Ret (delivered p) t" "hdlc_inv t"
      "unat (remainingLen t) = unat (remainingLen s) - length p"
    using receive_frame [OF Cons.prems(1), of p] by (auto simp: delivered_def)
  with Cons.prems(2) have "sum_list (map length ps) + 2 \<le> unat (remainingLen t)" by simp
  from Cons.IH [OF t(2) this] t show ?case by (auto simp: bindC_def retC_def)
qed

text \<open>
  The line between the two flags is transparent: every byte that \<open>hdlc_encode\<close> emits
  between the opening and the closing flag is either the escape byte or a byte that is neither
  a flag, an XON or XOFF nor the special byte \<open>0xf8\<close>, and the frame has at least six and at
  most \<open>2 n + 6\<close> bytes for a payload of \<open>n\<close>.
\<close>

theorem hdlc_encode_transparent:
  assumes "hdlc_inv s" "length bs \<le> 125"
  shows "\<exists>t body. hdlc_encode bs s = Ret (True, kFlagSequence # body @ [kFlagSequence]) t \<and>
    (\<forall>c \<in> set body. c = kEscapeSequence \<or>
       c \<noteq> kFlagXOn \<and> c \<noteq> kFlagXOff \<and> c \<noteq> kFlagSequence \<and> c \<noteq> kFlagSpecial) \<and>
    length bs + 2 \<le> length body \<and> length body \<le> 2 * length bs + 4"
proof -
  let ?body = "concat (map stuff (bs @ fcs_trailer bs))"
  have "hdlc_encode bs s = Ret (True, kFlagSequence # ?body @ [kFlagSequence])
      (enc_set (hdlc_frame bs) (s\<lparr>mEncFcs := fcs_of bs XOR 0xffff\<rparr>))"
    using hdlc_encode_safe [OF _ assms(2), of s] assms(1)
    by (simp add: hdlc_inv_def hdlc_frame_def del: map_append concat_append)
  moreover have "\<forall>c \<in> set ?body. c = kEscapeSequence \<or>
      c \<noteq> kFlagXOn \<and> c \<noteq> kFlagXOff \<and> c \<noteq> kFlagSequence \<and> c \<noteq> kFlagSpecial"
    using stuffed_plain [of _ "bs @ fcs_trailer bs"] unfolding HdlcByteNeedsEscape_def by blast
  moreover have "length bs + 2 \<le> length ?body"
    using length_stuffed_ge [of "bs @ fcs_trailer bs"] by simp
  moreover have "length ?body \<le> 2 * length bs + 4"
    using length_stuffed [of "bs @ fcs_trailer bs"] by simp
  ultimately show ?thesis by blast
qed

theorem hdlc_encode_transparent_witness:
  "\<exists>t body. hdlc_encode [0x11, 0x7e] hdlc_init = Ret (True, kFlagSequence # body @ [kFlagSequence]) t \<and>
    (\<forall>c \<in> set body. c = kEscapeSequence \<or>
       c \<noteq> kFlagXOn \<and> c \<noteq> kFlagXOff \<and> c \<noteq> kFlagSequence \<and> c \<noteq> kFlagSpecial) \<and>
    length [0x11, 0x7e::u8] + 2 \<le> length body \<and> length body \<le> 2 * length [0x11, 0x7e::u8] + 4"
  by (rule hdlc_encode_transparent [OF hdlc_inv_init]) simp

text \<open>
  C33: The length check of \<open>hdlc_encode\<close> accepts payloads of 126 bytes, and one of them makes
  the encoder write past the end of its 256-byte buffer: a byte of its check sequence needs an
  escape, which the check does not count.
\<close>

theorem hdlc_encode_overflow:
  assumes "hdlc_inv s"
  shows "length overflow_payload = 126 \<and> hdlc_encode overflow_payload s = Fault"
proof -
  have len: "length overflow_payload = 126" by (simp add: overflow_payload_def)
  have "length (hdlc_frame overflow_payload) = 257"
    by (simp add: hdlc_frame_def fcs_trailer_def fcs_of_overflow_payload Let_def)
      (simp add: overflow_payload_def stuff_def HdlcByteNeedsEscape_def hdlc_consts replicate_step)
  with len assms show ?thesis by (simp add: hdlc_encode_spec hdlc_inv_def)
qed

theorem hdlc_encode_overflow_witness:
  "hdlc_encode overflow_payload hdlc_init = Fault"
  using hdlc_encode_overflow [OF hdlc_inv_init] by simp

text \<open>
  Up to the end of a frame it does not matter how the serial line cuts the byte stream: decoding
  a chunk and then the next one is the same as decoding both at once when the first completes no
  frame. When it does complete one, what follows in the same chunk is dropped.
\<close>

lemma hdlc_decode_chunks:
  fixes s :: "'z hdlc_globals_scheme"
  shows "hdlc_decode (xs @ ys) ret s =
    bindC (hdlc_decode xs ret) (\<lambda>(n, r). if r = HDLD_DECODE_COMPLETE then retC (n, r) else hdlc_decode ys ret) s"
proof -
  define c where "c = (hdlc_decode ys HDLD_DECODE_PENDING :: 'z hdlc_globals_scheme \<Rightarrow> _)"
  have c: "hdlc_decode ys r = c" for r
    unfolding c_def using hdlc_decode_ret_irrelevant by blast
  have "hdlc_decode (xs @ ys) ret s =
      bindC (hdlc_decode xs ret) (\<lambda>(n, r). if r = HDLD_DECODE_COMPLETE then retC (n, r) else c) s"
  proof (induction xs arbitrary: ret s)
    case Nil
    show ?case by (simp add: bindC_def c)
  next
    case (Cons b bs)
    show ?case by (cases "mState s") (auto simp: Cons.IH bindC_def retC_def split: outcome.splits)
  qed
  then show ?thesis unfolding c .
qed

text \<open>
  C32: The decoder's room only shrinks: starting from power-up, a sequence of frames is
  delivered as long as the payloads sum up to at most 254 bytes, and then the next frame is
  delivered exactly when its payload still fits into what is left; a reset gives nothing back.
\<close>

theorem hdlc_room_never_restored:
  assumes "sum_list (map length ps) + 2 \<le> 256"
  shows "\<exists>t. receive_all ps hdlc_init = Ret (map delivered ps) t \<and> hdlc_inv t \<and>
    (\<forall>p. \<exists>u n r. receive (hdlc_frame p) t = Ret (n, r) u \<and>
       (r = HDLD_DECODE_COMPLETE \<longleftrightarrow> sum_list (map length ps) + length p + 2 \<le> 256))"
proof -
  have room: "unat (remainingLen hdlc_init) = 256" by (simp add: hdlc_init_def)
  with receive_all_delivers [OF hdlc_inv_init, of ps] assms
  obtain t where t: "receive_all ps hdlc_init = Ret (map delivered ps) t" "hdlc_inv t"
      "unat (remainingLen t) = 256 - sum_list (map length ps)" by auto
  have "\<exists>u n r. receive (hdlc_frame p) t = Ret (n, r) u \<and>
      (r = HDLD_DECODE_COMPLETE \<longleftrightarrow> sum_list (map length ps) + length p + 2 \<le> 256)" for p
    using receive_frame [OF t(2), of p] assms unfolding t(3) by (fastforce split: if_splits)
  with t show ?thesis by blast
qed

theorem hdlc_room_never_restored_witness:
  "\<exists>t u n r. receive_all (replicate 7 (replicate 34 0)) hdlc_init = Ret (replicate 7 (34, HDLD_DECODE_COMPLETE)) t \<and>
    receive (hdlc_frame (replicate 34 0)) t = Ret (n, r) u \<and> r \<noteq> HDLD_DECODE_COMPLETE"
proof -
  have "sum_list (map length (replicate 7 (replicate 34 (0::u8)))) + 2 \<le> 256" by (simp add: sum_list_replicate)
  from hdlc_room_never_restored [OF this] obtain t where
      t: "receive_all (replicate 7 (replicate 34 0)) hdlc_init = Ret (replicate 7 (delivered (replicate 34 0))) t"
    and all: "\<forall>p. \<exists>u n r. receive (hdlc_frame p) t = Ret (n, r) u \<and>
       (r = HDLD_DECODE_COMPLETE \<longleftrightarrow> 238 + length p + 2 \<le> 256)" by (auto simp: sum_list_replicate)
  have "\<exists>u n r. receive (hdlc_frame (replicate 34 0)) t = Ret (n, r) u \<and> r \<noteq> HDLD_DECODE_COMPLETE"
    using spec [OF all, of "replicate 34 0"] by simp
  moreover have "delivered (replicate 34 0) = (34, HDLD_DECODE_COMPLETE)" by (simp add: delivered_def)
  ultimately show ?thesis using t by auto
qed

end
