(* ===== verification/Clib.thy ===== *)
theory Clib
  imports Prelude
begin

text \<open>
  The parts of the C library that the tools use: the answers of system calls, character classes,
  string search, \<open>strtoul\<close> and \<open>fgets\<close>, and the bounded formatting of trace lines. A C string is the
  list of its characters without the terminating null byte.
\<close>

section \<open>Answers of system calls\<close>

text \<open>On Linux \<open>EWOULDBLOCK\<close> is \<open>EAGAIN\<close>.\<close>

datatype errno = EAGAIN | EINTR | EBADF | EOTHER nat

datatype write_ans = WrDone nat | WrErr errno

datatype read_ans = RdData bytes | RdErr errno

section \<open>Strings\<close>

definition cstr :: "string \<Rightarrow> string" where
  "cstr s = takeWhile (\<lambda>c. c \<noteq> CHR 0x00) s"

definition isspace :: "char \<Rightarrow> bool" where
  "isspace c \<longleftrightarrow> c \<in> {CHR '' '', CHR 0x09, CHR 0x0A, CHR 0x0B, CHR 0x0C, CHR 0x0D}"

fun strstr :: "string \<Rightarrow> string \<Rightarrow> string option" where
  "strstr hay needle =
     (if take (length needle) hay = needle then Some hay
      else (case hay of [] \<Rightarrow> None | c # cs \<Rightarrow> strstr cs needle))"

declare strstr.simps [simp del]

lemma strstr_Some:
  "strstr hay needle = Some s \<Longrightarrow> \<exists>pre suf. hay = pre @ s \<and> s = needle @ suf"
proof (induction hay)
  case Nil
  then show ?case by (auto simp: strstr.simps split: if_splits)
next
  case (Cons c cs)
  show ?case
  proof (cases "take (length needle) (c # cs) = needle")
    case True
    then have "c # cs = needle @ drop (length needle) (c # cs)" by (metis append_take_drop_id)
    moreover have "s = c # cs" using Cons.prems True by (simp add: strstr.simps)
    ultimately show ?thesis by (metis append_Nil)
  next
    case False
    then have "strstr cs needle = Some s" using Cons.prems by (simp add: strstr.simps)
    from Cons.IH [OF this] show ?thesis by (metis append_Cons)
  qed
qed

lemma strstr_None: "strstr (pre @ needle @ suf) needle \<noteq> None"
proof (induction pre)
  case (Cons c pre)
  then show ?case by (subst strstr.simps) simp
qed (simp add: strstr.simps)

lemma strstr_iff: "strstr hay needle \<noteq> None \<longleftrightarrow> (\<exists>pre suf. hay = pre @ needle @ suf)"
  using strstr_Some strstr_None by fastforce

section \<open>Numbers\<close>

definition digit_val :: "char \<Rightarrow> nat option" where
  "digit_val c =
     (let n = of_char c :: nat in if 48 \<le> n \<and> n \<le> 57 then Some (n - 48) else None)"

fun digits_val :: "nat \<Rightarrow> string \<Rightarrow> nat" where
  "digits_val acc [] = acc"
| "digits_val acc (c # cs) =
     (case digit_val c of None \<Rightarrow> acc | Some d \<Rightarrow> digits_val (acc * 10 + d) cs)"

text \<open>\<open>strtoul(s, NULL, 10)\<close> on a machine with 64-bit \<open>unsigned long\<close>.\<close>

definition strtoul10 :: "string \<Rightarrow> u64" where
  "strtoul10 s =
     (let t = dropWhile isspace s;
          neg = (take 1 t = ''-'');
          u = (if take 1 t = ''-'' \<or> take 1 t = ''+'' then drop 1 t else t);
          v = digits_val 0 u
      in if 2 ^ 64 \<le> v then - 1 else if neg then - of_nat v else of_nat v)"

section \<open>Reading lines\<close>

text \<open>
  \<open>fgets_line n inp\<close>: what \<open>fgets\<close> with room for \<open>n\<close> characters takes from the rest of a
  file, and what it leaves.
\<close>

fun fgets_line :: "nat \<Rightarrow> string \<Rightarrow> string \<times> string" where
  "fgets_line 0 inp = ([], inp)"
| "fgets_line (Suc n) [] = ([], [])"
| "fgets_line (Suc n) (c # inp) =
     (if c = CHR 0x0A then ([c], inp)
      else (let (l, rest) = fgets_line n inp in (c # l, rest)))"

lemma fgets_line_append: "fgets_line n inp = (l, rest) \<Longrightarrow> inp = l @ rest"
  by (induction n inp arbitrary: l rule: fgets_line.induct) (auto split: if_splits prod.splits)

lemma fgets_line_shorter:
  "0 < n \<Longrightarrow> inp \<noteq> [] \<Longrightarrow> length (snd (fgets_line n inp)) < length inp"
proof (cases n)
  case (Suc m)
  assume "inp \<noteq> []"
  then obtain c cs where inp: "inp = c # cs" by (cases inp) auto
  obtain l r where lr: "fgets_line m cs = (l, r)" by fastforce
  from fgets_line_append [OF lr] have "length r \<le> length cs" by simp
  with lr inp Suc show ?thesis by simp
qed simp

lemma length_fgets_line: "length (fst (fgets_line n inp)) \<le> n"
  by (induction n inp rule: fgets_line.induct) (auto split: prod.splits)

section \<open>Trace lines\<close>

text \<open>
  The tool renders byte buffers for its log by
  \<^verbatim>\<open>n = snprintf(&s[count], sizeof(s) - 1 - count, " %02x ", b); count += n;\<close>
  for each byte. The size argument is unsigned: once \<open>count\<close> reaches \<open>sizeof(s)\<close> it wraps to
  a huge number and the next call writes its four characters and the terminator out of bounds.
  \<open>trace_fits cap count n\<close> says that rendering \<open>n\<close> bytes from position \<open>count\<close> of a buffer of
  \<open>cap\<close> bytes stays inside it.
\<close>

definition snprintf_size :: "nat \<Rightarrow> nat \<Rightarrow> nat" where
  "snprintf_size cap count = (if count < cap then cap - 1 - count else 2 ^ 64 + cap - 1 - count)"

fun trace_fits :: "nat \<Rightarrow> nat \<Rightarrow> nat \<Rightarrow> bool" where
  "trace_fits cap count 0 = True"
| "trace_fits cap count (Suc n) =
     (count + min 5 (snprintf_size cap count) \<le> cap \<and> trace_fits cap (count + 4) n)"

lemma trace_fits_iff:
  "0 < cap \<Longrightarrow> count + 4 * n < 2 ^ 63 \<Longrightarrow>
   trace_fits cap count n \<longleftrightarrow> n = 0 \<or> count + 4 * (n - 1) < cap"
proof (induction n arbitrary: count)
  case (Suc n)
  show ?case
  proof (cases "count < cap")
    case True
    then have "count + min 5 (snprintf_size cap count) \<le> cap" unfolding snprintf_size_def by arith
    moreover have "trace_fits cap (count + 4) n \<longleftrightarrow> n = 0 \<or> count + 4 + 4 * (n - 1) < cap"
      using Suc.prems by (intro Suc.IH) simp_all
    ultimately show ?thesis using True by (cases n) (simp_all add: algebra_simps)
  next
    case False
    with Suc.prems have "5 \<le> snprintf_size cap count" by (simp add: snprintf_size_def)
    with False show ?thesis by simp
  qed
qed simp

definition trace_hex :: "nat \<Rightarrow> nat \<Rightarrow> nat \<Rightarrow> ('s, unit) cmd" where
  "trace_hex cap count n = (if trace_fits cap count n then retC () else faultC)"

lemma trace_hex_eq:
  "0 < cap \<Longrightarrow> count + 4 * n < 2 ^ 63 \<Longrightarrow>
   trace_hex cap count n = (if n = 0 \<or> count + 4 * (n - 1) < cap then retC () else faultC)"
  by (simp add: trace_hex_def trace_fits_iff)

lemma trace_hex_triple:
  "(f \<or> trace_fits cap count n) \<Longrightarrow> gtriple f P (trace_hex cap count n) (\<lambda>_. P) E"
  by (auto simp: trace_hex_def gtriple_def retC_def faultC_def)

end
