(* ===== verification/Tty.thy ===== *)
theory Tty
  imports Hdlc Clib
begin

text \<open>
  The serial line of the RCP tool: \<^verbatim>\<open>ttydevice.c\<close>. The operating system is a script of answers,
  one queue per kind of system call (\<open>os_env\<close>); a call whose queue is empty never returns
  (\<open>Blocked\<close>). The calls also record what they did: the bytes sent to the device, the attributes
  set on the line, the descriptors that are open, the timeouts given to \<open>select\<close>.
\<close>

section \<open>The environment\<close>

text \<open>\<open>SelReady d e\<close>: a positive result, with the data descriptor set resp. the error set marked.\<close>

datatype select_ans = SelReady bool bool | SelTimeout | SelErr errno

text \<open>What a path names: a file with its content, or something \<open>read\<close> fails on (a directory).\<close>

datatype unode = Regular bytes | Unreadable

datatype cflag = CS8 | HUPCL | CREAD | CLOCAL | PARENB | PARODD | CSTOPB | CRTSCTS

record termios =
  c_raw :: bool
  c_cflag :: "cflag set"
  c_speed :: nat

record os_env =
  q_clock :: "(u64 \<times> u64) option list"
  q_select :: "select_ans list"
  q_write :: "write_ans list"
  q_read :: "read_ans list"
  q_open :: "nat option list"
  q_ioctl :: "int list"
  q_access :: "bool list"
  files :: "string \<Rightarrow> unode option"
  text_files :: "string \<Rightarrow> string option"
  dirs :: "string \<Rightarrow> string list option"
  line_out :: bytes
  line_attr :: termios
  open_fds :: "int list"
  open_streams :: nat
  sel_log :: "(u64 \<times> u64) list"
  sleep_log :: "nat list"

section \<open>Data\<close>

datatype T_EXEC_RESULT = NO_ERR | ERR_TIMEOUT | ERR_DISCONN | ERR_UNEXPECTED | ERR_UNKNOWN

definition DEVICE_NODE_PATH_LEAN_MAX :: nat where "DEVICE_NODE_PATH_LEAN_MAX = 48"
definition kMaxWaitTime :: u64 where "kMaxWaitTime = 2000"
definition kMaxFrameSize :: nat where "kMaxFrameSize = 512"

record CfuTTYDeviceConfiguration =
  device_node :: string
  baudrate :: u32
  parity :: string
  flowctl :: int
  stopbit :: u32

record tty_globals = hdlc_globals +
  env :: os_env
  ttydevice :: CfuTTYDeviceConfiguration
  ttyfd :: int
  RcpConfigBin :: string

definition ttydevice_default :: CfuTTYDeviceConfiguration where
  "ttydevice_default = \<lparr>device_node = ''/dev/ttyUSB0'', baudrate = 921600, parity = ''none'',
     flowctl = 0, stopbit = 1\<rparr>"

text \<open>The globals of the tool at its start, in an environment that answers nothing.\<close>

definition os_idle :: os_env where
  "os_idle = \<lparr>q_clock = [], q_select = [], q_write = [], q_read = [], q_open = [], q_ioctl = [], q_access = [],
     files = (\<lambda>_. None), text_files = (\<lambda>_. None), dirs = (\<lambda>_. None), line_out = [],
     line_attr = \<lparr>c_raw = False, c_cflag = {}, c_speed = 0\<rparr>, open_fds = [], open_streams = 0,
     sel_log = [], sleep_log = []\<rparr>"

definition tty_init :: "os_env \<Rightarrow> tty_globals" where
  "tty_init e = hdlc_globals.extend hdlc_init (tty_globals.fields e ttydevice_default (- 1) [])"

lemma tty_init_simps [simp]:
  "env (tty_init e) = e" "ttydevice (tty_init e) = ttydevice_default" "ttyfd (tty_init e) = - 1"
  "RcpConfigBin (tty_init e) = []"
  by (simp_all add: tty_init_def hdlc_globals.extend_def tty_globals.fields_def hdlc_init_def)

section \<open>System calls\<close>

abbreviation upd_env :: "(os_env \<Rightarrow> os_env) \<Rightarrow> ('z tty_globals_scheme, unit) cmd" where
  "upd_env f \<equiv> modifyC (\<lambda>s. s\<lparr>env := f (env s)\<rparr>)"

definition os_clock_gettime :: "('z tty_globals_scheme, (u64 \<times> u64) option) cmd" where
  "os_clock_gettime s = (case q_clock (env s) of
     [] \<Rightarrow> Blocked s
   | a # as \<Rightarrow> Ret a (s\<lparr>env := env s\<lparr>q_clock := as\<rparr>\<rparr>))"

text \<open>\<open>FD_SET\<close> on a negative descriptor, or one beyond the set, is undefined.\<close>

definition os_select :: "u64 \<times> u64 \<Rightarrow> ('z tty_globals_scheme, select_ans) cmd" where
  "os_select timeout s =
     (if ttyfd s < 0 \<or> 1024 \<le> ttyfd s then Fault
      else (case q_select (env s) of
          [] \<Rightarrow> Blocked s
        | a # as \<Rightarrow> Ret a (s\<lparr>env := env s\<lparr>q_select := as, sel_log := sel_log (env s) @ [timeout]\<rparr>\<rparr>)))"

definition os_write :: "bytes \<Rightarrow> ('z tty_globals_scheme, write_ans) cmd" where
  "os_write buf s =
     (if ttyfd s < 0 then Ret (WrErr EBADF) s
      else (case q_write (env s) of
          [] \<Rightarrow> Blocked s
        | WrErr e # as \<Rightarrow> Ret (WrErr e) (s\<lparr>env := env s\<lparr>q_write := as\<rparr>\<rparr>)
        | WrDone n # as \<Rightarrow> Ret (WrDone (min n (length buf)))
            (s\<lparr>env := env s\<lparr>q_write := as, line_out := line_out (env s) @ take n buf\<rparr>\<rparr>)))"

definition os_read :: "nat \<Rightarrow> ('z tty_globals_scheme, read_ans) cmd" where
  "os_read cap s =
     (if ttyfd s < 0 then Ret (RdErr EBADF) s
      else (case q_read (env s) of
          [] \<Rightarrow> Blocked s
        | RdErr e # as \<Rightarrow> Ret (RdErr e) (s\<lparr>env := env s\<lparr>q_read := as\<rparr>\<rparr>)
        | RdData bs # as \<Rightarrow> Ret (RdData (take cap bs)) (s\<lparr>env := env s\<lparr>q_read := as\<rparr>\<rparr>)))"

definition os_open_tty :: "('z tty_globals_scheme, int) cmd" where
  "os_open_tty s = (case q_open (env s) of
     [] \<Rightarrow> Blocked s
   | None # as \<Rightarrow> Ret (- 1) (s\<lparr>env := env s\<lparr>q_open := as\<rparr>\<rparr>)
   | Some fd # as \<Rightarrow> Ret (int fd)
       (s\<lparr>env := env s\<lparr>q_open := as, open_fds := int fd # open_fds (env s)\<rparr>\<rparr>))"

definition os_close :: "int \<Rightarrow> ('z tty_globals_scheme, unit) cmd" where
  "os_close fd = upd_env (\<lambda>e. e\<lparr>open_fds := remove1 fd (open_fds e)\<rparr>)"

text \<open>The return values of \<open>isatty\<close>, \<open>tcflush\<close>, \<open>tcgetattr\<close>, \<open>tcsetattr\<close> and \<open>cfsetspeed\<close>.\<close>

definition os_ioctl :: "('z tty_globals_scheme, int) cmd" where
  "os_ioctl s = (case q_ioctl (env s) of
     [] \<Rightarrow> Blocked s
   | a # as \<Rightarrow> Ret a (s\<lparr>env := env s\<lparr>q_ioctl := as\<rparr>\<rparr>))"

definition os_tcsetattr :: "termios \<Rightarrow> ('z tty_globals_scheme, int) cmd" where
  "os_tcsetattr tios = bindC os_ioctl (\<lambda>rval.
     if rval = 0 then bindC (upd_env (\<lambda>e. e\<lparr>line_attr := tios\<rparr>)) (\<lambda>_. retC rval) else retC rval)"

definition os_access :: "string \<Rightarrow> ('z tty_globals_scheme, bool) cmd" where
  "os_access path s = (case q_access (env s) of
     [] \<Rightarrow> Blocked s
   | a # as \<Rightarrow> Ret a (s\<lparr>env := env s\<lparr>q_access := as\<rparr>\<rparr>))"

definition os_usleep :: "nat \<Rightarrow> ('z tty_globals_scheme, unit) cmd" where
  "os_usleep us = upd_env (\<lambda>e. e\<lparr>sleep_log := sleep_log e @ [us]\<rparr>)"

lemmas os_defs = os_clock_gettime_def os_select_def os_write_def os_read_def os_open_tty_def os_close_def
  os_ioctl_def os_tcsetattr_def os_access_def os_usleep_def

section \<open>Configuration of the line\<close>

text \<open>The trailing white space goes from the end, but never the first character.\<close>

fun trim_end :: "string \<Rightarrow> nat \<Rightarrow> nat" where
  "trim_end str 0 = 0"
| "trim_end str (Suc i) = (if isspace (str ! Suc i) then trim_end str i else Suc i)"

definition trim :: "string \<Rightarrow> string" where
  "trim str =
     (let str = dropWhile isspace str
      in if str = [] then str else take (trim_end str (length str - 1) + 1) str)"

definition ttyGetDeviceName :: "'z tty_globals_scheme \<Rightarrow> u16 \<Rightarrow> (string \<times> u16) option" where
  "ttyGetDeviceName s len =
     (let n = length (device_node (ttydevice s)) + 1
      in if unat len < n then None else Some (device_node (ttydevice s), of_nat n))"

definition ttydevice_baud_set :: "u32 \<Rightarrow> ('z tty_globals_scheme, bool) cmd" where
  "ttydevice_baud_set b =
     bindC (modifyC (\<lambda>s. s\<lparr>ttydevice := ttydevice s\<lparr>baudrate := b\<rparr>\<rparr>)) (\<lambda>_. retC True)"

definition ttydevice_flowctl_set :: "bool \<Rightarrow> ('z tty_globals_scheme, bool) cmd" where
  "ttydevice_flowctl_set enable =
     bindC (modifyC (\<lambda>s. s\<lparr>ttydevice := ttydevice s\<lparr>flowctl := of_bool enable\<rparr>\<rparr>)) (\<lambda>_. retC True)"

text \<open>
  One line of the file: the new configuration, or \<open>None\<close> where the function returns false.
  The check in front of the copy of the device name is on the length of the tag, as in the
  source; the copy itself faults when the value does not fit its 48 bytes.
\<close>

definition parse_line ::
  "string \<Rightarrow> CfuTTYDeviceConfiguration \<Rightarrow> ('z tty_globals_scheme, CfuTTYDeviceConfiguration option) cmd" where
  "parse_line line tmp =
     (let line_ptr = trim line
      in if line_ptr = [] \<or> take 1 line_ptr = ''#'' then retC (Some tmp)
      else if CHR ''='' \<notin> set line_ptr then retC None
      else (let tag = trim (takeWhile (\<lambda>c. c \<noteq> CHR ''='') line_ptr);
                value = trim (drop 1 (dropWhile (\<lambda>c. c \<noteq> CHR ''='') line_ptr))
        in if tag = ''device''
           then (if length tag + 1 \<le> DEVICE_NODE_PATH_LEAN_MAX
                 then (if length value + 1 \<le> DEVICE_NODE_PATH_LEAN_MAX
                       then retC (Some (tmp\<lparr>device_node := value\<rparr>)) else faultC)
                 else retC None)
           else if tag = ''baudrate'' then retC (Some (tmp\<lparr>baudrate := ucast (strtoul10 value)\<rparr>))
           else if tag = ''parity''
           then (if value = ''odd'' \<or> value = ''even'' \<or> value = ''none''
                 then retC (Some (tmp\<lparr>parity := value\<rparr>)) else retC None)
           else if tag = ''flowctl''
           then (if value = ''enable'' then retC (Some (tmp\<lparr>flowctl := 1\<rparr>))
                 else if value = ''disable'' then retC (Some (tmp\<lparr>flowctl := 0\<rparr>))
                 else retC None)
           else if tag = ''stopbit''
           then (if value = ''1'' \<or> value = ''2''
                 then retC (Some (tmp\<lparr>stopbit := ucast (strtoul10 value)\<rparr>)) else retC None)
           else if tag = ''ConfigBin''
           then (if length value + 1 \<le> 512
                 then bindC (modifyC (\<lambda>s. s\<lparr>RcpConfigBin := value\<rparr>)) (\<lambda>_. retC (Some tmp))
                 else faultC)
           else retC (Some tmp)))"

function parse_lines ::
  "string \<Rightarrow> CfuTTYDeviceConfiguration \<Rightarrow> ('z tty_globals_scheme, CfuTTYDeviceConfiguration option) cmd" where
  "parse_lines inp tmp =
     (if inp = [] then retC (Some tmp)
      else bindC (parse_line (cstr (fst (fgets_line 511 inp))) tmp) (\<lambda>r. case r of
          None \<Rightarrow> retC None
        | Some tmp \<Rightarrow> parse_lines (snd (fgets_line 511 inp)) tmp))"
  by pat_completeness auto
termination
  by (relation "measure (\<lambda>(inp, tmp). length inp)") (simp_all add: fgets_line_shorter)

declare parse_lines.simps [simp del]

definition parse_device_config :: "string option \<Rightarrow> ('z tty_globals_scheme, bool) cmd" where
  "parse_device_config configPath = (case configPath of
     None \<Rightarrow> retC False
   | Some path \<Rightarrow>
       bindC (getsC (\<lambda>s. text_files (env s) path)) (\<lambda>fconfig. case fconfig of
         None \<Rightarrow> retC False
       | Some inp \<Rightarrow>
           bindC (upd_env (\<lambda>e. e\<lparr>open_streams := open_streams e + 1\<rparr>)) (\<lambda>_.
           bindC (getsC ttydevice) (\<lambda>tmp.
           bindC (parse_lines inp tmp) (\<lambda>r. case r of
             None \<Rightarrow> retC False
           | Some tmp \<Rightarrow>
               bindC (modifyC (\<lambda>s. s\<lparr>ttydevice := tmp\<rparr>)) (\<lambda>_.
               bindC (upd_env (\<lambda>e. e\<lparr>open_streams := open_streams e - 1\<rparr>)) (\<lambda>_.
               retC True)))))))"

section \<open>Opening and closing the device\<close>

definition tty_speeds :: "u32 list" where
  "tty_speeds = [9600, 19200, 38400, 57600, 115200, 230400, 460800, 500000, 576000, 921600,
     1000000, 1152000, 1500000, 2000000, 2500000, 3000000, 3500000, 4000000]"

definition line_cflag :: "CfuTTYDeviceConfiguration \<Rightarrow> cflag set" where
  "line_cflag dev =
     (let base = {CS8, HUPCL, CREAD, CLOCAL};
          par = (if take 3 (parity dev) = ''odd'' then insert PARODD (insert PARENB base)
                 else if take 4 (parity dev) = ''even'' then insert PARENB base
                 else base - {PARENB});
          stp = (if stopbit dev = 2 then insert CSTOPB par else par - {CSTOPB})
      in if flowctl dev = 1 then insert CRTSCTS stp else stp - {CRTSCTS})"

text \<open>
  The configuration of an open terminal, up to the label \<open>exit\<close>: the result is \<open>rval\<close>. The
  speed bits are part of \<open>c_cflag\<close>, so that assigning it leaves speed 0 until \<open>cfsetspeed\<close>.
\<close>

definition line_setup :: "('z tty_globals_scheme, int) cmd" where
  "line_setup =
     bindC os_ioctl (\<lambda>rval. if rval \<noteq> 0 then retC rval else
     bindC os_ioctl (\<lambda>rval. if rval \<noteq> 0 then retC rval else
     bindC (getsC ttydevice) (\<lambda>dev.
       if stopbit dev \<noteq> 1 \<and> stopbit dev \<noteq> 2 then exitC 2
       else if baudrate dev \<notin> set tty_speeds then exitC 2
       else (let tios = \<lparr>c_raw = True, c_cflag = line_cflag dev, c_speed = 0\<rparr>
         in bindC (os_tcsetattr tios) (\<lambda>rval. if rval \<noteq> 0 then retC rval else
            bindC os_ioctl (\<lambda>rval. if rval \<noteq> 0 then retC rval else
            bindC (os_tcsetattr (tios\<lparr>c_speed := unat (baudrate dev)\<rparr>)) (\<lambda>rval. if rval \<noteq> 0 then retC rval else
            os_ioctl)))))))"

definition device_open :: "('z tty_globals_scheme, int) cmd" where
  "device_open =
     bindC os_open_tty (\<lambda>fd. if fd = - 1 then retC (- 1) else
     bindC os_ioctl (\<lambda>tty.
     bindC (if tty \<noteq> 0 then line_setup else retC 0) (\<lambda>rval.
       if rval \<noteq> 0
       then bindC (os_close fd) (\<lambda>_.
            bindC (modifyC (\<lambda>s. s\<lparr>ttyfd := - 1\<rparr>)) (\<lambda>_. retC (- 1)))
       else bindC (modifyC (\<lambda>s. s\<lparr>ttyfd := fd\<rparr>)) (\<lambda>_. retC fd))))"

definition device_close :: "('z tty_globals_scheme, unit) cmd" where
  "device_close = bindC (getsC ttyfd) (\<lambda>fd. bindC (os_close fd) (\<lambda>_. modifyC (\<lambda>s. s\<lparr>ttyfd := - 1\<rparr>)))"

definition rtkrcp_usb_interface_check :: "'z tty_globals_scheme \<Rightarrow> bool" where
  "rtkrcp_usb_interface_check s \<longleftrightarrow>
     strstr (device_node (ttydevice s)) ''ttyACM'' \<noteq> None \<or>
     strstr (device_node (ttydevice s)) ''ttyRTKRCP'' \<noteq> None"

section \<open>Reading and writing\<close>

definition PlatTimeGet :: "('z tty_globals_scheme, u64) cmd" where
  "PlatTimeGet = bindC os_clock_gettime (\<lambda>now. case now of
     None \<Rightarrow> exitC 1
   | Some (tv_sec, tv_nsec) \<Rightarrow> retC (tv_sec * 1000000 + tv_nsec div 1000))"

definition timeval :: "u64 \<Rightarrow> u64 \<times> u64" where
  "timeval us = (us div 1000000, us mod 1000000)"

text \<open>
  The loops around \<open>select\<close> recurse over the answers it has left: every turn consumes one, and
  with none left \<open>select\<close> does not return.
\<close>

fun wait_writable ::
  "u64 \<Rightarrow> u64 \<times> u64 \<Rightarrow> select_ans list \<Rightarrow> ('z tty_globals_scheme, T_EXEC_RESULT) cmd" where
  "wait_writable end_us timeout [] = bindC (os_select timeout) (\<lambda>_. Blocked)"
| "wait_writable end_us timeout (_ # q) =
     bindC (os_select timeout) (\<lambda>rval. case rval of
       SelReady w e \<Rightarrow> retC (if w then NO_ERR else if e then ERR_DISCONN else ERR_UNKNOWN)
     | _ \<Rightarrow>
         (if rval \<noteq> SelTimeout \<and> rval \<noteq> SelErr EINTR then retC ERR_UNEXPECTED
          else bindC PlatTimeGet (\<lambda>now.
            if now < end_us then wait_writable end_us (timeval (end_us - now)) q
            else retC ERR_TIMEOUT)))"

definition ttyWaitForWritable :: "('z tty_globals_scheme, T_EXEC_RESULT) cmd" where
  "ttyWaitForWritable =
     bindC PlatTimeGet (\<lambda>now.
     bindC (getsC (\<lambda>s. q_select (env s))) (\<lambda>q.
       wait_writable (now + kMaxWaitTime * 1000)
         (kMaxWaitTime div 1000, (kMaxWaitTime mod 1000) * 1000) q))"

text \<open>The loop of \<open>ttyWrite\<close> recurses over the answers \<open>write\<close> has left.\<close>

fun write_loop :: "bytes \<Rightarrow> write_ans list \<Rightarrow> ('z tty_globals_scheme, T_EXEC_RESULT) cmd" where
  "write_loop aFrame q =
     (if aFrame = [] then retC NO_ERR
      else bindC (os_write aFrame) (\<lambda>rval.
        let rest = (\<lambda>aFrame.
              bindC ttyWaitForWritable (\<lambda>error.
                if error \<noteq> NO_ERR then retC error
                else (case q of [] \<Rightarrow> Blocked | _ # q \<Rightarrow> write_loop aFrame q)))
        in case rval of
          WrDone n \<Rightarrow> if n = length aFrame then retC NO_ERR else rest (drop n aFrame)
        | WrErr e \<Rightarrow> if e \<noteq> EAGAIN \<and> e \<noteq> EINTR then retC ERR_UNEXPECTED else rest aFrame))"

declare write_loop.simps [simp del]

definition ttyWrite :: "bytes \<Rightarrow> ('z tty_globals_scheme, T_EXEC_RESULT) cmd" where
  "ttyWrite aFrame =
     bindC (trace_hex 2048 0 (length aFrame)) (\<lambda>_.
     bindC (getsC (\<lambda>s. q_write (env s))) (\<lambda>q. write_loop aFrame q))"

type_synonym 's handler = "bytes \<Rightarrow> ('s, bool) cmd"

definition ttyRead :: "'z tty_globals_scheme handler \<Rightarrow> ('z tty_globals_scheme, bool) cmd" where
  "ttyRead handler =
     bindC (os_read kMaxFrameSize) (\<lambda>rval. case rval of
       RdData buffer \<Rightarrow>
         (if buffer \<noteq> []
          then bindC (trace_hex 2048 0 (length buffer)) (\<lambda>_. handler buffer)
          else retC False)
     | RdErr e \<Rightarrow> retC False)"

fun wait_frame ::
  "u64 \<Rightarrow> u64 \<times> u64 \<Rightarrow> 'z tty_globals_scheme handler \<Rightarrow> select_ans list \<Rightarrow>
   ('z tty_globals_scheme, T_EXEC_RESULT) cmd" where
  "wait_frame end_us timeout handler [] = bindC (os_select timeout) (\<lambda>_. Blocked)"
| "wait_frame end_us timeout handler (_ # q) =
     (let next = bindC PlatTimeGet (\<lambda>now.
            if now < end_us then wait_frame end_us (timeval (end_us - now)) handler q
            else retC ERR_TIMEOUT)
      in bindC (os_select timeout) (\<lambda>rval. case rval of
           SelReady r e \<Rightarrow>
             (if r then bindC (ttyRead handler) (\<lambda>ok. if ok then retC NO_ERR else next)
              else retC (if e then ERR_DISCONN else ERR_UNKNOWN))
         | _ \<Rightarrow>
             (if rval \<noteq> SelTimeout \<and> rval \<noteq> SelErr EINTR then retC ERR_UNEXPECTED else next)))"

definition ttyWaitForFrame ::
  "u64 \<Rightarrow> 'z tty_globals_scheme handler \<Rightarrow> ('z tty_globals_scheme, T_EXEC_RESULT) cmd" where
  "ttyWaitForFrame aTimeoutUs handler =
     bindC PlatTimeGet (\<lambda>now.
     bindC (getsC (\<lambda>s. q_select (env s))) (\<lambda>q.
       wait_frame (now + aTimeoutUs) (timeval aTimeoutUs) handler q))"

section \<open>Trimming and the configuration file\<close>

lemma trim_end_le: "trim_end str i \<le> i"
  by (induction i) auto

lemma trim_end_space: "trim_end str i < j \<Longrightarrow> j \<le> i \<Longrightarrow> isspace (str ! j)"
proof (induction i)
  case (Suc i)
  then show ?case by (cases "j = Suc i") (auto split: if_splits)
qed simp

lemma trim_end_nonspace: "trim_end str i = 0 \<or> \<not> isspace (str ! trim_end str i)"
  by (induction i) auto

lemma trim_parts:
  "\<exists>a b. str = a @ trim str @ b \<and> (\<forall>c \<in> set a. isspace c) \<and> (\<forall>c \<in> set b. isspace c)"
proof -
  define u where "u = dropWhile isspace str"
  have str: "str = takeWhile isspace str @ u" by (simp add: u_def)
  have sp: "\<forall>c \<in> set (takeWhile isspace str). isspace c" by (auto dest: set_takeWhileD)
  show ?thesis
  proof (cases "u = []")
    case True
    then have "trim str = []" by (simp add: trim_def Let_def u_def)
    moreover have "str = takeWhile isspace str" using str True by simp
    ultimately show ?thesis using sp by (metis append.right_neutral empty_iff empty_set)
  next
    case False
    let ?k = "trim_end u (length u - 1) + 1"
    have t: "trim str = take ?k u" using False by (simp add: trim_def Let_def u_def [symmetric])
    have "isspace c" if "c \<in> set (drop ?k u)" for c
    proof -
      from that obtain j where "j < length u - ?k" "c = u ! (?k + j)" by (auto simp: in_set_conv_nth)
      then show ?thesis using trim_end_space [of u "length u - 1" "?k + j"] by auto
    qed
    moreover have "str = takeWhile isspace str @ trim str @ drop ?k u" using str t by simp
    ultimately show ?thesis using sp by blast
  qed
qed

lemma trim_ends:
  assumes "trim str \<noteq> []"
  shows "\<not> isspace (hd (trim str)) \<and> \<not> isspace (last (trim str))"
proof -
  define u where "u = dropWhile isspace str"
  have u: "u \<noteq> []" using assms by (auto simp: trim_def Let_def u_def [symmetric])
  let ?k = "trim_end u (length u - 1)"
  have t: "trim str = take (?k + 1) u" using u by (simp add: trim_def Let_def u_def [symmetric])
  have k: "?k < length u" using trim_end_le [of u "length u - 1"] u by (cases u) auto
  have hd: "\<not> isspace (hd u)" using u hd_dropWhile unfolding u_def by blast
  have "last (trim str) = u ! ?k" using t k by (simp add: take_Suc_conv_app_nth)
  moreover have "hd (trim str) = hd u" using t u by (simp add: hd_take)
  ultimately show ?thesis using hd trim_end_nonspace [of u "length u - 1"] u by (auto simp: hd_conv_nth)
qed

text \<open>
  \<open>trim\<close> removes exactly the white space around a string: the string is its result with
  white space on both sides, and the result neither starts nor ends with white space.
\<close>

theorem trim_correct:
  "(\<exists>a b. str = a @ trim str @ b \<and> filter isspace a = a \<and> filter isspace b = b) \<and>
   (case trim str of [] \<Rightarrow> True | c # cs \<Rightarrow> \<not> isspace c \<and> \<not> isspace (last (c # cs)))"
  using trim_parts [of str] trim_ends [of str] by (auto simp: filter_id_conv split: list.split)

text \<open>A well-formed configuration of the line: one that \<open>device_open\<close> accepts apart from the speed.\<close>

definition dev_wf :: "CfuTTYDeviceConfiguration \<Rightarrow> bool" where
  "dev_wf dev \<longleftrightarrow> length (device_node dev) < 48 \<and> parity dev \<in> {''odd'', ''even'', ''none''} \<and>
     flowctl dev \<in> {0, 1} \<and> stopbit dev \<in> {1, 2}"

lemma dev_wf_default: "dev_wf ttydevice_default"
  by (simp add: dev_wf_def ttydevice_default_def)

lemma strtoul10_stopbit: "strtoul10 ''1'' = 1" "strtoul10 ''2'' = 2"
  by (simp_all add: strtoul10_def isspace_def digit_val_def Let_def)

definition config_rest :: "'z tty_globals_scheme \<Rightarrow> 'z tty_globals_scheme" where
  "config_rest s = s\<lparr>RcpConfigBin := []\<rparr>"

lemma parse_line_triple:
  "dev_wf tmp \<Longrightarrow>
   wtriple (\<lambda>s. config_rest s = x) (parse_line line tmp)
     (\<lambda>r s. config_rest s = x \<and> pred_option dev_wf r) (\<lambda>_. False)"
  by (auto simp: parse_line_def Let_def gtriple_def cmd_defs config_rest_def dev_wf_def strtoul10_stopbit
      DEVICE_NODE_PATH_LEAN_MAX_def)

lemma parse_lines_triple:
  "dev_wf tmp \<Longrightarrow>
   wtriple (\<lambda>s. config_rest s = x) (parse_lines inp tmp)
     (\<lambda>r s. config_rest s = x \<and> pred_option dev_wf r) (\<lambda>_. False)"
proof (induction inp tmp rule: parse_lines.induct)
  case (1 inp tmp)
  show ?case
  proof (cases "inp = []")
    case True
    with "1.prems" show ?thesis by (subst parse_lines.simps) (auto intro: triple_rules)
  next
    case False
    have "wtriple (\<lambda>s. config_rest s = x \<and> pred_option dev_wf r)
        (case r of None \<Rightarrow> retC None | Some tmp \<Rightarrow> parse_lines (snd (fgets_line 511 inp)) tmp)
        (\<lambda>r s. config_rest s = x \<and> pred_option dev_wf r) (\<lambda>_. False)" for r
    proof (cases r)
      case None
      then show ?thesis by (auto intro: triple_rules)
    next
      case (Some d)
      show ?thesis
      proof (cases "dev_wf d")
        case True
        with "1.IH" [OF False] Some show ?thesis by (auto elim: triple_pre)
      next
        case no: False
        with Some show ?thesis by (auto simp: gtriple_def)
      qed
    qed
    with False show ?thesis
      by (subst parse_lines.simps) (auto intro!: triple_bindC parse_line_triple "1.prems")
  qed
qed

lemma config_rest_eqD: "config_rest u = config_rest s \<Longrightarrow> \<exists>b. u = s\<lparr>RcpConfigBin := b\<rparr>"
proof -
  assume "config_rest u = config_rest s"
  then have "config_rest u\<lparr>RcpConfigBin := RcpConfigBin u\<rparr> = config_rest s\<lparr>RcpConfigBin := RcpConfigBin u\<rparr>"
    by simp
  then show ?thesis by (auto simp: config_rest_def)
qed

text \<open>
  C37: Reading the configuration file is all or nothing for the line: unless a copy overflows,
  the function returns, a returned false leaves the configuration of the line as it was, a
  returned true leaves a well-formed one, and nothing else of the state changes but the path of
  the RCP configuration and the number of open streams. A file that does not parse stays open.
\<close>

theorem parse_device_config_atomic:
  assumes "dev_wf (ttydevice s)" "parse_device_config path s \<noteq> Fault"
  shows "\<exists>ok t. parse_device_config path s = Ret ok t \<and> dev_wf (ttydevice t) \<and>
    (ok \<or> ttydevice t = ttydevice s) \<and>
    config_rest (t\<lparr>ttydevice := ttydevice s, env := env s\<rparr>) = config_rest s \<and>
    env t = env s\<lparr>open_streams := open_streams (env s) +
      (if ok \<or> path = None \<or> text_files (env s) (the path) = None then 0 else 1)\<rparr>"
proof (cases "path = None \<or> text_files (env s) (the path) = None")
  case True
  then have "parse_device_config path s = Ret False s"
    by (auto simp: parse_device_config_def cmd_defs split: option.splits)
  with True assms(1) show ?thesis by auto
next
  case False
  then obtain p inp where p: "path = Some p" "text_files (env s) p = Some inp" by auto
  define s1 where "s1 = s\<lparr>env := env s\<lparr>open_streams := open_streams (env s) + 1\<rparr>\<rparr>"
  have t: "case parse_lines inp (ttydevice s) s1 of
      Ret r u \<Rightarrow> config_rest u = config_rest s1 \<and> pred_option dev_wf r
    | Exit n u \<Rightarrow> False | Blocked u \<Rightarrow> False | Fault \<Rightarrow> True"
    using tripleD [OF parse_lines_triple [OF assms(1)]] by fastforce
  have run: "parse_device_config path s = bindC (parse_lines inp (ttydevice s)) (\<lambda>r. case r of
      None \<Rightarrow> retC False
    | Some tmp \<Rightarrow> bindC (modifyC (\<lambda>s. s\<lparr>ttydevice := tmp\<rparr>)) (\<lambda>_.
        bindC (upd_env (\<lambda>e. e\<lparr>open_streams := open_streams e - 1\<rparr>)) (\<lambda>_. retC True))) s1"
    using p by (simp add: parse_device_config_def bindC_def getsC_def modifyC_def s1_def del: One_nat_def)
  with assms(2) t obtain r u where u: "parse_lines inp (ttydevice s) s1 = Ret r u"
      "config_rest u = config_rest s1" "pred_option dev_wf r"
    by (auto simp: bindC_def split: outcome.splits)
  obtain b where b: "u = s1\<lparr>RcpConfigBin := b\<rparr>" using config_rest_eqD [OF u(2)] by blast
  show ?thesis
  proof (cases r)
    case None
    then have "parse_device_config path s = Ret False u" using run u(1) by (simp add: bindC_def retC_def)
    then show ?thesis using assms(1) p by (intro exI [of _ False]) (simp add: b s1_def config_rest_def)
  next
    case (Some d)
    then have "parse_device_config path s = Ret True
        (u\<lparr>ttydevice := d, env := env u\<lparr>open_streams := open_streams (env u) - 1\<rparr>\<rparr>)"
      using run u(1) by (simp add: cmd_defs)
    then show ?thesis using u(3) Some p by (intro exI [of _ True]) (simp add: b s1_def config_rest_def)
  qed
qed

theorem parse_device_config_atomic_witness:
  "\<exists>ok t. parse_device_config (Some ''c.txt'') (tty_init (os_idle\<lparr>text_files := [''c.txt'' \<mapsto> ''x'']\<rparr>)) = Ret ok t \<and>
    \<not> ok \<and> ttydevice t = ttydevice_default \<and> open_streams (env t) = 1"
proof -
  let ?s = "tty_init (os_idle\<lparr>text_files := [''c.txt'' \<mapsto> ''x'']\<rparr>)"
  have x: "fgets_line 511 ''x'' = (''x'', [])" "trim ''x'' = ''x''"
    by (simp_all add: numeral_eq_Suc trim_def isspace_def)
  have run: "\<exists>t. parse_device_config (Some ''c.txt'') ?s = Ret False t"
    by (simp add: parse_device_config_def cmd_defs, subst parse_lines.simps)
      (simp add: x parse_line_def cstr_def cmd_defs)
  then have "parse_device_config (Some ''c.txt'') ?s \<noteq> Fault" by auto
  from parse_device_config_atomic [OF _ this] run show ?thesis
    by (auto simp: dev_wf_default os_idle_def)
qed

lemma trim_end_spaces:
  "length s \<le> i + 1 \<Longrightarrow> i < length (s @ ws) \<Longrightarrow> s \<noteq> [] \<Longrightarrow> \<not> isspace (last s) \<Longrightarrow>
   (\<forall>c \<in> set ws. isspace c) \<Longrightarrow> trim_end (s @ ws) i = length s - 1"
proof (induction i)
  case (Suc i)
  show ?case
  proof (cases "length s = Suc i + 1")
    case True
    then have "(s @ ws) ! Suc i = last s" using Suc.prems by (simp add: nth_append last_conv_nth)
    with True Suc.prems show ?thesis by simp
  next
    case False
    then have "isspace ((s @ ws) ! Suc i)" using Suc.prems by (simp add: nth_append)
    with False Suc show ?thesis by simp
  qed
qed (simp add: Suc_le_eq)

lemma trim_word:
  assumes "s \<noteq> []" "\<not> isspace (hd s)" "\<not> isspace (last s)" "\<forall>c \<in> set ws. isspace c"
  shows "trim (s @ ws) = s"
proof -
  have d: "dropWhile isspace (s @ ws) = s @ ws" using assms(1,2) by (cases s) auto
  have "trim_end (s @ ws) (length (s @ ws) - 1) = length s - 1"
    using assms by (intro trim_end_spaces) (auto simp: Suc_le_eq)
  then have "trim (s @ ws) = take (length s - 1 + 1) (s @ ws)"
    unfolding trim_def d Let_def using assms(1) by simp
  then show ?thesis using assms(1) by (simp add: Suc_leI)
qed

lemma fgets_line_eol:
  "CHR 0x0A \<notin> set l \<Longrightarrow> length l < n \<Longrightarrow> fgets_line n (l @ CHR 0x0A # rest) = (l @ [CHR 0x0A], rest)"
proof (induction l arbitrary: n)
  case Nil
  then show ?case by (cases n) auto
next
  case (Cons c l)
  then show ?case by (cases n) auto
qed

lemma isspace_sample [simp]:
  "isspace (CHR 0x0A)" "\<not> isspace (CHR ''d'')" "\<not> isspace (CHR ''e'')"
  by (simp_all add: isspace_def)

text \<open>
  C38: A device name of 48 or more characters overflows the configuration structure: the check
  in front of the copy looks at the length of the tag instead of the length of the value.
\<close>

theorem parse_device_config_overflow:
  fixes s :: "'z tty_globals_scheme"
  assumes "text_files (env s) path = Some (''device='' @ v @ CHR 0x0A # rest)"
    and "\<forall>c \<in> set v. \<not> isspace c \<and> c \<noteq> CHR 0x00" "48 \<le> length v" "length v < 500"
  shows "parse_device_config (Some path) s = Fault"
proof -
  define l where "l = ''device='' @ v"
  have "CHR 0x0A \<notin> set v" "CHR 0x00 \<notin> set v" using assms(2) isspace_sample(1) by blast+
  then have nl: "CHR 0x0A \<notin> set l" "CHR 0x00 \<notin> set l" by (simp_all add: l_def)
  have "v \<noteq> []" using assms(3) by force
  then have v: "v \<noteq> []" "\<not> isspace (hd v)" "\<not> isspace (last v)" using assms(2) by simp_all
  then have l: "l \<noteq> []" "\<not> isspace (hd l)" "\<not> isspace (last l)" "take 1 l \<noteq> ''#''" "CHR ''='' \<in> set l"
      "takeWhile (\<lambda>c. c \<noteq> CHR ''='') l = ''device''" "drop 1 (dropWhile (\<lambda>c. c \<noteq> CHR ''='') l) = v" "length l < 511"
    using assms(4) by (simp_all add: l_def)
  have line: "fgets_line 511 (l @ CHR 0x0A # rest) = (l @ [CHR 0x0A], rest)"
    using fgets_line_eol [OF nl(1) l(8)] .
  have c: "cstr (l @ [CHR 0x0A]) = l @ [CHR 0x0A]"
    using nl(2) unfolding cstr_def by (subst takeWhile_eq_all_conv) auto
  have t: "trim (l @ [CHR 0x0A]) = l" "trim ''device'' = ''device''" "trim v = v"
    using trim_word [OF l(1-3), of "[CHR 0x0A]"] trim_word [of "''device''" "[]"] trim_word [OF v, of "[]"] by simp_all
  have "parse_line (l @ [CHR 0x0A]) tmp u = Fault" for tmp and u :: "'z tty_globals_scheme"
    using l assms(3) by (simp add: parse_line_def t Let_def DEVICE_NODE_PATH_LEAN_MAX_def faultC_def)
  then have "parse_lines (l @ CHR 0x0A # rest) tmp u = Fault" for tmp and u :: "'z tty_globals_scheme"
    using l(1) by (subst parse_lines.simps) (simp add: line c bindC_def)
  then show ?thesis
    using assms(1) by (simp add: parse_device_config_def bindC_def getsC_def modifyC_def l_def)
qed

theorem parse_device_config_overflow_witness:
  "parse_device_config (Some ''c.txt'') (tty_init
     (os_idle\<lparr>text_files := [''c.txt'' \<mapsto> ''device='' @ replicate 60 (CHR ''d'') @ CHR 0x0A # []]\<rparr>)) = Fault"
  by (rule parse_device_config_overflow [where v = "replicate 60 (CHR ''d'')" and rest = "[]"]) simp_all

section \<open>Descriptors\<close>

text \<open>The attributes that a configuration asks for.\<close>

definition line_termios :: "CfuTTYDeviceConfiguration \<Rightarrow> termios" where
  "line_termios dev = \<lparr>c_raw = True, c_cflag = line_cflag dev, c_speed = unat (baudrate dev)\<rparr>"

definition dev_supported :: "CfuTTYDeviceConfiguration \<Rightarrow> bool" where
  "dev_supported dev \<longleftrightarrow> stopbit dev \<in> {1, 2} \<and> baudrate dev \<in> set tty_speeds"

text \<open>What opening the device leaves alone.\<close>

definition open_rest :: "'z tty_globals_scheme \<Rightarrow> 'z tty_globals_scheme" where
  "open_rest s = s\<lparr>ttyfd := 0, env := env s\<lparr>q_open := [], q_ioctl := [], open_fds := [],
     line_attr := \<lparr>c_raw = False, c_cflag = {}, c_speed = 0\<rparr>\<rparr>\<rparr>"

definition fds :: "'z tty_globals_scheme \<Rightarrow> int list" where
  "fds s = open_fds (env s)"

lemma line_setup_spec:
  "case line_setup s of
     Ret r t \<Rightarrow> open_rest t = open_rest s \<and> fds t = fds s \<and> ttyfd t = ttyfd s \<and>
       (r = 0 \<longrightarrow> line_attr (env t) = line_termios (ttydevice s) \<and> dev_supported (ttydevice s))
   | Exit n t \<Rightarrow> n = 2 \<and> \<not> dev_supported (ttydevice s) \<and> open_rest t = open_rest s
   | Blocked t \<Rightarrow> True
   | Fault \<Rightarrow> False"
  by (auto simp: line_setup_def os_tcsetattr_def os_ioctl_def cmd_defs open_rest_def fds_def Let_def
      line_termios_def dev_supported_def split: list.splits)

lemma open_rest_upd [simp]:
  "open_rest (s\<lparr>ttyfd := fd\<rparr>) = open_rest s"
  "open_rest (s\<lparr>env := env s\<lparr>q_open := qo\<rparr>\<rparr>) = open_rest s"
  "open_rest (s\<lparr>env := env s\<lparr>q_ioctl := qi\<rparr>\<rparr>) = open_rest s"
  "open_rest (s\<lparr>env := env s\<lparr>open_fds := os\<rparr>\<rparr>) = open_rest s"
  "open_rest (s\<lparr>env := env s\<lparr>q_open := qo, open_fds := os\<rparr>\<rparr>) = open_rest s"
  by (simp_all add: open_rest_def)

lemma open_rest_device: "open_rest t = open_rest s \<Longrightarrow> ttydevice t = ttydevice s"
  unfolding open_rest_def by (drule arg_cong [where f = ttydevice]) simp

text \<open>
  \<open>device_open\<close> in one formula: the descriptor it returns is the one in \<open>ttyfd\<close> and has been
  added to the open ones, and a failure leaves no descriptor open; a terminal then has the
  attributes of the configuration. It ends the program exactly with the status 2, on a
  configuration without support.
\<close>

lemma device_open_spec:
  "case device_open s of
     Ret fd t \<Rightarrow> open_rest t = open_rest s \<and>
       (if fd = - 1 then fds t = fds s \<and> (ttyfd t = - 1 \<or> ttyfd t = ttyfd s)
        else 0 \<le> fd \<and> ttyfd t = fd \<and> fds t = fd # fds s \<and>
          (q_ioctl (env s) = [] \<or> hd (q_ioctl (env s)) = 0 \<or>
             line_attr (env t) = line_termios (ttydevice s) \<and> dev_supported (ttydevice s)))
   | Exit n t \<Rightarrow> n = 2 \<and> \<not> dev_supported (ttydevice s) \<and> open_rest t = open_rest s
   | Blocked t \<Rightarrow> True
   | Fault \<Rightarrow> False"
proof (cases "os_open_tty s")
  case (Ret fd s1)
  show ?thesis
  proof (cases "fd = - 1 \<or> q_ioctl (env s) = []")
    case True
    with Ret show ?thesis
      by (auto simp: device_open_def os_open_tty_def os_ioctl_def cmd_defs fds_def
          split: list.splits option.splits)
  next
    case False
    with Ret obtain a as where q: "q_ioctl (env s) = a # as" "fd \<noteq> - 1" "0 \<le> fd" "fds s1 = fd # fds s"
        "open_rest s1 = open_rest s" "q_ioctl (env s1) = a # as" "ttyfd s1 = ttyfd s"
      by (auto simp: os_open_tty_def fds_def neq_Nil_conv split: list.splits option.splits)
    define s2 where "s2 = s1\<lparr>env := env s1\<lparr>q_ioctl := as\<rparr>\<rparr>"
    have s2: "fds s2 = fd # fds s" "open_rest s2 = open_rest s" "ttydevice s2 = ttydevice s" "ttyfd s2 = ttyfd s"
      using q open_rest_device [OF q(5)] by (simp_all add: s2_def fds_def)
    have run: "device_open s = bindC (if a \<noteq> 0 then line_setup else retC 0) (\<lambda>rval.
        if rval \<noteq> 0 then bindC (os_close fd) (\<lambda>_. bindC (modifyC (\<lambda>s. s\<lparr>ttyfd := - 1\<rparr>)) (\<lambda>_. retC (- 1)))
        else bindC (modifyC (\<lambda>s. s\<lparr>ttyfd := fd\<rparr>)) (\<lambda>_. retC fd)) s2"
      using Ret q by (simp add: device_open_def os_ioctl_def bindC_def s2_def)
    show ?thesis
    proof (cases "a = 0")
      case True
      with run s2 q show ?thesis by (simp add: cmd_defs fds_def)
    next
      case False
      with line_setup_spec [of s2] run s2 q show ?thesis
        by (auto simp: cmd_defs fds_def os_close_def split: outcome.splits)
    qed
  qed
qed (auto simp: device_open_def os_open_tty_def bindC_def split: list.splits option.splits)

lemma device_close_spec:
  "device_close s = Ret () (s\<lparr>ttyfd := - 1, env := env s\<lparr>open_fds := remove1 (ttyfd s) (open_fds (env s))\<rparr>\<rparr>)"
  by (simp add: device_close_def os_close_def cmd_defs)

text \<open>
  C36: Opening and closing the device balance: after a successful \<open>device_open\<close>, \<open>device_close\<close>
  restores the open descriptors of before and leaves no current one; a failed \<open>device_open\<close> leaves
  none behind.
\<close>

theorem device_open_close_balanced:
  assumes "device_open s = Ret fd t"
  shows "if fd = - 1 then open_fds (env t) = open_fds (env s)
    else ttyfd t = fd \<and> open_fds (env t) = fd # open_fds (env s) \<and>
      (\<exists>u. device_close t = Ret () u \<and> open_fds (env u) = open_fds (env s) \<and> ttyfd u = - 1)"
  using device_open_spec [of s] assms by (auto simp: device_close_spec fds_def split: if_splits)

theorem device_open_close_balanced_witness:
  "\<exists>t u. device_open (tty_init (os_idle\<lparr>q_open := [Some 3], q_ioctl := [1, 0, 0, 0, 0, 0, 0]\<rparr>)) = Ret 3 t \<and>
    device_close t = Ret () u \<and> open_fds (env u) = [] \<and> ttyfd u = - 1"
proof -
  let ?s = "tty_init (os_idle\<lparr>q_open := [Some 3], q_ioctl := [1, 0, 0, 0, 0, 0, 0]\<rparr>)"
  have "\<exists>t. device_open ?s = Ret 3 t"
    by (simp add: device_open_def line_setup_def os_defs cmd_defs ttydevice_default_def tty_speeds_def Let_def)
  then obtain t where t: "device_open ?s = Ret 3 t" ..
  from device_open_close_balanced [OF t] t show ?thesis by (auto simp: os_idle_def)
qed



section \<open>Reading and writing: frames\<close>

text \<open>
  The contract between the line and its clients, as a step order: consuming an answer of the
  clock, of \<open>select\<close>, \<open>read\<close> or \<open>write\<close> is a step. Then every operation of the line is one,
  whatever the handler, as long as the handler is.
\<close>

locale write_order = step_order R for R :: "'z tty_globals_scheme \<Rightarrow> 'z tty_globals_scheme \<Rightarrow> bool" +
  assumes clock_step: "q_clock (env s) = c # cs \<Longrightarrow> R s (s\<lparr>env := env s\<lparr>q_clock := cs\<rparr>\<rparr>)"
    and select_step: "q_select (env s) = a # as \<Longrightarrow>
      R s (s\<lparr>env := env s\<lparr>q_select := as, sel_log := sel_log (env s) @ [timeout]\<rparr>\<rparr>)"
    and write_step: "q_write (env s) = w # ws \<Longrightarrow> R s (s\<lparr>env := env s\<lparr>q_write := ws, line_out := l\<rparr>\<rparr>)"
begin

lemma write_step': "q_write (env s) = w # ws \<Longrightarrow> R s (s\<lparr>env := env s\<lparr>q_write := ws\<rparr>\<rparr>)"
  using write_step [of s w ws "line_out (env s)"] by simp

lemma os_write_steps: "steps R os_clock_gettime" "steps R (os_select timeout)" "steps R (os_write buf)"
  by (auto simp: steps_def os_defs refl intro: clock_step select_step write_step write_step'
      split: list.splits write_ans.splits)

lemma PlatTimeGet_steps: "steps R PlatTimeGet"
  unfolding PlatTimeGet_def by (intro steps_rules os_write_steps)

lemma wait_writable_steps: "steps R (wait_writable end_us timeout q)"
proof (induction end_us timeout q rule: wait_writable.induct)
  case (1 end_us timeout)
  show ?case unfolding wait_writable.simps by (intro steps_rules os_write_steps)
next
  case (2 end_us timeout v q)
  have "steps R (case a of
       SelReady w e \<Rightarrow> retC (if w then NO_ERR else if e then ERR_DISCONN else ERR_UNKNOWN)
     | _ \<Rightarrow> (if a \<noteq> SelTimeout \<and> a \<noteq> SelErr EINTR then retC ERR_UNEXPECTED
          else bindC PlatTimeGet (\<lambda>now. if now < end_us then wait_writable end_us (timeval (end_us - now)) q
            else retC ERR_TIMEOUT)))" for a
    by (cases a) (auto intro!: steps_rules PlatTimeGet_steps "2.IH")
  then show ?case unfolding wait_writable.simps by (intro steps_rules os_write_steps)
qed

lemma ttyWaitForWritable_steps: "steps R ttyWaitForWritable"
  unfolding ttyWaitForWritable_def by (intro steps_rules PlatTimeGet_steps wait_writable_steps)

lemma write_loop_steps: "steps R (write_loop aFrame q)"
proof (induction q arbitrary: aFrame)
  case Nil
  show ?case
    by (subst write_loop.simps)
      (auto simp: Let_def intro!: steps_rules os_write_steps ttyWaitForWritable_steps split: write_ans.split)
next
  case (Cons a q)
  then show ?case
    by (subst write_loop.simps)
      (auto simp: Let_def intro!: steps_rules os_write_steps ttyWaitForWritable_steps split: write_ans.split)
qed

lemma trace_hex_steps: "steps R (trace_hex cap count n)"
  by (auto simp: trace_hex_def intro: steps_rules)

lemma ttyWrite_steps: "steps R (ttyWrite aFrame)"
  unfolding ttyWrite_def by (intro steps_rules trace_hex_steps write_loop_steps)

end

locale line_order = write_order R for R :: "'z tty_globals_scheme \<Rightarrow> 'z tty_globals_scheme \<Rightarrow> bool" +
  assumes read_step: "q_read (env s) = r # rs \<Longrightarrow> R s (s\<lparr>env := env s\<lparr>q_read := rs\<rparr>\<rparr>)"
begin

lemma os_read_steps: "steps R (os_read n)"
  by (auto simp: steps_def os_defs refl intro: read_step split: list.splits read_ans.splits)

lemmas os_steps = os_write_steps os_read_steps

lemma ttyRead_steps: "(\<And>bs. steps R (h bs)) \<Longrightarrow> steps R (ttyRead h)"
  unfolding ttyRead_def
  by (auto intro!: steps_rules os_steps trace_hex_steps split: read_ans.split)

lemma wait_frame_steps:
  assumes h: "\<And>bs. steps R (h bs)"
  shows "steps R (wait_frame end_us timeout h q)"
proof (induction q arbitrary: timeout)
  case Nil
  show ?case unfolding wait_frame.simps by (intro steps_rules os_steps)
next
  case (Cons a q)
  show ?case unfolding wait_frame.simps Let_def
    by (auto intro!: steps_rules os_steps ttyRead_steps [OF h] PlatTimeGet_steps Cons.IH split: select_ans.split)
qed

lemma ttyWaitForFrame_steps: "(\<And>bs. steps R (h bs)) \<Longrightarrow> steps R (ttyWaitForFrame t h)"
  unfolding ttyWaitForFrame_def by (intro steps_rules PlatTimeGet_steps wait_frame_steps)

end

text \<open>Everything but the line's own traffic: writing changes none of it.\<close>

definition line_rest :: "'z tty_globals_scheme \<Rightarrow> 'z tty_globals_scheme" where
  "line_rest s = s\<lparr>env := env s\<lparr>q_clock := [], q_select := [], q_write := [], q_read := [],
     line_out := [], sel_log := []\<rparr>\<rparr>"

lemma line_rest_upd [simp]:
  "line_rest (s\<lparr>env := env s\<lparr>q_clock := a\<rparr>\<rparr>) = line_rest s"
  "line_rest (s\<lparr>env := env s\<lparr>q_select := b, sel_log := c\<rparr>\<rparr>) = line_rest s"
  "line_rest (s\<lparr>env := env s\<lparr>q_write := d, line_out := e\<rparr>\<rparr>) = line_rest s"
  "line_rest (s\<lparr>env := env s\<lparr>q_write := d\<rparr>\<rparr>) = line_rest s"
  "line_rest (s\<lparr>env := env s\<lparr>q_read := g\<rparr>\<rparr>) = line_rest s"
  by (simp_all add: line_rest_def)

interpretation frame: line_order "same line_rest"
  by unfold_locales simp_all

definition unread :: "'z tty_globals_scheme \<Rightarrow> read_ans list \<times> 'z tty_globals_scheme" where
  "unread s = (q_read (env s), line_rest s)"

interpretation unread: write_order "same unread"
  by unfold_locales (simp_all add: unread_def)

text \<open>The answers still to come never get more.\<close>

definition fewer_answers :: "'z tty_globals_scheme \<Rightarrow> 'z tty_globals_scheme \<Rightarrow> bool" where
  "fewer_answers s t \<longleftrightarrow>
     length (q_clock (env t)) \<le> length (q_clock (env s)) \<and> length (q_select (env t)) \<le> length (q_select (env s)) \<and>
     length (q_write (env t)) \<le> length (q_write (env s)) \<and> length (q_read (env t)) \<le> length (q_read (env s))"

interpretation fewer: line_order fewer_answers
  by unfold_locales (auto simp: fewer_answers_def)

text \<open>
  The contract for invariants: a predicate that does not look at the line's queues is kept by
  waiting; with \<open>f\<close> false it also implies a descriptor that \<open>select\<close> accepts, and then there is
  no fault.
\<close>

definition fd_ok :: "'z tty_globals_scheme \<Rightarrow> bool" where
  "fd_ok s \<longleftrightarrow> 0 \<le> ttyfd s \<and> ttyfd s < 1024"

locale line_inv =
  fixes f :: bool and P :: "'z tty_globals_scheme \<Rightarrow> bool"
  assumes clock_inv: "P s \<Longrightarrow> P (s\<lparr>env := env s\<lparr>q_clock := cs\<rparr>\<rparr>)"
    and select_inv: "P s \<Longrightarrow> P (s\<lparr>env := env s\<lparr>q_select := as, sel_log := l\<rparr>\<rparr>)"
    and fd_inv: "P s \<Longrightarrow> \<not> f \<Longrightarrow> fd_ok s"
begin

lemma os_select_triple: "gtriple f P (os_select timeout) (\<lambda>_. P) P"
proof (rule tripleI)
  fix s assume P: "P s"
  show "case os_select timeout s of
      Ret a s' \<Rightarrow> P s' | Exit n s' \<Rightarrow> P s' | Blocked s' \<Rightarrow> P s' | Fault \<Rightarrow> f"
    using P fd_inv [OF P] by (cases f) (auto simp: os_select_def fd_ok_def intro: select_inv split: list.splits)
qed

lemma PlatTimeGet_triple: "gtriple f P PlatTimeGet (\<lambda>_. P) P"
  by (auto simp: gtriple_def PlatTimeGet_def os_clock_gettime_def cmd_defs intro: clock_inv
      split: list.splits option.splits)

lemma blocked_triple: "gtriple f P Blocked Q P"
  by (simp add: gtriple_def)

lemma wait_writable_triple: "gtriple f P (wait_writable end_us timeout q) (\<lambda>_. P) P"
proof (induction q arbitrary: timeout)
  case Nil
  show ?case unfolding wait_writable.simps by (rule triple_bindC [OF os_select_triple blocked_triple])
next
  case (Cons a q)
  have "gtriple f P (bindC PlatTimeGet (\<lambda>now. if now < end_us then wait_writable end_us (timeval (end_us - now)) q
      else retC ERR_TIMEOUT)) (\<lambda>_. P) P"
    by (rule triple_bindC [OF PlatTimeGet_triple]) (simp add: Cons.IH triple_retC)
  then show ?case unfolding wait_writable.simps
    by (intro triple_bindC [OF os_select_triple]) (auto intro: triple_retC split: select_ans.split)
qed

lemma ttyWaitForWritable_triple: "gtriple f P ttyWaitForWritable (\<lambda>_. P) P"
  unfolding ttyWaitForWritable_def
  by (intro triple_bindC [OF PlatTimeGet_triple] triple_gets_bind wait_writable_triple)

end

text \<open>
  The contract of a frame handler: \<open>P\<close> holds while the wait goes on and \<open>P' bs\<close> when the chunk
  \<open>bs\<close> of up to 512 bytes has just been read; called on it, the handler answers true with the
  reply complete (\<open>D\<close>), or false and the wait goes on. Then the wait ends without an error only
  with a complete reply.
\<close>

definition ends :: "bool \<Rightarrow> ('s \<Rightarrow> bool) \<Rightarrow> ('s \<Rightarrow> bool) \<Rightarrow> 's \<Rightarrow> bool" where
  "ends b D P = (if b then D else P)"

lemma ends_simps [simp]: "ends True D P = D" "ends False D P = P"
  by (simp_all add: ends_def)

locale frame_handler = line_inv f P for f :: bool and P :: "'z tty_globals_scheme \<Rightarrow> bool" +
  fixes P' :: "bytes \<Rightarrow> 'z tty_globals_scheme \<Rightarrow> bool" and h :: "'z tty_globals_scheme handler"
    and D :: "'z tty_globals_scheme \<Rightarrow> bool" and E :: "'z tty_globals_scheme \<Rightarrow> bool"
  assumes read_data: "P s \<Longrightarrow> q_read (env s) = RdData bs # rs \<Longrightarrow> bs \<noteq> [] \<Longrightarrow>
      P' (take kMaxFrameSize bs) (s\<lparr>env := env s\<lparr>q_read := rs\<rparr>\<rparr>)"
    and read_none: "P s \<Longrightarrow> q_read (env s) = r # rs \<Longrightarrow> \<forall>bs. r = RdData bs \<longrightarrow> bs = [] \<Longrightarrow>
      P (s\<lparr>env := env s\<lparr>q_read := rs\<rparr>\<rparr>)"
    and handler: "bs \<noteq> [] \<Longrightarrow> length bs \<le> kMaxFrameSize \<Longrightarrow>
      gtriple f (P' bs) (h bs) (\<lambda>r. ends r D P) E"
    and stop: "P s \<Longrightarrow> E s"
begin

lemma stopping: "gtriple f P c Q P \<Longrightarrow> gtriple f P c Q E"
  by (erule triple_conseq) (auto intro: stop)

lemma os_read_triple:
  "gtriple f P (os_read kMaxFrameSize)
     (\<lambda>r s. case r of RdData bs \<Rightarrow> length bs \<le> kMaxFrameSize \<and> (if bs = [] then P s else P' bs s) | RdErr e \<Rightarrow> P s) E"
proof (rule tripleI, goal_cases)
  case (1 s)
  have k: "kMaxFrameSize \<noteq> 0" by (simp add: kMaxFrameSize_def)
  from 1 k show ?case
    by (auto simp: os_read_def intro: read_data read_none stop split: list.splits read_ans.splits)
qed

lemma ttyRead_triple: "gtriple f P (ttyRead h) (\<lambda>r. ends r D P) E"
  unfolding ttyRead_def
proof (rule triple_bindC [OF os_read_triple])
  fix r
  show "gtriple f (\<lambda>s. case r of RdData bs \<Rightarrow> length bs \<le> kMaxFrameSize \<and> (if bs = [] then P s else P' bs s) | RdErr e \<Rightarrow> P s)
      (case r of RdData buffer \<Rightarrow>
         (if buffer \<noteq> [] then bindC (trace_hex 2048 0 (length buffer)) (\<lambda>_. h buffer) else retC False)
       | RdErr e \<Rightarrow> retC False) (\<lambda>r. ends r D P) E"
  proof (cases "\<exists>bs. r = RdData bs \<and> bs \<noteq> [] \<and> length bs \<le> kMaxFrameSize")
    case True
    then obtain bs where bs: "r = RdData bs" "bs \<noteq> []" "length bs \<le> kMaxFrameSize" by blast
    then have "trace_fits 2048 0 (length bs)" by (subst trace_fits_iff) (auto simp: kMaxFrameSize_def)
    then show ?thesis using bs
      by (auto intro!: triple_pre [OF triple_bindC [OF trace_hex_triple handler]])
  next
    case False
    then show ?thesis by (cases r) (auto simp: gtriple_def retC_def)
  qed
qed

lemma wait_frame_triple:
  "gtriple f P (wait_frame end_us timeout h q) (\<lambda>e. ends (e = NO_ERR) D P) E"
proof (induction q arbitrary: timeout)
  case Nil
  show ?case unfolding wait_frame.simps
    by (rule triple_bindC [OF stopping [OF os_select_triple] stopping [OF blocked_triple]])
next
  case (Cons a q)
  have n: "gtriple f P (bindC PlatTimeGet (\<lambda>now. if now < end_us then wait_frame end_us (timeval (end_us - now)) h q
      else retC ERR_TIMEOUT)) (\<lambda>e. ends (e = NO_ERR) D P) E"
    by (rule triple_bindC [OF stopping [OF PlatTimeGet_triple]]) (auto intro: Cons.IH triple_retC)
  have "gtriple f P (bindC (ttyRead h) (\<lambda>ok. if ok then retC NO_ERR else
      bindC PlatTimeGet (\<lambda>now. if now < end_us then wait_frame end_us (timeval (end_us - now)) h q
      else retC ERR_TIMEOUT))) (\<lambda>e. ends (e = NO_ERR) D P) E"
    by (rule triple_bindC [OF ttyRead_triple]) (auto intro!: triple_retC n)
  with n show ?case unfolding wait_frame.simps Let_def
    by (intro triple_bindC [OF stopping [OF os_select_triple]]) (auto intro: triple_retC split: select_ans.split)
qed

lemma ttyWaitForFrame_triple:
  "gtriple f P (ttyWaitForFrame t h) (\<lambda>e. ends (e = NO_ERR) D P) E"
  unfolding ttyWaitForFrame_def
  by (intro triple_bindC [OF stopping [OF PlatTimeGet_triple]] triple_gets_bind wait_frame_triple)

end

section \<open>Properties of the line\<close>

definition sent :: "bytes \<Rightarrow> 'z tty_globals_scheme \<Rightarrow> bool" where
  "sent out s \<longleftrightarrow> fd_ok s \<and> line_out (env s) = out"

interpretation sent: line_inv False "sent out" for out
  by unfold_locales (auto simp: sent_def fd_ok_def)

text \<open>After a call to write \<open>aFrame\<close> on top of \<open>out\<close>: \<open>n\<close> of its bytes are out.\<close>

definition sent_some :: "bytes \<Rightarrow> bytes \<Rightarrow> bool \<Rightarrow> 'z tty_globals_scheme \<Rightarrow> bool" where
  "sent_some out aFrame all s \<longleftrightarrow> (\<exists>n \<le> length aFrame. sent (out @ take n aFrame) s \<and> (all \<longleftrightarrow> n = length aFrame))"

lemma os_write_sent:
  assumes "sent out s"
  shows "case os_write aFrame s of
      Ret (WrDone n) t \<Rightarrow> n \<le> length aFrame \<and> sent (out @ take n aFrame) t
    | Ret (WrErr e) t \<Rightarrow> sent out t
    | Blocked t \<Rightarrow> sent out t
    | Exit k t \<Rightarrow> False
    | Fault \<Rightarrow> False"
  using assms by (auto simp: os_write_def sent_def fd_ok_def min_def split: list.splits write_ans.splits)

lemma sent_some_drop:
  "sent_some (out @ take n aFrame) (drop n aFrame) all s \<Longrightarrow> n \<le> length aFrame \<Longrightarrow> sent_some out aFrame all s"
  unfolding sent_some_def
proof (elim exE conjE)
  fix m assume m: "m \<le> length (drop n aFrame)" "sent ((out @ take n aFrame) @ take m (drop n aFrame)) s"
    "all \<longleftrightarrow> m = length (drop n aFrame)" and n: "n \<le> length aFrame"
  then show "\<exists>k \<le> length aFrame. sent (out @ take k aFrame) s \<and> (all \<longleftrightarrow> k = length aFrame)"
    by (intro exI [of _ "n + m"]) (auto simp: take_add)
qed

lemma sent_some_none: "sent out s \<Longrightarrow> aFrame \<noteq> [] \<Longrightarrow> sent_some out aFrame False s"
  unfolding sent_some_def by (intro exI [of _ 0]) auto

lemma write_rest_triple:
  assumes k: "triple (sent out) k (\<lambda>r. sent_some out aFrame (r = NO_ERR)) (sent_some out aFrame False)"
    and ne: "aFrame \<noteq> []"
  shows "triple (sent out) (bindC ttyWaitForWritable (\<lambda>error. if error \<noteq> NO_ERR then retC error else k))
      (\<lambda>r. sent_some out aFrame (r = NO_ERR)) (sent_some out aFrame False)"
proof (rule triple_bindC)
  show "triple (sent out) ttyWaitForWritable (\<lambda>_. sent out) (sent_some out aFrame False)"
    using ne by (auto intro: triple_conseq [OF sent.ttyWaitForWritable_triple] sent_some_none)
  show "triple (sent out) (if e \<noteq> NO_ERR then retC e else k)
      (\<lambda>r. sent_some out aFrame (r = NO_ERR)) (sent_some out aFrame False)" for e
    using k ne by (auto intro!: triple_retC sent_some_none)
qed

lemma write_step_triple:
  fixes K :: "bytes \<Rightarrow> ('z tty_globals_scheme, T_EXEC_RESULT) cmd"
  assumes K: "\<And>out aFrame. aFrame \<noteq> [] \<Longrightarrow> triple (sent out) (K aFrame)
      (\<lambda>r. sent_some out aFrame (r = NO_ERR)) (sent_some out aFrame False)"
    and ne: "aFrame \<noteq> []"
  shows "triple (sent out) (bindC (os_write aFrame) (\<lambda>rval.
      let rest = (\<lambda>aFrame. bindC ttyWaitForWritable (\<lambda>error. if error \<noteq> NO_ERR then retC error else K aFrame))
      in case rval of
          WrDone n \<Rightarrow> if n = length aFrame then retC NO_ERR else rest (drop n aFrame)
        | WrErr e \<Rightarrow> if e \<noteq> EAGAIN \<and> e \<noteq> EINTR then retC ERR_UNEXPECTED else rest aFrame))
      (\<lambda>r. sent_some out aFrame (r = NO_ERR)) (sent_some out aFrame False)"
proof (rule triple_bindC)
  show "triple (sent out) (os_write aFrame)
      (\<lambda>r s. case r of WrDone n \<Rightarrow> n \<le> length aFrame \<and> sent (out @ take n aFrame) s | WrErr e \<Rightarrow> sent out s)
      (sent_some out aFrame False)"
  proof (rule tripleI, goal_cases)
    case (1 s)
    from os_write_sent [OF 1, of aFrame] sent_some_none [OF _ ne] show ?case
      by (auto split: outcome.splits write_ans.splits)
  qed
next
  fix r
  let ?rest = "\<lambda>aFrame. bindC ttyWaitForWritable (\<lambda>error. if error \<noteq> NO_ERR then retC error else K aFrame)"
  show "triple (\<lambda>s. case r of WrDone n \<Rightarrow> n \<le> length aFrame \<and> sent (out @ take n aFrame) s | WrErr e \<Rightarrow> sent out s)
      (let rest = ?rest in case r of
          WrDone n \<Rightarrow> if n = length aFrame then retC NO_ERR else rest (drop n aFrame)
        | WrErr e \<Rightarrow> if e \<noteq> EAGAIN \<and> e \<noteq> EINTR then retC ERR_UNEXPECTED else rest aFrame)
      (\<lambda>r. sent_some out aFrame (r = NO_ERR)) (sent_some out aFrame False)"
  proof (cases r)
    case (WrErr e)
    then show ?thesis
      using write_rest_triple [OF K [OF ne] ne] ne by (auto simp: Let_def intro!: triple_retC sent_some_none)
  next
    case (WrDone n)
    show ?thesis
    proof (cases "n < length aFrame")
      case True
      then have "drop n aFrame \<noteq> []" by simp
      from write_rest_triple [OF K [OF this] this, of "out @ take n aFrame"] True WrDone show ?thesis
        by (auto simp: Let_def elim!: triple_conseq intro: sent_some_drop)
    next
      case False
      with WrDone show ?thesis by (auto simp: Let_def gtriple_def retC_def sent_some_def)
    qed
  qed
qed

lemma write_loop_triple:
  "triple (sent out) (write_loop aFrame q)
     (\<lambda>r. sent_some out aFrame (r = NO_ERR)) (sent_some out aFrame False)"
proof (induction q arbitrary: out aFrame)
  case Nil
  show ?case
  proof (cases "aFrame = []")
    case False
    have "triple (sent out) Blocked (\<lambda>r. sent_some out aFrame (r = NO_ERR)) (sent_some out aFrame False)"
      if "aFrame \<noteq> []" for out aFrame
      using that by (auto simp: gtriple_def sent_some_none)
    from write_step_triple [OF this False] False show ?thesis
      unfolding write_loop.simps [of aFrame "[]"] list.case by simp
  qed (subst write_loop.simps, simp add: gtriple_def retC_def sent_some_def)
next
  case (Cons a q)
  show ?case
  proof (cases "aFrame = []")
    case False
    from write_step_triple [OF Cons.IH False] False show ?thesis
      unfolding write_loop.simps [of aFrame "a # q"] list.case by simp
  qed (subst write_loop.simps, simp add: gtriple_def retC_def sent_some_def)
qed

lemma ttyWrite_triple:
  assumes "length aFrame \<le> kMaxFrameSize"
  shows "triple (sent out) (ttyWrite aFrame)
     (\<lambda>r. sent_some out aFrame (r = NO_ERR)) (sent_some out aFrame False)"
proof -
  have "trace_fits 2048 0 (length aFrame)"
    using assms by (subst trace_fits_iff) (auto simp: kMaxFrameSize_def)
  then show ?thesis
    unfolding ttyWrite_def
    by (intro triple_bindC [OF trace_hex_triple [OF disjI2]] triple_gets_bind write_loop_triple)
qed

text \<open>
  C14: \<open>ttyWrite\<close> is exact: for a frame of up to 512 bytes and an open descriptor it never
  faults, it returns \<open>NO_ERR\<close> exactly when the device was given the whole frame, in order and
  once, and in every other case (errors, the clock failing, a device that never gets writable)
  the device was given a proper prefix.
\<close>

theorem ttyWrite_exact:
  assumes "0 \<le> ttyfd s" "ttyfd s < 1024" "length aFrame \<le> 512"
  shows "case ttyWrite aFrame s of
      Ret r t \<Rightarrow> \<exists>n \<le> length aFrame. line_out (env t) = line_out (env s) @ take n aFrame \<and>
        (r = NO_ERR \<longleftrightarrow> n = length aFrame)
    | Exit k t \<Rightarrow> \<exists>n < length aFrame. line_out (env t) = line_out (env s) @ take n aFrame
    | Blocked t \<Rightarrow> \<exists>n < length aFrame. line_out (env t) = line_out (env s) @ take n aFrame
    | Fault \<Rightarrow> False"
proof -
  have "sent (line_out (env s)) s" using assms by (simp add: sent_def fd_ok_def)
  moreover have "length aFrame \<le> kMaxFrameSize" using assms by (simp add: kMaxFrameSize_def)
  ultimately show ?thesis
    using tripleD [OF ttyWrite_triple] by (fastforce simp: sent_some_def sent_def nat_less_le split: outcome.splits)
qed

theorem ttyWrite_exact_witness:
  "\<exists>t. ttyWrite [1, 2, 3] (tty_init (os_idle\<lparr>q_clock := [Some (0, 0)], q_select := [SelReady True False],
      q_write := [WrDone 2, WrDone 1]\<rparr>)\<lparr>ttyfd := 3\<rparr>) = Ret NO_ERR t \<and> line_out (env t) = [1, 2, 3]"
proof -
  let ?s = "tty_init (os_idle\<lparr>q_clock := [Some (0, 0)], q_select := [SelReady True False],
      q_write := [WrDone 2, WrDone 1]\<rparr>)\<lparr>ttyfd := 3\<rparr>"
  have "\<exists>t. ttyWrite [1, 2, 3] ?s = Ret NO_ERR t"
    by (simp add: ttyWrite_def trace_hex_eq cmd_defs)
      (simp add: write_loop.simps ttyWaitForWritable_def PlatTimeGet_def os_defs cmd_defs os_idle_def)
  then obtain t where t: "ttyWrite [1, 2, 3] ?s = Ret NO_ERR t" ..
  from ttyWrite_exact [of ?s "[1, 2, 3]"] t show ?thesis by (auto simp: os_idle_def)
qed

subsection \<open>Deadlines\<close>

definition clock_us :: "u64 \<times> u64 \<Rightarrow> u64" where
  "clock_us c = fst c * 1000000 + snd c div 1000"

lemma PlatTimeGet_Some:
  "q_clock (env s) = Some c # cs \<Longrightarrow> PlatTimeGet s = Ret (clock_us c) (s\<lparr>env := env s\<lparr>q_clock := cs\<rparr>\<rparr>)"
  by (cases c) (simp add: PlatTimeGet_def os_clock_gettime_def cmd_defs clock_us_def)

text \<open>Answers of \<open>select\<close> after which the wait goes on.\<close>

definition sel_idle :: "select_ans \<Rightarrow> bool" where
  "sel_idle a \<longleftrightarrow> a = SelTimeout \<or> a = SelErr EINTR"

lemma wait_frame_idle:
  assumes "sel_idle a" "fd_ok s" "q_select (env s) = a # as" "q_clock (env s) = Some c # cs"
  shows "wait_frame end_us timeout h (b # bs) s =
    (if clock_us c < end_us then wait_frame end_us (timeval (end_us - clock_us c)) h bs else retC ERR_TIMEOUT)
      (s\<lparr>env := env s\<lparr>q_select := as, sel_log := sel_log (env s) @ [timeout], q_clock := cs\<rparr>\<rparr>)"
  using assms
  by (auto simp: Let_def bindC_def os_select_def fd_ok_def sel_idle_def PlatTimeGet_Some)

lemma wait_frame_timeout:
  assumes "fd_ok s" "q_select (env s) = waits @ rest_sel" "\<forall>a \<in> set waits. sel_idle a"
    and "q_clock (env s) = map Some cs @ Some c1 # rest_clk" "length waits = length cs + 1"
    and "\<forall>c \<in> set cs. clock_us c < end_us" "end_us \<le> clock_us c1" "length waits \<le> length q"
  shows "\<exists>t. wait_frame end_us timeout h q s = Ret ERR_TIMEOUT t \<and>
    q_select (env t) = rest_sel \<and> q_clock (env t) = rest_clk \<and> line_rest t = line_rest s"
  using assms
proof (induction cs arbitrary: s waits timeout q)
  case Nil
  then obtain a where w: "waits = [a]" by (cases waits) auto
  with Nil.prems obtain b bs where q: "q = b # bs" by (cases q) auto
  from wait_frame_idle [of a s rest_sel c1 rest_clk end_us timeout h b bs] Nil.prems w q show ?case
    by (auto simp: retC_def line_rest_def)
next
  case (Cons c cs)
  then obtain a ws where w: "waits = a # ws" by (cases waits) auto
  with Cons.prems obtain b bs where q: "q = b # bs" by (cases q) auto
  define u where "u = s\<lparr>env := env s\<lparr>q_select := ws @ rest_sel, sel_log := sel_log (env s) @ [timeout],
      q_clock := map Some cs @ Some c1 # rest_clk\<rparr>\<rparr>"
  have run: "wait_frame end_us timeout h q s = wait_frame end_us (timeval (end_us - clock_us c)) h bs u"
    using wait_frame_idle [of a s "ws @ rest_sel" c "map Some cs @ Some c1 # rest_clk" end_us timeout h b bs]
      Cons.prems w q by (simp add: u_def)
  have "line_rest u = line_rest s" by (simp add: u_def line_rest_def)
  moreover have "\<exists>t. wait_frame end_us (timeval (end_us - clock_us c)) h bs u = Ret ERR_TIMEOUT t \<and>
      q_select (env t) = rest_sel \<and> q_clock (env t) = rest_clk \<and> line_rest t = line_rest u"
    using Cons.prems w q by (intro Cons.IH [where waits = ws]) (auto simp: u_def fd_ok_def)
  ultimately show ?case unfolding run by simp
qed

text \<open>
  C34: \<open>ttyWaitForFrame\<close> ends at its deadline: while \<open>select\<close> has nothing to report (it times
  out or is interrupted), the wait returns \<open>ERR_TIMEOUT\<close> at the first clock reading that has
  reached the start plus the timeout, having taken from the environment exactly the answers up
  to there and changed nothing else.
\<close>

theorem ttyWaitForFrame_deadline:
  assumes "0 \<le> ttyfd s" "ttyfd s < 1024"
    and "q_select (env s) = waits @ rest_sel" "\<forall>a \<in> set waits. a = SelTimeout \<or> a = SelErr EINTR"
    and "q_clock (env s) = Some c0 # map Some cs @ Some c1 # rest_clk" "length waits = length cs + 1"
    and "\<forall>c \<in> set cs. clock_us c < clock_us c0 + timeout_us" "clock_us c0 + timeout_us \<le> clock_us c1"
  shows "\<exists>t. ttyWaitForFrame timeout_us h s = Ret ERR_TIMEOUT t \<and>
    q_select (env t) = rest_sel \<and> q_clock (env t) = rest_clk \<and> line_rest t = line_rest s"
proof -
  define u where "u = s\<lparr>env := env s\<lparr>q_clock := map Some cs @ Some c1 # rest_clk\<rparr>\<rparr>"
  have "ttyWaitForFrame timeout_us h s =
      wait_frame (clock_us c0 + timeout_us) (timeval timeout_us) h (q_select (env u)) u"
    using assms(5) by (simp add: ttyWaitForFrame_def bindC_def getsC_def PlatTimeGet_Some u_def)
  moreover have "\<exists>t. wait_frame (clock_us c0 + timeout_us) (timeval timeout_us) h (q_select (env u)) u =
      Ret ERR_TIMEOUT t \<and> q_select (env t) = rest_sel \<and> q_clock (env t) = rest_clk \<and> line_rest t = line_rest u"
    using assms by (intro wait_frame_timeout [where waits = waits]) (auto simp: u_def fd_ok_def sel_idle_def)
  ultimately show ?thesis by (simp add: u_def)
qed

theorem ttyWaitForFrame_deadline_witness:
  "\<exists>t. ttyWaitForFrame 1000000 (\<lambda>_. retC True)
      (tty_init (os_idle\<lparr>q_select := [SelTimeout, SelErr EINTR], q_clock := [Some (5, 0), Some (5, 300000), Some (6, 1000)]\<rparr>)\<lparr>ttyfd := 3\<rparr>)
      = Ret ERR_TIMEOUT t \<and> q_select (env t) = [] \<and> q_clock (env t) = []"
  using ttyWaitForFrame_deadline [of
      "tty_init (os_idle\<lparr>q_select := [SelTimeout, SelErr EINTR], q_clock := [Some (5, 0), Some (5, 300000), Some (6, 1000)]\<rparr>)\<lparr>ttyfd := 3\<rparr>"
      "[SelTimeout, SelErr EINTR]" "[]" "(5, 0)" "[(5, 300000)]" "(6, 1000)" "[]" 1000000 "\<lambda>_. retC True"]
  by (auto simp: clock_us_def)

text \<open>A timeout for \<open>select\<close> that is well formed and not longer than \<open>us\<close> microseconds.\<close>

definition sel_bounded :: "u64 \<Rightarrow> u64 \<times> u64 \<Rightarrow> bool" where
  "sel_bounded us tv \<longleftrightarrow> unat (snd tv) < 1000000 \<and> unat (fst tv) * 1000000 + unat (snd tv) \<le> unat us"

lemma timeval_bounded: "d \<le> us \<Longrightarrow> sel_bounded us (timeval d)"
proof -
  assume "d \<le> us"
  have "unat (d div 1000000) * 1000000 + unat (d mod 1000000) = unat d"
    by (simp add: unat_div unat_mod)
  with \<open>d \<le> us\<close> show ?thesis by (simp add: sel_bounded_def timeval_def word_le_nat_alt unat_mod)
qed

definition sel_inv :: "(u64 \<times> u64) list \<Rightarrow> u64 \<Rightarrow> u64 \<Rightarrow> 'z tty_globals_scheme \<Rightarrow> bool" where
  "sel_inv L us start s \<longleftrightarrow>
     (\<exists>l. sel_log (env s) = L @ l \<and> list_all (sel_bounded us) l) \<and>
     (\<forall>c. Some c \<in> set (q_clock (env s)) \<longrightarrow> start \<le> clock_us c)"

lemma sel_inv_select: "sel_bounded us tv \<Longrightarrow> wtriple (sel_inv L us start) (os_select tv) (\<lambda>_. sel_inv L us start) (sel_inv L us start)"
  by (auto simp: gtriple_def os_select_def sel_inv_def split: list.splits)

lemma sel_inv_clock:
  "wtriple (sel_inv L us start) PlatTimeGet (\<lambda>now s. sel_inv L us start s \<and> start \<le> now) (sel_inv L us start)"
  by (auto simp: gtriple_def PlatTimeGet_def os_clock_gettime_def cmd_defs sel_inv_def clock_us_def
      split: list.splits option.splits)

lemma remaining_bounded:
  assumes "start \<le> now" "now < start + us" "unat start + unat us < 2 ^ 64"
  shows "sel_bounded us (timeval (start + us - now))"
proof (rule timeval_bounded)
  have "unat (start + us) = unat start + unat us" using assms(3) by (simp add: unat_word_ariths)
  with assms show "start + us - now \<le> us" by (simp add: word_le_nat_alt word_less_nat_alt unat_sub)
qed

lemma sel_inv_read:
  assumes "\<And>bs. wtriple (sel_inv L us start) (h bs) (\<lambda>_. sel_inv L us start) (sel_inv L us start)"
  shows "wtriple (sel_inv L us start) (ttyRead h) (\<lambda>_. sel_inv L us start) (sel_inv L us start)"
  unfolding ttyRead_def
proof (rule triple_bindC)
  show "wtriple (sel_inv L us start) (os_read kMaxFrameSize) (\<lambda>_. sel_inv L us start) (sel_inv L us start)"
    by (auto simp: gtriple_def os_read_def sel_inv_def split: list.splits read_ans.splits)
  show "wtriple (sel_inv L us start)
      (case r of RdData buffer \<Rightarrow>
         (if buffer \<noteq> [] then bindC (trace_hex 2048 0 (length buffer)) (\<lambda>_. h buffer) else retC False)
       | RdErr e \<Rightarrow> retC False) (\<lambda>_. sel_inv L us start) (sel_inv L us start)" for r
    using assms by (cases r) (auto intro!: triple_retC triple_bindC [OF trace_hex_triple])
qed

lemma sel_inv_wait_frame:
  assumes h: "\<And>bs. wtriple (sel_inv L us start) (h bs) (\<lambda>_. sel_inv L us start) (sel_inv L us start)"
    and fits: "unat start + unat us < 2 ^ 64"
  shows "sel_bounded us timeout \<Longrightarrow>
    wtriple (sel_inv L us start) (wait_frame (start + us) timeout h q) (\<lambda>_. sel_inv L us start) (sel_inv L us start)"
proof (induction q arbitrary: timeout)
  case Nil
  then show ?case unfolding wait_frame.simps
    by (intro triple_bindC [OF sel_inv_select]) (auto simp: gtriple_def)
next
  case (Cons a q)
  have n: "wtriple (sel_inv L us start) (bindC PlatTimeGet (\<lambda>now. if now < start + us
      then wait_frame (start + us) (timeval (start + us - now)) h q else retC ERR_TIMEOUT))
      (\<lambda>_. sel_inv L us start) (sel_inv L us start)"
  proof (rule triple_bindC [OF sel_inv_clock])
    fix now
    show "wtriple (\<lambda>s. sel_inv L us start s \<and> start \<le> now) (if now < start + us
        then wait_frame (start + us) (timeval (start + us - now)) h q else retC ERR_TIMEOUT)
        (\<lambda>_. sel_inv L us start) (sel_inv L us start)"
    proof (cases "start \<le> now \<and> now < start + us")
      case True
      with Cons.IH remaining_bounded fits show ?thesis by (auto elim: triple_pre)
    qed (auto simp: gtriple_def retC_def)
  qed
  have "wtriple (sel_inv L us start) (bindC (ttyRead h) (\<lambda>ok. if ok then retC NO_ERR else
      bindC PlatTimeGet (\<lambda>now. if now < start + us
      then wait_frame (start + us) (timeval (start + us - now)) h q else retC ERR_TIMEOUT)))
      (\<lambda>_. sel_inv L us start) (sel_inv L us start)"
    by (rule triple_bindC [OF sel_inv_read [OF h]]) (auto intro!: triple_retC n)
  with n Cons.prems show ?case unfolding wait_frame.simps Let_def
    by (intro triple_bindC [OF sel_inv_select]) (auto intro: triple_retC split: select_ans.split)
qed

text \<open>
  C35: No call of \<open>select\<close> in a wait for a frame may sleep longer than the timeout asked for: with
  a clock that does not run backwards, every timeout given to it is well formed (less than a
  million microseconds beside the seconds) and at most the timeout of the wait.
\<close>

theorem ttyWaitForFrame_select_bounded:
  assumes "q_clock (env s) = Some c0 # cs" "\<forall>c. Some c \<in> set cs \<longrightarrow> clock_us c0 \<le> clock_us c"
    and "unat (clock_us c0) + unat timeout_us < 2 ^ 64"
    and "\<And>bs. steps (same (\<lambda>s. (sel_log (env s), q_clock (env s)))) (h bs)"
    and "ttyWaitForFrame timeout_us h s = Ret e t"
  shows "\<exists>l. sel_log (env t) = sel_log (env s) @ l \<and>
    list_all (\<lambda>(sec, usec). unat usec < 1000000 \<and> unat sec * 1000000 + unat usec \<le> unat timeout_us) l"
proof -
  let ?I = "sel_inv (sel_log (env s)) timeout_us (clock_us c0)"
  define u where "u = s\<lparr>env := env s\<lparr>q_clock := cs\<rparr>\<rparr>"
  have h: "wtriple ?I (h bs) (\<lambda>_. ?I) ?I" for bs
    by (rule steps_inv [OF assms(4)]) (simp add: sel_inv_def)
  have run: "ttyWaitForFrame timeout_us h s =
      wait_frame (clock_us c0 + timeout_us) (timeval timeout_us) h (q_select (env u)) u"
    using assms(1) by (simp add: ttyWaitForFrame_def bindC_def getsC_def PlatTimeGet_Some u_def)
  have "?I u" using assms(2) by (auto simp: sel_inv_def u_def)
  moreover have "wtriple ?I (wait_frame (clock_us c0 + timeout_us) (timeval timeout_us) h (q_select (env u)))
      (\<lambda>_. ?I) ?I"
    by (rule sel_inv_wait_frame [OF h assms(3) timeval_bounded [OF order_refl]])
  ultimately have "?I t"
    using triple_Ret assms(5) unfolding run by fastforce
  then show ?thesis by (fastforce simp: sel_inv_def list_all_iff sel_bounded_def)
qed

theorem ttyWaitForFrame_select_bounded_witness:
  "\<exists>t l. ttyWaitForFrame 1000000 (\<lambda>_. retC True)
      (tty_init (os_idle\<lparr>q_select := [SelTimeout, SelTimeout], q_clock := [Some (5, 0), Some (5, 300000), Some (6, 1000)]\<rparr>)\<lparr>ttyfd := 3\<rparr>)
      = Ret ERR_TIMEOUT t \<and> sel_log (env t) = l \<and> l \<noteq> [] \<and>
    list_all (\<lambda>(sec, usec). unat usec < 1000000 \<and> unat sec * 1000000 + unat usec \<le> unat (1000000::u64)) l"
proof -
  let ?s = "tty_init (os_idle\<lparr>q_select := [SelTimeout, SelTimeout], q_clock := [Some (5, 0), Some (5, 300000), Some (6, 1000)]\<rparr>)\<lparr>ttyfd := 3\<rparr>"
  have "\<exists>t. ttyWaitForFrame 1000000 (\<lambda>_. retC True) ?s = Ret ERR_TIMEOUT t \<and> sel_log (env t) \<noteq> []"
    by (simp add: ttyWaitForFrame_def PlatTimeGet_def os_defs cmd_defs os_idle_def Let_def)
  then obtain t where t: "ttyWaitForFrame 1000000 (\<lambda>_. retC True) ?s = Ret ERR_TIMEOUT t" "sel_log (env t) \<noteq> []" by blast
  have "\<exists>l. sel_log (env t) = sel_log (env ?s) @ l \<and>
    list_all (\<lambda>(sec, usec). unat usec < 1000000 \<and> unat sec * 1000000 + unat usec \<le> unat (1000000::u64)) l"
    by (rule ttyWaitForFrame_select_bounded [OF _ _ _ _ t(1)]) (auto simp: clock_us_def steps_def retC_def)
  with t show ?thesis by (auto simp: os_idle_def)
qed

section \<open>Consumption of the environment\<close>

text \<open>
  Two refinements of the order. In the first, whatever leaves the line's four queues and the
  descriptors alone is a step: this covers the HDLC layer and all requests over an open line.
  In the second, the descriptors may change, too. The operations of the later components are
  steps of such orders; with \<open>fewer_answers\<close> this bounds their loops, with the descriptors it
  shows which operations leave the device open.
\<close>

locale calm_order = line_order R for R :: "'z tty_globals_scheme \<Rightarrow> 'z tty_globals_scheme \<Rightarrow> bool" +
  assumes calm: "q_clock (env t) = q_clock (env s) \<Longrightarrow> q_select (env t) = q_select (env s) \<Longrightarrow>
    q_write (env t) = q_write (env s) \<Longrightarrow> q_read (env t) = q_read (env s) \<Longrightarrow>
    open_fds (env t) = open_fds (env s) \<Longrightarrow> ttyfd t = ttyfd s \<Longrightarrow> R s t"
begin

lemma os_calm_steps:
  "steps R os_ioctl" "steps R (os_tcsetattr tios)" "steps R (os_access path)" "steps R (os_usleep us)"
proof -
  show ioctl: "steps R os_ioctl"
    by (auto simp: steps_def os_ioctl_def intro: calm split: list.splits)
  show "steps R (os_tcsetattr tios)" unfolding os_tcsetattr_def
    by (auto intro!: steps_rules ioctl calm)
qed (auto simp: steps_def os_access_def os_usleep_def modifyC_def intro!: calm split: list.splits)

lemma setting_steps: "steps R (ttydevice_baud_set b)" "steps R (ttydevice_flowctl_set e)"
  unfolding ttydevice_baud_set_def ttydevice_flowctl_set_def by (auto intro!: steps_rules calm)

lemma dec_store_steps: "steps R (dec_store b st)"
  by (auto simp: steps_def dec_store_def hdlc_decoder_reset_def modifyC_def intro!: calm)

lemma hdlc_decode_steps: "steps R (hdlc_decode bs ret)"
proof (induction bs arbitrary: ret)
  case Nil
  show ?case by (simp add: steps_def refl)
next
  case (Cons b bs)
  have upd: "R s t \<Longrightarrow> (case hdlc_decode bs r t of Ret a u \<Rightarrow> R s u | Exit n u \<Rightarrow> R s u | Blocked u \<Rightarrow> R s u | Fault \<Rightarrow> True)" for s t r
    using Cons.IH [of r] by (cases "hdlc_decode bs r t") (auto intro: trans dest: steps_Ret steps_Exit steps_Blocked)
  have st: "steps R (bindC (dec_store c st) (\<lambda>_. hdlc_decode bs r))" for c st r
    by (intro steps_rules dec_store_steps Cons.IH)
  show ?case unfolding steps_def
  proof
    fix s
    show "case hdlc_decode (b # bs) ret s of Ret a u \<Rightarrow> R s u | Exit n u \<Rightarrow> R s u | Blocked u \<Rightarrow> R s u | Fault \<Rightarrow> True"
      using st by (cases "mState s") (auto simp: steps_def intro!: upd calm refl)
  qed
qed

lemma enc_put_steps: "steps R (enc_put b)"
  by (auto simp: steps_def enc_put_def intro!: calm)

lemma enc_data_steps: "steps R (enc_data bs)"
  by (induction bs) (auto simp: enc_put_escaped_def intro!: steps_rules enc_put_steps calm)

lemma hdlc_steps: "steps R (hdlc_encode bs)" "steps R hdlc_decoder_reset"
  unfolding hdlc_encode_def hdlc_decoder_reset_def enc_put_escaped_def
  by (auto intro!: steps_rules enc_put_steps enc_data_steps calm)

lemmas tty_steps = os_steps os_calm_steps setting_steps hdlc_decode_steps hdlc_steps
  trace_hex_steps ttyWrite_steps ttyWaitForFrame_steps

end

locale queue_order = line_order R for R :: "'z tty_globals_scheme \<Rightarrow> 'z tty_globals_scheme \<Rightarrow> bool" +
  assumes quiet: "q_clock (env t) = q_clock (env s) \<Longrightarrow> q_select (env t) = q_select (env s) \<Longrightarrow>
    q_write (env t) = q_write (env s) \<Longrightarrow> q_read (env t) = q_read (env s) \<Longrightarrow> R s t"

sublocale queue_order \<subseteq> calm_order
  by unfold_locales (rule quiet)

context queue_order
begin

lemma os_fd_steps: "steps R os_open_tty" "steps R (os_close fd)"
  by (auto simp: steps_def os_open_tty_def os_close_def modifyC_def
      intro!: quiet split: list.splits option.splits)

lemma device_steps: "steps R device_open" "steps R device_close"
  unfolding device_open_def device_close_def line_setup_def Let_def
  by (auto intro!: steps_rules os_fd_steps os_calm_steps quiet)

end

interpretation fewer: queue_order fewer_answers
  by unfold_locales (auto simp: fewer_answers_def)

text \<open>The descriptors: the current one and the open ones.\<close>

definition line_fds :: "'z tty_globals_scheme \<Rightarrow> int \<times> int list" where
  "line_fds s = (ttyfd s, open_fds (env s))"

interpretation held: calm_order "same line_fds"
  by unfold_locales (simp_all add: line_fds_def)

end
