(* ===== verification/RcpConfig.thy ===== *)
theory RcpConfig
  imports Tty
begin

text \<open>
  The configuration of the radio co-processor: \<^verbatim>\<open>RcpConfig.c\<close>. The globals of the file extend
  those of the line. A request is a Spinel command in an HDLC frame; its reply is collected by
  the frame handler \<open>getConfigReponseHandle\<close>. The pointer arguments that the source checks
  against \<open>NULL\<close> are addresses of local variables in every call and are results here: a
  function with an out parameter takes its old value and returns the new one.
\<close>

unbundle bit_operations_syntax

section \<open>Data\<close>

definition SPINEL_PROP_VENDOR_RTK_CONFIG_READ :: u32 where "SPINEL_PROP_VENDOR_RTK_CONFIG_READ = 0x3c0a"
definition SPINEL_PROP_VENDOR_RTK_CONFIG_WRITE :: u32 where "SPINEL_PROP_VENDOR_RTK_CONFIG_WRITE = 0x3c0b"
definition SPINEL_PROP_VENDOR_RTK_FLOW_CONTROL :: u32 where "SPINEL_PROP_VENDOR_RTK_FLOW_CONTROL = 0x3c0c"
definition SPINEL_PROP_VENDOR_RTK_REBOOT :: u32 where "SPINEL_PROP_VENDOR_RTK_REBOOT = 0x3c0d"

definition SPINEL_CMD_PROP_VALUE_GET :: u8 where "SPINEL_CMD_PROP_VALUE_GET = 2"
definition SPINEL_CMD_PROP_VALUE_SET :: u8 where "SPINEL_CMD_PROP_VALUE_SET = 3"
definition SPINEL_CMD_PROP_VALUE_IS :: u8 where "SPINEL_CMD_PROP_VALUE_IS = 6"

definition CONFIG_RESPONSE_DATA_LENGTH_MAX :: nat where "CONFIG_RESPONSE_DATA_LENGTH_MAX = 512"
definition READ_CONFIG_RESPONSE_DATA_LENGTH :: nat where "READ_CONFIG_RESPONSE_DATA_LENGTH = 34"
definition COMMON_CONFIG_RESPONSE_DATA_LENGTH :: nat where "COMMON_CONFIG_RESPONSE_DATA_LENGTH = 4"

lemmas spinel_consts =
  SPINEL_PROP_VENDOR_RTK_CONFIG_READ_def SPINEL_PROP_VENDOR_RTK_CONFIG_WRITE_def
  SPINEL_PROP_VENDOR_RTK_FLOW_CONTROL_def SPINEL_PROP_VENDOR_RTK_REBOOT_def
  SPINEL_CMD_PROP_VALUE_GET_def SPINEL_CMD_PROP_VALUE_SET_def SPINEL_CMD_PROP_VALUE_IS_def
  CONFIG_RESPONSE_DATA_LENGTH_MAX_def READ_CONFIG_RESPONSE_DATA_LENGTH_def COMMON_CONFIG_RESPONSE_DATA_LENGTH_def

type_synonym u24 = "24 word"

record rtk_config_param =
  sign :: u32
  vid :: u16
  pid :: u16
  tx_pin :: u8
  rx_pin :: u8
  rts_pin :: u8
  cts_pin :: u8
  func_msk :: u8
  baud_rate :: u24
  pta_dis :: u8
  pta_wl_act :: u8
  pta_bt_act :: u8
  pta_bt_stat :: u8
  pta_bt_clk :: u8
  ext_pa :: u8
  ext_lna :: u8
  ext_pa_lna_ploatiry :: u8
  ic_type :: u16
  reserved :: u16

text \<open>The packed layout: 28 bytes, the bit fields of each word from its low end.\<close>

definition param_bytes :: "rtk_config_param \<Rightarrow> bytes" where
  "param_bytes p =
     le_bytes 4 (sign p) @ le_bytes 2 (vid p) @ le_bytes 2 (pid p) @
     [tx_pin p, rx_pin p, rts_pin p, cts_pin p, func_msk p] @ le_bytes 3 (baud_rate p) @
     [pta_dis p, pta_wl_act p, pta_bt_act p, pta_bt_stat p, pta_bt_clk p, ext_pa p, ext_lna p,
      ext_pa_lna_ploatiry p] @ le_bytes 2 (ic_type p) @ le_bytes 2 (reserved p)"

definition param_of :: "bytes \<Rightarrow> rtk_config_param" where
  "param_of bs = \<lparr>
     sign = le_word (take 4 bs), vid = le_word (take 2 (drop 4 bs)), pid = le_word (take 2 (drop 6 bs)),
     tx_pin = bs ! 8, rx_pin = bs ! 9, rts_pin = bs ! 10, cts_pin = bs ! 11,
     func_msk = bs ! 12, baud_rate = le_word (take 3 (drop 13 bs)),
     pta_dis = bs ! 16, pta_wl_act = bs ! 17, pta_bt_act = bs ! 18, pta_bt_stat = bs ! 19,
     pta_bt_clk = bs ! 20, ext_pa = bs ! 21, ext_lna = bs ! 22, ext_pa_lna_ploatiry = bs ! 23,
     ic_type = le_word (take 2 (drop 24 bs)), reserved = le_word (take 2 (drop 26 bs))\<rparr>"

record cfg_globals = tty_globals +
  config_param :: rtk_config_param
  flowctl_enable :: bool
  parse_file_ok :: bool
  configResponse :: bytes
  configResponseLen :: u16

section \<open>Requests\<close>

text \<open>
  The trace line of the handler starts with its name and a label, 40 characters in all, and
  goes into 512 bytes.
\<close>

definition getConfigReponseHandle :: "'z cfg_globals_scheme handler" where
  "getConfigReponseHandle buff =
     bindC (hdlc_decode buff HDLD_DECODE_PENDING) (\<lambda>(declen, ret).
       if ret \<noteq> HDLD_DECODE_COMPLETE then retC False
       else if CONFIG_RESPONSE_DATA_LENGTH_MAX < unat declen then faultC
       else
         bindC (modifyC (\<lambda>s. s\<lparr>
             configResponse := take (unat declen) (decodeBuffer s) @ drop (unat declen) (configResponse s),
             configResponseLen := declen\<rparr>)) (\<lambda>_.
         bindC (trace_hex 512 40 (unat declen)) (\<lambda>_.
         retC True)))"

definition ConfigRequest :: "bytes \<Rightarrow> nat \<Rightarrow> ('z cfg_globals_scheme, bytes option) cmd" where
  "ConfigRequest cmdBuffer responseLen =
     bindC (trace_hex 2048 0 (length cmdBuffer)) (\<lambda>_.
     bindC (hdlc_encode cmdBuffer) (\<lambda>(ret, aFrame).
       if \<not> ret then exitC 1
       else bindC (ttyWrite aFrame) (\<lambda>err.
         if err \<noteq> NO_ERR then retC None
         else bindC hdlc_decoder_reset (\<lambda>_.
           bindC (ttyWaitForFrame 1000000 getConfigReponseHandle) (\<lambda>err.
             if err \<noteq> NO_ERR then retC None
             else bindC (getsC (\<lambda>s. unat (configResponseLen s))) (\<lambda>n.
               bindC (trace_hex 512 0 n) (\<lambda>_.
                 if responseLen < n then retC None
                 else getsC (\<lambda>s. Some (take n (configResponse s))))))))))"

definition getRedundantDataHandle :: "'z cfg_globals_scheme handler" where
  "getRedundantDataHandle buff = retC False"

definition readtoEmpty :: "u64 \<Rightarrow> ('z cfg_globals_scheme, unit) cmd" where
  "readtoEmpty aTimeoutUs = bindC (ttyWaitForFrame aTimeoutUs getRedundantDataHandle) (\<lambda>_. retC ())"

definition spinel_packed_uint_size :: "u32 \<Rightarrow> nat" where
  "spinel_packed_uint_size v =
     (if v < 2 ^ 7 then 1 else if v < 2 ^ 14 then 2 else if v < 2 ^ 21 then 3 else if v < 2 ^ 28 then 4 else 5)"

text \<open>The loop of the encoder: \<open>n\<close> more bytes after this one.\<close>

fun packed_loop :: "nat \<Rightarrow> u32 \<Rightarrow> bytes" where
  "packed_loop 0 v = [ucast (v AND 0x7F)]"
| "packed_loop (Suc n) v = (ucast ((v AND 0x7F) OR 0x80)) # packed_loop n (drop_bit 7 v)"

text \<open>The bytes written to a buffer of \<open>len\<close> bytes, and the size returned.\<close>

definition spinel_packed_uint_encode :: "nat \<Rightarrow> u32 \<Rightarrow> bytes \<times> nat" where
  "spinel_packed_uint_encode len v =
     (let encoded_size = spinel_packed_uint_size v
      in (if len \<ge> encoded_size then packed_loop (encoded_size - 1) v else [], encoded_size))"

text \<open>\<open>SPINEL_HEADER_FLAG | SPINEL_HEADER_IID(0) | tid\<close> with \<open>tid = 5 & 0x0f\<close>.\<close>

definition spinel_header :: u8 where
  "spinel_header = 0x80 OR push_bit 4 0 OR (5 AND 0x0f)"

definition spinel_cmd :: "u8 \<Rightarrow> u32 \<Rightarrow> bytes \<Rightarrow> bytes" where
  "spinel_cmd cmd prop payload = spinel_header # cmd # fst (spinel_packed_uint_encode 2 prop) @ payload"

definition read_reply_ok :: "bytes \<Rightarrow> bytes \<Rightarrow> bool" where
  "read_reply_ok CmdBuff RespBuff \<longleftrightarrow>
     length RespBuff = READ_CONFIG_RESPONSE_DATA_LENGTH \<and>
     RespBuff ! 0 = CmdBuff ! 0 \<and> RespBuff ! 1 = SPINEL_CMD_PROP_VALUE_IS \<and>
     RespBuff ! 2 = CmdBuff ! 2 \<and> RespBuff ! 3 = CmdBuff ! 3 \<and> RespBuff ! 4 = 28 \<and> RespBuff ! 5 = 0"

definition params_agree :: "rtk_config_param \<Rightarrow> rtk_config_param \<Rightarrow> bool" where
  "params_agree c p \<longleftrightarrow>
     vid c = vid p \<and> pid c = pid p \<and> func_msk c = func_msk p \<and> baud_rate c = baud_rate p \<and>
     pta_dis c = pta_dis p \<and> ext_pa c = ext_pa p \<and> ext_lna c = ext_lna p \<and>
     ext_pa_lna_ploatiry c = ext_pa_lna_ploatiry p"

text \<open>The result is the return value and the new \<open>*is_config_same\<close>.\<close>

definition rtkrcp_config_check :: "bool \<Rightarrow> ('z cfg_globals_scheme, bool \<times> bool) cmd" where
  "rtkrcp_config_check is_config_same =
     (let CmdBuff = spinel_cmd SPINEL_CMD_PROP_VALUE_GET SPINEL_PROP_VENDOR_RTK_CONFIG_READ []
      in bindC (ConfigRequest CmdBuff READ_CONFIG_RESPONSE_DATA_LENGTH) (\<lambda>resp. case resp of
           None \<Rightarrow> retC (False, is_config_same)
         | Some RespBuff \<Rightarrow>
             if read_reply_ok CmdBuff RespBuff
             then (let p = param_of (drop 6 RespBuff)
               in bindC (getsC parse_file_ok) (\<lambda>ok.
                  if ok
                  then bindC (getsC config_param) (\<lambda>c.
                    if ic_type c \<noteq> ic_type p then exitC 255
                    else if \<not> params_agree c p then retC (True, False)
                    else retC (True, func_msk c AND 0x01 \<noteq> 0))
                  else bindC (modifyC (\<lambda>s. s\<lparr>config_param := p\<rparr>)) (\<lambda>_.
                    retC (True, func_msk p AND 0x01 \<noteq> 0))))
             else retC (True, False)))"

definition rtkrcp_config_read :: "('z cfg_globals_scheme, rtk_config_param option) cmd" where
  "rtkrcp_config_read =
     (let CmdBuff = spinel_cmd SPINEL_CMD_PROP_VALUE_GET SPINEL_PROP_VENDOR_RTK_CONFIG_READ []
      in bindC (ConfigRequest CmdBuff READ_CONFIG_RESPONSE_DATA_LENGTH) (\<lambda>resp. case resp of
           None \<Rightarrow> retC None
         | Some RespBuff \<Rightarrow>
             retC (if read_reply_ok CmdBuff RespBuff then Some (param_of (drop 6 RespBuff)) else None)))"

definition status_reply_ok :: "bytes \<Rightarrow> bytes \<Rightarrow> bool" where
  "status_reply_ok CmdBuff RespBuff \<longleftrightarrow>
     length RespBuff = COMMON_CONFIG_RESPONSE_DATA_LENGTH \<and>
     RespBuff ! 0 = CmdBuff ! 0 \<and> RespBuff ! 1 = SPINEL_CMD_PROP_VALUE_IS \<and> RespBuff ! 2 = 0 \<and> RespBuff ! 3 = 0"

text \<open>The common end of the three setters: send the command and judge the status reply.\<close>

definition set_request :: "bytes \<Rightarrow> bool \<Rightarrow> ('z cfg_globals_scheme, bool \<times> bool) cmd" where
  "set_request CmdBuff response_ok =
     bindC (ConfigRequest CmdBuff COMMON_CONFIG_RESPONSE_DATA_LENGTH) (\<lambda>resp. case resp of
       None \<Rightarrow> retC (False, response_ok)
     | Some RespBuff \<Rightarrow> retC (True, status_reply_ok CmdBuff RespBuff))"

definition rtkrcp_config_write :: "bool \<Rightarrow> ('z cfg_globals_scheme, bool \<times> bool) cmd" where
  "rtkrcp_config_write response_ok =
     bindC (getsC config_param) (\<lambda>c.
       set_request (spinel_cmd SPINEL_CMD_PROP_VALUE_SET SPINEL_PROP_VENDOR_RTK_CONFIG_WRITE
         ([28, 0] @ param_bytes c)) response_ok)"

definition rtkrcp_flowctl_set :: "u8 \<Rightarrow> bool \<Rightarrow> ('z cfg_globals_scheme, bool \<times> bool) cmd" where
  "rtkrcp_flowctl_set enable response_ok =
     set_request (spinel_cmd SPINEL_CMD_PROP_VALUE_SET SPINEL_PROP_VENDOR_RTK_FLOW_CONTROL [1, 0, enable]) response_ok"

definition rtkrcp_reboot_set :: "u8 \<Rightarrow> bool \<Rightarrow> ('z cfg_globals_scheme, bool \<times> bool) cmd" where
  "rtkrcp_reboot_set reboot response_ok =
     set_request (spinel_cmd SPINEL_CMD_PROP_VALUE_SET SPINEL_PROP_VENDOR_RTK_REBOOT [1, 0, reboot]) response_ok"

section \<open>The configuration procedure\<close>

definition rtkrcp_config_parse :: "('z cfg_globals_scheme, bool) cmd" where
  "rtkrcp_config_parse =
     bindC (getsC RcpConfigBin) (\<lambda>path.
     bindC (os_access path) (\<lambda>exists.
       if exists
       then bindC (getsC (\<lambda>s. files (env s) path)) (\<lambda>f. case f of
           Some (Regular content) \<Rightarrow>
             bindC (if 28 \<le> length content
                    then modifyC (\<lambda>s. s\<lparr>config_param := param_of (take 28 content)\<rparr>) else retC ()) (\<lambda>_.
             bindC (modifyC (\<lambda>s. s\<lparr>parse_file_ok := True\<rparr>)) (\<lambda>_. retC True))
         | _ \<Rightarrow> bindC (modifyC (\<lambda>s. s\<lparr>parse_file_ok := False\<rparr>)) (\<lambda>_. retC False))
       else bindC (modifyC (\<lambda>s. s\<lparr>parse_file_ok := False\<rparr>)) (\<lambda>_. retC False)))"

text \<open>After a successful open: read, drain, check, and close again unless the check succeeds.\<close>

definition probe :: "bool \<Rightarrow> ('z cfg_globals_scheme, bool \<times> bool) cmd" where
  "probe is_config_same =
     bindC (os_usleep 20000) (\<lambda>_.
     bindC rtkrcp_config_read (\<lambda>_.
     bindC (readtoEmpty 100000) (\<lambda>_.
     bindC (rtkrcp_config_check is_config_same) (\<lambda>(ok, same).
       if ok then retC (True, same)
       else bindC device_close (\<lambda>_. retC (False, same))))))"

text \<open>One attempt of the first phase, where a failing open only counts as a miss.\<close>

definition try_flowctl :: "bool \<Rightarrow> bool \<Rightarrow> ('z cfg_globals_scheme, bool \<times> bool) cmd" where
  "try_flowctl flowctl_tmp is_config_same =
     bindC (ttydevice_flowctl_set flowctl_tmp) (\<lambda>_.
     bindC device_open (\<lambda>fd.
       if fd = - 1 then retC (False, is_config_same) else probe is_config_same))"

definition config_first :: "bool \<Rightarrow> ('z cfg_globals_scheme, bool \<times> bool) cmd" where
  "config_first is_config_same =
     bindC (getsC (\<lambda>s. ucast (baud_rate (config_param s)))) (\<lambda>b.
     bindC (ttydevice_baud_set b) (\<lambda>_.
     bindC (try_flowctl False is_config_same) (\<lambda>(hit, same).
       if hit then retC (True, same) else try_flowctl True same)))"

definition baudrate_table :: "u32 list" where
  "baudrate_table = [921600,
     115200, 230400, 460800, 921600, 1000000, 2000000,
     115200, 230400, 460800, 921600, 1000000, 2000000,
     115200, 230400, 460800, 921600, 1000000, 2000000]"

text \<open>The search over the table: a hit, a device that cannot be opened, or no speed left.\<close>

datatype hit_result = Hit bool | OpenFailed | Missed

fun hit_baudrate :: "u32 list \<Rightarrow> bool \<Rightarrow> ('z cfg_globals_scheme, hit_result) cmd" where
  "hit_baudrate [] is_config_same = retC Missed"
| "hit_baudrate (b # bs) is_config_same =
     bindC (ttydevice_baud_set b) (\<lambda>_.
     bindC (ttydevice_flowctl_set False) (\<lambda>_.
     bindC (os_usleep 20000) (\<lambda>_.
     bindC device_open (\<lambda>fd. if fd = - 1 then retC OpenFailed else
     bindC (probe is_config_same) (\<lambda>(hit, same). if hit then retC (Hit same) else
     bindC (ttydevice_flowctl_set True) (\<lambda>_.
     bindC (os_usleep 20000) (\<lambda>_.
     bindC device_open (\<lambda>fd. if fd = - 1 then retC OpenFailed else
     bindC (probe same) (\<lambda>(hit, same). if hit then retC (Hit same) else
     hit_baudrate bs same)))))))))"

text \<open>The end of \<open>rtkrcp_config\<close>, with the line open: write the configuration unless it is the same.\<close>

definition config_apply :: "bool \<Rightarrow> ('z cfg_globals_scheme, bool) cmd" where
  "config_apply is_config_same =
     (if is_config_same then bindC device_close (\<lambda>_. retC True)
      else
        bindC (modifyC (\<lambda>s. s\<lparr>flowctl_enable := (func_msk (config_param s) AND 0x01 = 0)\<rparr>)) (\<lambda>_.
        bindC (modifyC (\<lambda>s. s\<lparr>config_param := (config_param s)\<lparr>func_msk := func_msk (config_param s) OR 0x01\<rparr>\<rparr>)) (\<lambda>_.
        bindC (readtoEmpty 100000) (\<lambda>_.
        bindC (rtkrcp_config_write False) (\<lambda>(sent, response_ok).
          if \<not> sent \<or> \<not> response_ok then bindC device_close (\<lambda>_. retC False)
          else
            bindC device_close (\<lambda>_.
            bindC (os_usleep 500000) (\<lambda>_.
            bindC (getsC (\<lambda>s. ucast (baud_rate (config_param s)))) (\<lambda>b.
            bindC (ttydevice_baud_set b) (\<lambda>_.
            bindC (ttydevice_flowctl_set False) (\<lambda>_.
            bindC device_open (\<lambda>fd.
              if fd = - 1 then retC False
              else
                bindC (os_usleep 20000) (\<lambda>_.
                bindC (readtoEmpty 200000) (\<lambda>_.
                bindC (rtkrcp_config_check is_config_same) (\<lambda>(ok, same).
                  if \<not> ok \<or> \<not> same then bindC device_close (\<lambda>_. retC False)
                  else
                    bindC device_close (\<lambda>_.
                    bindC (modifyC (\<lambda>s. s\<lparr>config_param := (config_param s)\<lparr>func_msk :=
                        (if flowctl_enable s then func_msk (config_param s) AND 0xfe
                         else func_msk (config_param s) OR 0x01)\<rparr>\<rparr>)) (\<lambda>_.
                    retC True))))))))))))))))"

definition rtkrcp_config :: "('z cfg_globals_scheme, bool) cmd" where
  "rtkrcp_config =
     bindC (getsC parse_file_ok) (\<lambda>parsed.
     bindC (if parsed then config_first False else retC (False, False)) (\<lambda>(ret, same).
       if ret then config_apply same
       else bindC (hit_baudrate baudrate_table same) (\<lambda>r. case r of
           Hit same \<Rightarrow> config_apply same
         | OpenFailed \<Rightarrow> retC False
         | Missed \<Rightarrow> exitC 254)))"

definition rtkrcp_config_flowctl :: "('z cfg_globals_scheme, bool) cmd" where
  "rtkrcp_config_flowctl =
     bindC (getsC rtkrcp_usb_interface_check) (\<lambda>usb.
       if usb then retC True
       else bindC (getsC flowctl_enable) (\<lambda>enable.
         if enable
         then bindC device_open (\<lambda>fd.
           if fd = - 1 then retC False
           else bindC (rtkrcp_flowctl_set (of_bool enable) True) (\<lambda>(sent, response_ok).
             if sent
             then (if \<not> response_ok then bindC device_close (\<lambda>_. retC False)
                   else
                     bindC (ttydevice_flowctl_set enable) (\<lambda>_.
                     bindC device_close (\<lambda>_.
                     bindC (os_usleep 250000) (\<lambda>_. retC True))))
             else bindC device_close (\<lambda>_. retC False)))
         else retC True))"

definition test_after_config_cfu_flowctl :: "('z cfg_globals_scheme, bool) cmd" where
  "test_after_config_cfu_flowctl =
     bindC (os_usleep 100000) (\<lambda>_.
     bindC device_open (\<lambda>fd.
       if fd = - 1 then retC False
       else
         bindC (os_usleep 100000) (\<lambda>_.
         bindC rtkrcp_config_read (\<lambda>param. case param of
           None \<Rightarrow> bindC device_close (\<lambda>_. retC False)
         | Some _ \<Rightarrow> bindC device_close (\<lambda>_. retC True)))))"

section \<open>Consumption of the environment\<close>

locale cfg_calm = calm_order R for R :: "'z cfg_globals_scheme \<Rightarrow> 'z cfg_globals_scheme \<Rightarrow> bool"
begin

lemma handler_steps: "steps R (getConfigReponseHandle bs)" "steps R (getRedundantDataHandle bs)"
  unfolding getConfigReponseHandle_def getRedundantDataHandle_def
  by (auto intro!: steps_rules tty_steps calm)

lemma ConfigRequest_steps: "steps R (ConfigRequest cmd n)"
  unfolding ConfigRequest_def by (intro steps_rules tty_steps handler_steps)

lemma readtoEmpty_steps: "steps R (readtoEmpty t)"
  unfolding readtoEmpty_def by (intro steps_rules tty_steps handler_steps)

lemma set_request_steps: "steps R (set_request cmd r)"
  unfolding set_request_def by (intro steps_rules ConfigRequest_steps)

lemma config_read_steps: "steps R rtkrcp_config_read"
  unfolding rtkrcp_config_read_def Let_def by (intro steps_rules ConfigRequest_steps)

lemma config_check_steps: "steps R (rtkrcp_config_check sm)"
  unfolding rtkrcp_config_check_def Let_def by (intro steps_rules ConfigRequest_steps calm) simp_all

lemma config_write_steps: "steps R (rtkrcp_config_write r)" "steps R (rtkrcp_flowctl_set e r)"
  unfolding rtkrcp_config_write_def rtkrcp_flowctl_set_def by (intro steps_rules set_request_steps)+

lemmas request_steps = tty_steps ConfigRequest_steps readtoEmpty_steps config_read_steps config_check_steps config_write_steps

end

locale cfg_order = queue_order R for R :: "'z cfg_globals_scheme \<Rightarrow> 'z cfg_globals_scheme \<Rightarrow> bool"

sublocale cfg_order \<subseteq> cfg_calm ..

context cfg_order
begin

lemma probe_steps: "steps R (probe sm)"
  unfolding probe_def by (intro steps_rules request_steps device_steps)

lemma config_first_steps: "steps R (config_first sm)"
  unfolding config_first_def try_flowctl_def by (intro steps_rules tty_steps device_steps probe_steps)

lemma hit_baudrate_steps: "steps R (hit_baudrate bs sm)"
  by (induction bs arbitrary: sm) (auto intro!: steps_rules tty_steps device_steps probe_steps)

lemma config_apply_steps: "steps R (config_apply sm)"
  unfolding config_apply_def
  by (intro steps_rules request_steps device_steps quiet) simp_all

lemma rtkrcp_config_steps: "steps R rtkrcp_config"
  unfolding rtkrcp_config_def
  by (auto intro!: steps_rules config_first_steps hit_baudrate_steps config_apply_steps split: hit_result.split)

end

interpretation fewer_cfg: cfg_order fewer_answers ..

interpretation held_cfg: cfg_calm "same line_fds" ..

section \<open>Layouts\<close>

lemma length_param_bytes [simp]: "length (param_bytes p) = 28"
  by (simp add: param_bytes_def)

lemma le_bytes_parts:
  "le_bytes 2 w = [ucast w, ucast (drop_bit 8 w)]"
  "le_bytes 3 w = [ucast w, ucast (drop_bit 8 w), ucast (drop_bit 16 w)]"
  "le_bytes 4 w = [ucast w, ucast (drop_bit 8 w), ucast (drop_bit 16 w), ucast (drop_bit 24 w)]"
  by (simp_all add: le_bytes_def upt_rec numeral_eq_Suc)

lemma take_parts:
  "take 2 (a # b # xs) = [a, b]" "take 3 (a # b # c # xs) = [a, b, c]" "take 4 (a # b # c # d # xs) = [a, b, c, d]"
  by simp_all

lemma param_of_bytes: "param_of (param_bytes p) = p"
proof -
  have w: "le_word [ucast v, ucast (drop_bit 8 v)] = (v :: u16)" for v
    using le_word_le_bytes [of 2 v] by (simp add: le_bytes_parts)
  have b: "le_word [ucast v, ucast (drop_bit 8 v), ucast (drop_bit 16 v)] = (v :: u24)" for v
    using le_word_le_bytes [of 3 v] by (simp add: le_bytes_parts)
  have d: "le_word [ucast v, ucast (drop_bit 8 v), ucast (drop_bit 16 v), ucast (drop_bit 24 v)] = (v :: u32)" for v
    using le_word_le_bytes [of 4 v] by (simp add: le_bytes_parts)
  show ?thesis
    by (simp add: param_of_def param_bytes_def le_bytes_parts w b d del: le_word.simps)
qed

lemma param_bytes_of:
  assumes "length bs = 28"
  shows "param_bytes (param_of bs) = bs"
proof -
  have four: "le_bytes 4 (le_word (take 4 bs) :: u32) = take 4 bs"
    using assms by (simp add: le_bytes_le_word)
  have parts: "le_bytes 2 (le_word (take 2 (drop k bs)) :: u16) = take 2 (drop k bs)" if "k \<le> 26" for k
    using assms that by (simp add: le_bytes_le_word)
  have three: "le_bytes 3 (le_word (take 3 (drop 13 bs)) :: u24) = take 3 (drop 13 bs)"
    using assms by (simp add: le_bytes_le_word)
  have "bs = take 4 bs @ take 2 (drop 4 bs) @ take 2 (drop 6 bs) @
      [bs ! 8, bs ! 9, bs ! 10, bs ! 11, bs ! 12] @ take 3 (drop 13 bs) @
      [bs ! 16, bs ! 17, bs ! 18, bs ! 19, bs ! 20, bs ! 21, bs ! 22, bs ! 23] @ take 2 (drop 24 bs) @ take 2 (drop 26 bs)"
    (is "_ = ?rhs")
  proof (rule nth_equalityI)
    show "length bs = length ?rhs" using assms by simp
    show "bs ! i = ?rhs ! i" if "i < length bs" for i
    proof -
      have "i \<in> set [0..<28]" using that assms by simp
      then show ?thesis using assms
        by (auto simp: nth_append upt_rec numeral_eq_Suc nth_Cons' split: if_splits)
    qed
  qed
  then show ?thesis by (simp add: param_bytes_def param_of_def parts three four)
qed

text \<open>The reference decoder of a packed unsigned integer: seven bits per byte, low ones first.\<close>

fun packed_value :: "bytes \<Rightarrow> u32" where
  "packed_value [] = 0"
| "packed_value (b # bs) = ucast (b AND 0x7F) OR (if bit b 7 then push_bit 7 (packed_value bs) else 0)"

lemma u32_7f: "(0x7F :: u32) = mask 7" and u8_7f: "(0x7F :: u8) = mask 7"
  by (simp_all add: mask_eq_exp_minus_1)

lemma packed_head:
  "ucast (ucast (v AND 0x7F :: u32) AND 0x7F :: u8) = v AND 0x7F"
  "ucast (ucast ((v AND 0x7F) OR 0x80 :: u32) AND 0x7F :: u8) = v AND 0x7F"
  "\<not> bit (ucast (v AND 0x7F :: u32) :: u8) 7"
  "bit (ucast ((v AND 0x7F) OR 0x80 :: u32) :: u8) 7"
proof -
  have h: "bit (0x80 :: u32) n \<longleftrightarrow> n = 7" for n
    using bit_exp_iff [of 7 n, where 'a = "32 word"] by auto
  have i: "bit (0x80 :: int) n \<longleftrightarrow> n = 7" "bit (0x80 :: nat) n \<longleftrightarrow> n = 7" for n
    using bit_exp_iff [of 7 n, where 'a = int] bit_exp_iff [of 7 n, where 'a = nat] by auto
  show "ucast (ucast (v AND 0x7F :: u32) AND 0x7F :: u8) = v AND 0x7F"
    "ucast (ucast ((v AND 0x7F) OR 0x80 :: u32) AND 0x7F :: u8) = v AND 0x7F"
    unfolding u32_7f u8_7f by (rule bit_word_eqI; auto simp: bit_simps h i)+
  show "\<not> bit (ucast (v AND 0x7F :: u32) :: u8) 7" "bit (ucast ((v AND 0x7F) OR 0x80 :: u32) :: u8) 7"
    unfolding u32_7f by (auto simp: bit_simps h i)
qed

lemma low_high_7: "(v AND 0x7F) OR push_bit 7 (drop_bit 7 v) = (v :: u32)"
proof (rule bit_word_eqI)
  fix n assume "n < LENGTH(32)"
  then show "bit ((v AND 0x7F) OR push_bit 7 (drop_bit 7 v)) n = bit v n"
    unfolding u32_7f by (cases "n < 7") (simp_all add: bit_simps)
qed

lemma packed_loop_value: "unat v < 2 ^ (7 * Suc n) \<Longrightarrow> packed_value (packed_loop n v) = v"
proof (induction n arbitrary: v)
  case 0
  then have "v AND 0x7F = v" unfolding u32_7f
    by (simp add: take_bit_eq_mask [symmetric] word_unat_eq_iff unsigned_take_bit_eq take_bit_nat_eq_self)
  then show ?case using packed_head(1,3) [of v] by simp
next
  case (Suc n)
  have "unat (drop_bit 7 v) = unat v div 2 ^ 7" by (simp add: drop_bit_eq_div unat_div)
  moreover have "unat v div 2 ^ 7 < 2 ^ (7 * Suc n)"
    using Suc.prems by (intro less_mult_imp_div_less) (simp add: power_add)
  ultimately have "unat (drop_bit 7 v) < 2 ^ (7 * Suc n)" by simp
  from Suc.IH [OF this] show ?case using packed_head(2,4) [of v] low_high_7 [of v] by simp
qed

lemma length_packed_loop: "length (packed_loop n v) = Suc n"
  by (induction n arbitrary: v) auto

lemma packed_size_fits: "unat v < 2 ^ (7 * spinel_packed_uint_size v)"
  using unsigned_less [of v, where 'a = nat]
  by (auto simp: spinel_packed_uint_size_def word_less_nat_alt)

text \<open>
  The packed integers of Spinel decode to the value they were made from, in the number of
  bytes that the size function announces; a buffer too short for them is left alone.
\<close>

theorem spinel_packed_roundtrip:
  "(let (bs, n) = spinel_packed_uint_encode len v
    in n = spinel_packed_uint_size v \<and> (if n \<le> len then length bs = n \<and> packed_value bs = v else bs = []))"
proof -
  have "0 < spinel_packed_uint_size v" by (simp add: spinel_packed_uint_size_def)
  then obtain m where m: "spinel_packed_uint_size v = Suc m" using gr0_conv_Suc by blast
  with packed_loop_value [of v m] packed_size_fits [of v] show ?thesis
    by (simp add: spinel_packed_uint_encode_def length_packed_loop)
qed

section \<open>Descriptors\<close>

text \<open>The device is closed, resp. open, above the descriptors \<open>l\<close> that were open before.\<close>

definition dev_closed :: "int list \<Rightarrow> 'z tty_globals_scheme \<Rightarrow> bool" where
  "dev_closed l s \<longleftrightarrow> line_fds s = (- 1, l)"

definition dev_opened :: "int list \<Rightarrow> 'z tty_globals_scheme \<Rightarrow> bool" where
  "dev_opened l s \<longleftrightarrow> (\<exists>fd. line_fds s = (fd, fd # l))"

abbreviation anyE :: "'s \<Rightarrow> bool" where "anyE \<equiv> \<lambda>_. True"

lemma held_closed: "steps (same line_fds) c \<Longrightarrow> wtriple (dev_closed l) c (\<lambda>_. dev_closed l) anyE"
  by (rule triple_conseq [OF steps_inv [where R = "same line_fds" and P = "dev_closed l"]]) (simp_all add: dev_closed_def)

lemma held_opened: "steps (same line_fds) c \<Longrightarrow> wtriple (dev_opened l) c (\<lambda>_. dev_opened l) anyE"
  by (rule triple_conseq [OF steps_inv [where R = "same line_fds" and P = "dev_opened l"]]) (simp_all add: dev_opened_def)

lemma device_open_triple:
  "wtriple (dev_closed l) device_open (\<lambda>fd. if fd = - 1 then dev_closed l else dev_opened l) anyE"
proof (rule tripleI, goal_cases)
  case (1 s)
  then show ?case using device_open_spec [of s]
    by (cases "device_open s") (auto simp: dev_closed_def dev_opened_def line_fds_def fds_def)
qed

lemma device_close_triple: "wtriple (dev_opened l) device_close (\<lambda>_. dev_closed l) anyE"
  by (auto simp: gtriple_def device_close_spec dev_opened_def dev_closed_def line_fds_def)

text \<open>\<open>by_hit hit l\<close>: open after a hit, closed after a miss.\<close>

definition by_hit :: "bool \<Rightarrow> int list \<Rightarrow> 'z tty_globals_scheme \<Rightarrow> bool" where
  "by_hit hit l = (if hit then dev_opened l else dev_closed l)"

lemma close_ret_triple: "wtriple (dev_opened l) (bindC device_close (\<lambda>_. retC a)) (\<lambda>_. dev_closed l) anyE"
  by (rule triple_bindC [OF device_close_triple]) (auto intro: triple_retC)

lemma probe_triple: "wtriple (dev_opened l) (probe sm) (\<lambda>r. by_hit (fst r) l) anyE"
  unfolding probe_def
proof (intro triple_bindC [OF held_opened])
  show "steps (same line_fds) (os_usleep 20000)" "steps (same line_fds) rtkrcp_config_read"
    "steps (same line_fds) (readtoEmpty 100000)" "steps (same line_fds) (rtkrcp_config_check sm)"
    by (simp_all add: held_cfg.request_steps held.tty_steps)
  show "wtriple (dev_opened l) (case r of (ok, sm') \<Rightarrow> if ok then retC (True, sm')
      else bindC device_close (\<lambda>_. retC (False, sm'))) (\<lambda>r. by_hit (fst r) l) anyE" for r
    by (cases r) (auto simp: by_hit_def intro!: triple_retC triple_bindC [OF device_close_triple])
qed

lemma flowctl_set_closed: "wtriple (dev_closed l) (ttydevice_flowctl_set e) (\<lambda>_. dev_closed l) anyE"
  by (rule held_closed) (intro held.tty_steps)

lemma baud_set_closed: "wtriple (dev_closed l) (ttydevice_baud_set b) (\<lambda>_. dev_closed l) anyE"
  by (rule held_closed) (intro held.tty_steps)

lemma usleep_closed: "wtriple (dev_closed l) (os_usleep n) (\<lambda>_. dev_closed l) anyE"
  by (rule held_closed) (intro held.tty_steps)

text \<open>Open the device and go on: \<open>c\<close> when it fails, \<open>k\<close> with the open line.\<close>

lemma open_then:
  "wtriple (dev_closed l) c Q anyE \<Longrightarrow> wtriple (dev_opened l) k Q anyE \<Longrightarrow>
   wtriple (dev_closed l) (bindC device_open (\<lambda>fd. if fd = - 1 then c else k)) Q anyE"
  by (rule triple_bindC [OF device_open_triple]) auto

lemma try_flowctl_triple: "wtriple (dev_closed l) (try_flowctl f sm) (\<lambda>r. by_hit (fst r) l) anyE"
  unfolding try_flowctl_def
  by (intro triple_bindC [OF flowctl_set_closed] open_then probe_triple triple_retC) (simp add: by_hit_def)

lemma config_first_triple: "wtriple (dev_closed l) (config_first sm) (\<lambda>r. by_hit (fst r) l) anyE"
  unfolding config_first_def
proof (intro triple_gets_bind triple_bindC [OF baud_set_closed] triple_bindC [OF try_flowctl_triple])
  show "wtriple (by_hit (fst r) l) (case r of (hit, sm') \<Rightarrow> if hit then retC (True, sm') else try_flowctl True sm')
      (\<lambda>r. by_hit (fst r) l) anyE" for r
    using try_flowctl_triple [of l True] by (cases r) (auto simp: by_hit_def intro!: triple_retC)
qed

definition hit_state :: "hit_result \<Rightarrow> int list \<Rightarrow> 'z tty_globals_scheme \<Rightarrow> bool" where
  "hit_state r l = (case r of Hit _ \<Rightarrow> dev_opened l | _ \<Rightarrow> dev_closed l)"

lemma probe_then:
  "(\<And>sm. wtriple (dev_closed l) (k sm) (\<lambda>r. hit_state r l) anyE) \<Longrightarrow>
   wtriple (dev_opened l) (bindC (probe sm) (\<lambda>(hit, sm'). if hit then retC (Hit sm') else k sm')) (\<lambda>r. hit_state r l) anyE"
proof (rule triple_bindC [OF probe_triple])
  assume k: "\<And>sm. wtriple (dev_closed l) (k sm) (\<lambda>r. hit_state r l) anyE"
  show "wtriple (by_hit (fst r) l) (case r of (hit, sm') \<Rightarrow> if hit then retC (Hit sm') else k sm') (\<lambda>r. hit_state r l) anyE" for r
    using k by (cases r) (auto simp: by_hit_def hit_state_def intro!: triple_retC)
qed

lemma hit_baudrate_triple: "wtriple (dev_closed l) (hit_baudrate bs sm) (\<lambda>r. hit_state r l) anyE"
proof (induction bs arbitrary: sm)
  case Nil
  show ?case by (auto simp: hit_state_def intro: triple_retC)
next
  case (Cons b bs)
  have fail: "wtriple (dev_closed l) (retC OpenFailed) (\<lambda>r. hit_state r l) anyE"
    by (auto simp: hit_state_def intro: triple_retC)
  show ?case unfolding hit_baudrate.simps
    by (intro triple_bindC [OF baud_set_closed] triple_bindC [OF flowctl_set_closed] triple_bindC [OF usleep_closed]
        open_then fail probe_then Cons.IH)
qed

lemma config_apply_triple: "wtriple (dev_opened l) (config_apply sm) (\<lambda>_. dev_closed l) anyE"
proof -
  have upd: "wtriple (dev_opened l) (modifyC g) (\<lambda>_. dev_opened l) anyE" if "\<And>s. line_fds (g s) = line_fds s"
    for g :: "'z cfg_globals_scheme \<Rightarrow> 'z cfg_globals_scheme"
    using that by (intro triple_modifyC) (simp add: dev_opened_def)
  have req: "wtriple (dev_opened l) (readtoEmpty n) (\<lambda>_. dev_opened l) anyE"
    "wtriple (dev_opened l) (rtkrcp_config_write r) (\<lambda>_. dev_opened l) anyE"
    "wtriple (dev_opened l) (rtkrcp_config_check r) (\<lambda>_. dev_opened l) anyE"
    "wtriple (dev_opened l) (os_usleep us) (\<lambda>_. dev_opened l) anyE" for n r us
    by (simp_all add: held_opened held_cfg.request_steps held.tty_steps)
  have fin: "wtriple (dev_closed l) (bindC (modifyC (\<lambda>s. s\<lparr>config_param := f s\<rparr>)) (\<lambda>_. retC a)) (\<lambda>_. dev_closed l) anyE" for f a
    by (auto simp: gtriple_def cmd_defs dev_closed_def line_fds_def)
  note close = triple_bindC [OF device_close_triple]
  show ?thesis unfolding config_apply_def
    by (intro triple_if close_ret_triple triple_gets_bind triple_bindC [OF upd] triple_bindC [OF req(1)]
        triple_bindC [OF req(2)] triple_bindC [OF req(3)] triple_bindC [OF req(4)] triple_prod close
        triple_bindC [OF usleep_closed] triple_bindC [OF baud_set_closed] triple_bindC [OF flowctl_set_closed]
        open_then fin triple_retC)
      (simp_all add: line_fds_def)
qed

lemma rtkrcp_config_triple: "wtriple (dev_closed l) rtkrcp_config (\<lambda>_. dev_closed l) anyE"
proof -
  have first: "wtriple (dev_closed l) (if parsed then config_first False else retC (False, False))
      (\<lambda>r. by_hit (fst r) l) anyE" for parsed
    by (rule triple_if [OF config_first_triple triple_retC]) (simp add: by_hit_def)
  have rest: "wtriple (by_hit (fst r) l) (case r of (ret, sm') \<Rightarrow> if ret then config_apply sm'
      else bindC (hit_baudrate baudrate_table sm') (\<lambda>r. case r of
          Hit sm' \<Rightarrow> config_apply sm' | OpenFailed \<Rightarrow> retC False | Missed \<Rightarrow> exitC 254)) (\<lambda>_. dev_closed l) anyE" for r
  proof (cases r)
    case (Pair ret sm')
    have "wtriple (hit_state h l) (case h of Hit sm' \<Rightarrow> config_apply sm' | OpenFailed \<Rightarrow> retC False | Missed \<Rightarrow> exitC 254)
        (\<lambda>_. dev_closed l) anyE" for h
      by (cases h) (auto simp: hit_state_def intro!: config_apply_triple triple_retC triple_exitC)
    with Pair config_apply_triple [of l] show ?thesis
      by (auto simp: by_hit_def intro!: triple_bindC [OF hit_baudrate_triple])
  qed
  show ?thesis
    unfolding rtkrcp_config_def by (intro triple_gets_bind triple_bindC [OF first] rest)
qed

text \<open>
  C39: \<open>rtkrcp_config\<close> gives back what it takes: started with the device closed, it returns, whatever
  its result, with the device closed and the same descriptors open, on every path through its
  probes, the search for the speed, the rewriting of the configuration and its verification.
\<close>

theorem rtkrcp_config_closes:
  assumes "ttyfd s = - 1" "rtkrcp_config s = Ret ok t"
  shows "ttyfd t = - 1 \<and> open_fds (env t) = open_fds (env s)"
proof -
  have "dev_closed (open_fds (env s)) s" using assms(1) by (simp add: dev_closed_def line_fds_def)
  from triple_Ret [OF rtkrcp_config_triple this assms(2)] show ?thesis by (simp add: dev_closed_def line_fds_def)
qed

text \<open>The globals of the tool at its start.\<close>

definition param_zero :: rtk_config_param where
  "param_zero = param_of (replicate 28 0)"

definition cfg_init :: "os_env \<Rightarrow> cfg_globals" where
  "cfg_init e = tty_globals.extend (tty_init e) (cfg_globals.fields param_zero False False (replicate 512 0) 0)"

lemma cfg_init_simps [simp]:
  "env (cfg_init e) = e" "ttydevice (cfg_init e) = ttydevice_default" "ttyfd (cfg_init e) = - 1"
  "RcpConfigBin (cfg_init e) = []" "config_param (cfg_init e) = param_zero" "flowctl_enable (cfg_init e) = False"
  "parse_file_ok (cfg_init e) = False" "configResponse (cfg_init e) = replicate 512 0" "configResponseLen (cfg_init e) = 0"
  by (simp_all add: cfg_init_def tty_init_def tty_globals.extend_def cfg_globals.fields_def
      hdlc_globals.extend_def tty_globals.fields_def hdlc_init_def)

theorem rtkrcp_config_closes_witness:
  "\<exists>t. rtkrcp_config (cfg_init (os_idle\<lparr>q_open := [None]\<rparr>)) = Ret False t \<and> ttyfd t = - 1 \<and> open_fds (env t) = []"
proof -
  have "\<exists>t. rtkrcp_config (cfg_init (os_idle\<lparr>q_open := [None]\<rparr>)) = Ret False t"
    by (simp add: rtkrcp_config_def baudrate_table_def cmd_defs ttydevice_baud_set_def ttydevice_flowctl_set_def
        os_usleep_def device_open_def os_open_tty_def)
  then obtain t where t: "rtkrcp_config (cfg_init (os_idle\<lparr>q_open := [None]\<rparr>)) = Ret False t" ..
  with rtkrcp_config_closes [OF _ t] show ?thesis by (auto simp: os_idle_def)
qed

section \<open>Replies\<close>

definition reply_stored :: "bytes \<Rightarrow> 'z cfg_globals_scheme \<Rightarrow> bool" where
  "reply_stored q s \<longleftrightarrow> unat (configResponseLen s) = length q \<and> take (length q) (configResponse s) = q"

lemma getConfigReponseHandle_spec:
  assumes inv: "hdlc_inv s" and rel: "dec_rel s a" and len: "length (configResponse s) = 512"
  shows "case abs_decode bs a of
      (None, a') \<Rightarrow> \<exists>t. getConfigReponseHandle bs s = Ret False t \<and> hdlc_inv t \<and> dec_rel t a'
    | (Some q, _) \<Rightarrow> (if length q \<le> 118
        then \<exists>t. getConfigReponseHandle bs s = Ret True t \<and> hdlc_inv t \<and> reply_stored q t
        else getConfigReponseHandle bs s = Fault)"
proof -
  note spec = hdlc_decode_spec [OF inv rel, of bs HDLD_DECODE_PENDING]
  obtain r a' where ad: "abs_decode bs a = (r, a')" by (cases "abs_decode bs a")
  show ?thesis
  proof (cases r)
    case None
    with spec ad show ?thesis by (auto simp: getConfigReponseHandle_def cmd_defs)
  next
    case (Some q)
    obtain st p room where a': "a' = (st, p, room)" by (cases a') auto
    from spec ad Some a' obtain t where t: "hdlc_decode bs HDLD_DECODE_PENDING s = Ret (of_nat (length q), HDLD_DECODE_COMPLETE) t"
        "hdlc_inv t" "take (length q) (decodeBuffer t) = q" by auto
    from t(2,3) have "length q \<le> 256" by (metis dec_inv_def hdlc_inv_def length_take min.cobounded1)
    then have n: "unat (of_nat (length q) :: u16) = length q" by (simp add: unat_of_nat)
    have keep: "hdlc_inv (t\<lparr>configResponse := x, configResponseLen := y\<rparr>)" for x y
      using t(2) by (auto simp: hdlc_inv_def dec_inv_def)
    show ?thesis
      using ad Some t n keep \<open>length q \<le> 256\<close>
      by (auto simp: getConfigReponseHandle_def cmd_defs spinel_consts trace_hex_eq reply_stored_def)
  qed
qed

text \<open>
  C40: A reply of the device that decodes to more than 118 bytes makes the handler write past the
  end of its 512-byte trace line; a reply of up to 118 bytes is stored whole.
\<close>

theorem getConfigReponse_trace_overflow:
  assumes "hdlc_inv s" "dec_rel s (kStateNoSync, [], room)" "length p + 2 \<le> room" "length (configResponse s) = 512"
  shows "if length p \<le> 118
    then \<exists>t. getConfigReponseHandle (hdlc_frame p) s = Ret True t \<and>
      unat (configResponseLen t) = length p \<and> take (length p) (configResponse t) = p
    else getConfigReponseHandle (hdlc_frame p) s = Fault"
  using getConfigReponseHandle_spec [OF assms(1,2,4), of "hdlc_frame p"] assms(3)
  by (auto simp: abs_decode_frame_iff reply_stored_def)

lemma cfg_init_hdlc: "hdlc_inv (cfg_init e)" "dec_rel (cfg_init e) (kStateNoSync, [], 256)"
  by (simp_all add: cfg_init_def tty_init_def tty_globals.extend_def cfg_globals.fields_def
      hdlc_globals.extend_def tty_globals.fields_def hdlc_init_def hdlc_inv_def dec_inv_def dec_rel_def)

theorem getConfigReponse_trace_overflow_witness:
  "getConfigReponseHandle (hdlc_frame (replicate 120 0)) (cfg_init os_idle) = Fault"
  using getConfigReponse_trace_overflow [OF cfg_init_hdlc, of "replicate 120 0"] by simp

text \<open>The bytes that a sequence of answers of \<open>read\<close> delivers.\<close>

definition recv :: "read_ans list \<Rightarrow> bytes" where
  "recv rs = concat (map (\<lambda>r. case r of RdData bs \<Rightarrow> take kMaxFrameSize bs | RdErr _ \<Rightarrow> []) rs)"

lemma recv_append [simp]: "recv (rs @ rs') = recv rs @ recv rs'"
  by (simp add: recv_def)

lemma recv_single: "recv [RdData bs] = take kMaxFrameSize bs" "recv [RdErr e] = []"
  by (simp_all add: recv_def)

text \<open>
  A request that has sent \<open>out\<close> waits: the answers taken from \<open>rs0\<close> so far hold no good frame; a
  chunk has arrived; the reply is there: it is the first good frame in what was read.
\<close>

definition wait_ok :: "bytes \<Rightarrow> 'z cfg_globals_scheme \<Rightarrow> bool" where
  "wait_ok out s \<longleftrightarrow> hdlc_inv s \<and> length (configResponse s) = 512 \<and> line_out (env s) = out"

definition awaiting :: "bytes \<Rightarrow> read_ans list \<Rightarrow> abs_dec \<Rightarrow> 'z cfg_globals_scheme \<Rightarrow> bool" where
  "awaiting out rs0 a0 s \<longleftrightarrow> wait_ok out s \<and> (\<exists>rs a. rs0 = rs @ q_read (env s) \<and>
     abs_decode (recv rs) a0 = (None, a) \<and> dec_rel s a)"

definition got_chunk :: "bytes \<Rightarrow> read_ans list \<Rightarrow> abs_dec \<Rightarrow> bytes \<Rightarrow> 'z cfg_globals_scheme \<Rightarrow> bool" where
  "got_chunk out rs0 a0 bs s \<longleftrightarrow> wait_ok out s \<and> (\<exists>rs pre a. rs0 = rs @ q_read (env s) \<and> recv rs = pre @ bs \<and>
     abs_decode pre a0 = (None, a) \<and> dec_rel s a)"

definition got_reply :: "bytes \<Rightarrow> read_ans list \<Rightarrow> abs_dec \<Rightarrow> 'z cfg_globals_scheme \<Rightarrow> bool" where
  "got_reply out rs0 a0 s \<longleftrightarrow> wait_ok out s \<and> (\<exists>rs q a. rs0 = rs @ q_read (env s) \<and>
     abs_decode (recv rs) a0 = (Some q, a) \<and> reply_stored q s)"

lemma env_dec_store: "dec_store b st s = Ret u t \<Longrightarrow> env t = env s"
  by (auto simp: dec_store_def hdlc_decoder_reset_def modifyC_def split: if_splits)

lemma cfg_dec_store: "dec_store b st s = Ret u t \<Longrightarrow> configResponse t = configResponse s"
  by (auto simp: dec_store_def hdlc_decoder_reset_def modifyC_def split: if_splits)

lemma env_hdlc_decode: "hdlc_decode bs ret s = Ret nr t \<Longrightarrow> env t = env s"
proof (induction bs arbitrary: ret s)
  case (Cons b bs)
  then show ?case
    by (auto simp: bindC_def split: hdlc_dec_state.splits if_splits outcome.splits dest!: env_dec_store)
qed simp

lemma cfg_hdlc_decode: "hdlc_decode bs ret s = Ret nr t \<Longrightarrow> configResponse t = configResponse s"
proof (induction bs arbitrary: ret s)
  case (Cons b bs)
  then show ?case
    by (auto simp: bindC_def split: hdlc_dec_state.splits if_splits outcome.splits dest!: cfg_dec_store)
qed simp

lemma getConfigReponseHandle_keeps:
  assumes "getConfigReponseHandle bs s = Ret r t" "hdlc_inv s" "length (configResponse s) = 512"
  shows "env t = env s \<and> length (configResponse t) = 512"
proof -
  from assms(1) [unfolded getConfigReponseHandle_def] obtain nr u where
      u: "hdlc_decode bs HDLD_DECODE_PENDING s = Ret nr u" by (rule bindC_RetE)
  from triple_Ret [OF hdlc_decode_triple assms(2) u] have "length (decodeBuffer u) = 256"
    by (auto simp: hdlc_inv_def dec_inv_def)
  moreover have "unat (fst nr) \<le> 256"
    using triple_Ret [OF hdlc_decode_triple assms(2) u] by (auto simp: hdlc_inv_def dec_inv_def)
  ultimately show ?thesis using assms u env_hdlc_decode [OF u] cfg_hdlc_decode [OF u]
    by (auto simp: getConfigReponseHandle_def cmd_defs trace_hex_def split: prod.splits if_splits)
qed

lemma getConfigReponseHandle_returns:
  assumes "hdlc_inv s"
  shows "getConfigReponseHandle bs s = Fault \<or> (\<exists>r t. getConfigReponseHandle bs s = Ret r t)"
  using tripleD [OF hdlc_decode_triple assms, of bs HDLD_DECODE_PENDING]
  by (auto simp: getConfigReponseHandle_def cmd_defs trace_hex_def split: outcome.splits prod.splits)

interpretation reply: frame_handler True "awaiting out rs0 a0" "got_chunk out rs0 a0" getConfigReponseHandle
  "got_reply out rs0 a0" anyE for out rs0 a0
proof unfold_locales
  fix s :: "'z cfg_globals_scheme" and bs rs
  assume "awaiting out rs0 a0 s" "q_read (env s) = RdData bs # rs"
  then show "got_chunk out rs0 a0 (take kMaxFrameSize bs) (s\<lparr>env := env s\<lparr>q_read := rs\<rparr>\<rparr>)"
    unfolding awaiting_def got_chunk_def
    by (auto simp: wait_ok_def hdlc_inv_def dec_inv_def dec_rel_def recv_single intro!: exI [of _ "_ @ [RdData bs]"])
next
  fix s :: "'z cfg_globals_scheme" and r rs
  assume a: "awaiting out rs0 a0 s" "q_read (env s) = r # rs" "\<forall>bs. r = RdData bs \<longrightarrow> bs = []"
  then have "recv [r] = []" by (cases r) (simp_all add: recv_single)
  with a show "awaiting out rs0 a0 (s\<lparr>env := env s\<lparr>q_read := rs\<rparr>\<rparr>)"
    unfolding awaiting_def
    by (auto simp: wait_ok_def hdlc_inv_def dec_inv_def dec_rel_def intro!: exI [of _ "_ @ [r]"])
next
  fix bs :: bytes
  show "wtriple (got_chunk out rs0 a0 bs) (getConfigReponseHandle bs)
      (\<lambda>r. ends r (got_reply out rs0 a0) (awaiting out rs0 a0)) anyE"
  proof (rule tripleI, goal_cases)
    case (1 s)
    then obtain rs pre a where g: "wait_ok out s" "rs0 = rs @ q_read (env s)" "recv rs = pre @ bs"
        "abs_decode pre a0 = (None, a)" "dec_rel s a" by (auto simp: got_chunk_def)
    then have w: "hdlc_inv s" "length (configResponse s) = 512" by (simp_all add: wait_ok_def)
    have dec: "abs_decode (recv rs) a0 = abs_decode bs a" using g by (simp add: abs_decode_append)
    obtain q a' where ad: "abs_decode bs a = (q, a')" by (cases "abs_decode bs a")
    note spec = getConfigReponseHandle_spec [OF w(1) g(5) w(2), of bs]
    show ?case
    proof (cases "getConfigReponseHandle bs s")
      case (Ret r t)
      from getConfigReponseHandle_keeps [OF Ret w] have k: "env t = env s" "length (configResponse t) = 512" by auto
      show ?thesis using spec ad Ret k g dec
        by (cases q; cases a') (auto simp: got_reply_def awaiting_def wait_ok_def split: if_splits)
    qed (use getConfigReponseHandle_returns [OF w(1), of bs] in auto)
  qed
qed (auto simp: awaiting_def wait_ok_def hdlc_inv_def dec_inv_def dec_rel_def fd_ok_def)

lemma line_rest_hdlc:
  assumes "line_rest t = line_rest s"
  shows "hdlc_inv t = hdlc_inv s" "configResponse t = configResponse s" "remainingLen t = remainingLen s" "ttyfd t = ttyfd s"
proof -
  have "hdlc_inv (line_rest u) = hdlc_inv u" "configResponse (line_rest u) = configResponse u"
      "remainingLen (line_rest u) = remainingLen u" "ttyfd (line_rest u) = ttyfd u" for u :: "'a cfg_globals_scheme"
    by (simp_all add: line_rest_def hdlc_inv_def dec_inv_def)
  then show "hdlc_inv t = hdlc_inv s" "configResponse t = configResponse s" "remainingLen t = remainingLen s" "ttyfd t = ttyfd s"
    using assms by metis+
qed

lemma trace_hex_Ret: "trace_hex cap count n s = Ret u t \<longleftrightarrow> trace_fits cap count n \<and> t = s"
  by (auto simp: trace_hex_def retC_def faultC_def)

lemma getConfigReponse_wait:
  "wtriple (awaiting out rs0 a0) (ttyWaitForFrame tmo getConfigReponseHandle)
     (\<lambda>e. ends (e = NO_ERR) (got_reply out rs0 a0) (awaiting out rs0 a0)) anyE"
  by (rule reply.ttyWaitForFrame_triple)

text \<open>The first half of a request: the command is on the line, nothing has been read.\<close>

lemma request_sent:
  assumes "hdlc_inv s" "length (configResponse s) = 512" "fd_ok s" "length cmdBuffer \<le> 125"
    and e: "hdlc_encode cmdBuffer s = Ret (ok, aFrame) s1" and w: "ttyWrite aFrame s1 = Ret NO_ERR s2"
    and r: "hdlc_decoder_reset s2 = Ret () s3"
  shows "awaiting (line_out (env s) @ hdlc_frame cmdBuffer) (q_read (env s))
    (kStateNoSync, [], unat (remainingLen s)) s3"
proof -
  have enc: "aFrame = hdlc_frame cmdBuffer"
      "s1 = enc_set (hdlc_frame cmdBuffer) (s\<lparr>mEncFcs := fcs_of cmdBuffer XOR 0xffff\<rparr>)"
    using e assms by (auto simp: hdlc_inv_def hdlc_encode_safe)
  have len: "length aFrame \<le> 256" using assms(4) enc length_hdlc_frame [of cmdBuffer] by simp
  then have k: "length aFrame \<le> kMaxFrameSize" by (simp add: kMaxFrameSize_def)
  have s1: "hdlc_inv s1" "configResponse s1 = configResponse s" "env s1 = env s" "remainingLen s1 = remainingLen s"
      "ttyfd s1 = ttyfd s" using assms(1) len enc by (auto simp: enc_set_def hdlc_inv_def dec_inv_def)
  then have "sent (line_out (env s)) s1" using assms(3) by (simp add: sent_def fd_ok_def)
  from triple_Ret [OF ttyWrite_triple [OF k] this w]
  have out: "line_out (env s2) = line_out (env s) @ hdlc_frame cmdBuffer"
    by (auto simp: sent_some_def sent_def enc)
  have "unread s2 = unread s1" using steps_Ret [OF unread.ttyWrite_steps w] by simp
  then have q: "q_read (env s2) = q_read (env s)" and rest: "line_rest s2 = line_rest s1"
    using s1 by (simp_all add: unread_def)
  note rest = line_rest_hdlc [OF rest]
  from r out q rest s1 assms(2) show ?thesis
    by (auto simp: awaiting_def wait_ok_def hdlc_decoder_reset_def modifyC_def hdlc_inv_def dec_inv_def dec_rel_def
        recv_def)
qed

text \<open>
  C11: A configuration request that succeeds has put exactly the frame of its command on the line,
  and what it hands back is the payload of the first good frame in the bytes read after that,
  however \<open>read\<close> cut them up; it fits the buffer of the caller.
\<close>

theorem ConfigRequest_reply:
  assumes "hdlc_inv s" "length (configResponse s) = 512" "fd_ok s" "length cmdBuffer \<le> 125"
    and "ConfigRequest cmdBuffer responseLen s = Ret (Some resp) t"
  shows "line_out (env t) = line_out (env s) @ hdlc_frame cmdBuffer \<and> length resp \<le> responseLen \<and>
    (\<exists>rs a. q_read (env s) = rs @ q_read (env t) \<and>
       abs_decode (recv rs) (kStateNoSync, [], unat (remainingLen s)) = (Some resp, a))"
proof -
  let ?out = "line_out (env s) @ hdlc_frame cmdBuffer"
  let ?rep = "got_reply ?out (q_read (env s)) (kStateNoSync, [], unat (remainingLen s))"
  have tr: "trace_hex 2048 0 (length cmdBuffer) s = Ret () s"
    using assms(4) by (auto simp: trace_hex_eq retC_def)
  from assms(5) tr obtain ok aFrame s1 s2 s3 s4 where
      e: "hdlc_encode cmdBuffer s = Ret (ok, aFrame) s1" and w: "ttyWrite aFrame s1 = Ret NO_ERR s2"
      and r: "hdlc_decoder_reset s2 = Ret () s3"
      and f: "ttyWaitForFrame 1000000 getConfigReponseHandle s3 = Ret NO_ERR s4"
      and res: "t = s4" "resp = take (unat (configResponseLen s4)) (configResponse s4)" "unat (configResponseLen s4) \<le> responseLen"
    by (auto simp: ConfigRequest_def bindC_Ret_iff retC_def exitC_def getsC_def trace_hex_Ret split: if_splits)
  note a = request_sent [OF assms(1-4) e w r]
  from triple_Ret [OF getConfigReponse_wait a f] have "?rep s4" by simp
  then show ?thesis using res by (auto simp: got_reply_def wait_ok_def reply_stored_def)
qed

definition reply_env :: os_env where
  "reply_env = os_idle\<lparr>q_clock := replicate 3 (Some (0, 0)), q_select := [SelReady True False, SelReady True False],
     q_write := [WrDone 64], q_read := [RdData [0x7e, 0x07, 0x08, 0x07, 0xce, 0x7e]]\<rparr>"

lemma reply_run:
  "case ConfigRequest [1] 64 (cfg_init reply_env\<lparr>ttyfd := 3\<rparr>) of
    Ret r t \<Rightarrow> r = Some [7, 8] | _ \<Rightarrow> False"
  by code_simp

theorem ConfigRequest_reply_witness:
  "\<exists>t. ConfigRequest [1] 64 (cfg_init reply_env\<lparr>ttyfd := 3\<rparr>) = Ret (Some [7, 8]) t \<and>
     line_out (env t) = hdlc_frame [1]"
proof -
  let ?s = "cfg_init reply_env\<lparr>ttyfd := 3\<rparr>"
  obtain t where t: "ConfigRequest [1] 64 ?s = Ret (Some [7, 8]) t"
    using reply_run by (auto split: outcome.splits)
  have "hdlc_inv ?s" using cfg_init_hdlc(1) [of reply_env] by (auto simp: hdlc_inv_def dec_inv_def)
  from ConfigRequest_reply [OF this _ _ _ t] t show ?thesis by (simp add: fd_ok_def reply_env_def os_idle_def)
qed

end
