(* ===== verification/FwUpdateSub.thy ===== *)
theory FwUpdateSub
  imports RcpConfig
begin

text \<open>
  The commands of the component firmware update: \<^verbatim>\<open>FwUpdateSubProcess.c\<close> and the packet layouts
  of \<^verbatim>\<open>FwUpdate.h\<close>. The static \<open>index\<close> of each reply handler is a global of its own. A firmware
  file is read through its remaining content; reading something that is not a regular file
  fails.
\<close>

unbundle bit_operations_syntax

section \<open>Data\<close>

definition MAX_HID_CONTENT_PAYLOAD :: nat where "MAX_HID_CONTENT_PAYLOAD = 52"
definition REPORT_LENGTH_STANDARD :: nat where "REPORT_LENGTH_STANDARD = 61"
definition RTK_RCP_DEVICE :: string where "RTK_RCP_DEVICE = ''/dev/ttyRTKRCP''"

definition FIRMWARE_UPDATE_FLAG_FIRST_BLOCK :: u8 where "FIRMWARE_UPDATE_FLAG_FIRST_BLOCK = 0x80"
definition FIRMWARE_UPDATE_FLAG_LAST_BLOCK :: u8 where "FIRMWARE_UPDATE_FLAG_LAST_BLOCK = 0x40"
definition FIRMWARE_UPDATE_SUCCESS :: u8 where "FIRMWARE_UPDATE_SUCCESS = 0"
definition FIRMWARE_UPDATE_OFFER_ACCEPT :: u8 where "FIRMWARE_UPDATE_OFFER_ACCEPT = 1"

definition FwUpdateVersion_reportid :: u8 where "FwUpdateVersion_reportid = 0x2A"
definition FWUpdateContent_reportid :: u8 where "FWUpdateContent_reportid = 0x2A"
definition FWUpdateOffer_reportid :: u8 where "FWUpdateOffer_reportid = 0x2D"
definition FwUpdateVersion_LEN :: nat where "FwUpdateVersion_LEN = 60"
definition FWUpdateContentResponse_LEN :: nat where "FWUpdateContentResponse_LEN = 16"
definition FWUpdateOfferResponse_LEN :: nat where "FWUpdateOfferResponse_LEN = 16"

lemmas fw_consts =
  MAX_HID_CONTENT_PAYLOAD_def REPORT_LENGTH_STANDARD_def RTK_RCP_DEVICE_def
  FIRMWARE_UPDATE_FLAG_FIRST_BLOCK_def FIRMWARE_UPDATE_FLAG_LAST_BLOCK_def FIRMWARE_UPDATE_SUCCESS_def
  FIRMWARE_UPDATE_OFFER_ACCEPT_def FwUpdateVersion_reportid_def FWUpdateContent_reportid_def
  FWUpdateOffer_reportid_def FwUpdateVersion_LEN_def FWUpdateContentResponse_LEN_def FWUpdateOfferResponse_LEN_def

record ContentData =
  cd_flags :: u8
  cd_length :: u8
  sequenceNumber :: u16
  address :: u32
  cd_data :: bytes

text \<open>The packed report: identifier, flags, length, sequence number, address, 52 bytes of data.\<close>

definition content_bytes :: "u8 \<Rightarrow> ContentData \<Rightarrow> bytes" where
  "content_bytes rid cd =
     [rid, cd_flags cd, cd_length cd] @ le_bytes 2 (sequenceNumber cd) @ le_bytes 4 (address cd) @ cd_data cd"

record T_IMAGE_VERSION =
  is_dualbank :: bool
  version :: u32

record fw_globals = cfg_globals +
  repBuff :: bytes
  version_index :: u8
  offer_index :: u8
  content_index :: u8

section \<open>Reply handlers\<close>

definition getRemainDataHandle :: "'z fw_globals_scheme handler" where
  "getRemainDataHandle buff = retC (length buff = kMaxFrameSize)"

text \<open>
  The common body of the three handlers: the reply of \<open>replen\<close> bytes is collected in \<open>repBuff\<close>
  through an index that survives the call; a chunk that does not fit ends the program. The
  complete reply is rendered into a trace line of \<open>cap\<close> bytes behind \<open>pre\<close> characters.
\<close>

definition collect_reply ::
  "nat \<Rightarrow> nat \<Rightarrow> nat \<Rightarrow> ('z fw_globals_scheme \<Rightarrow> u8) \<Rightarrow>
   ((u8 \<Rightarrow> u8) \<Rightarrow> 'z fw_globals_scheme \<Rightarrow> 'z fw_globals_scheme) \<Rightarrow> 'z fw_globals_scheme handler" where
  "collect_reply replen cap pre idx upd buff =
     bindC (getsC idx) (\<lambda>index.
       if unat index + length buff \<ge> replen + 1 then exitC 1
       else if unat index + length buff > REPORT_LENGTH_STANDARD then faultC
       else
         bindC (modifyC (\<lambda>s. s\<lparr>repBuff :=
           take (unat index) (repBuff s) @ buff @ drop (unat index + length buff) (repBuff s)\<rparr>)) (\<lambda>_.
         bindC (modifyC (upd (\<lambda>i. i + of_nat (length buff)))) (\<lambda>_.
         bindC (getsC idx) (\<lambda>index.
           if unat index = replen
           then bindC (trace_hex cap pre replen) (\<lambda>_. bindC (modifyC (upd (\<lambda>_. 0))) (\<lambda>_. retC True))
           else retC False))))"

definition getVersionReponseHandle :: "'z fw_globals_scheme handler" where
  "getVersionReponseHandle = collect_reply (FwUpdateVersion_LEN + 1) 512 41 version_index version_index_update"

definition getOfferReponseHandle :: "'z fw_globals_scheme handler" where
  "getOfferReponseHandle = collect_reply (FWUpdateOfferResponse_LEN + 1) 256 39 offer_index offer_index_update"

definition ReponseHandle :: "'z fw_globals_scheme handler" where
  "ReponseHandle = collect_reply (FWUpdateContentResponse_LEN + 1) 256 31 content_index content_index_update"

section \<open>Firmware files\<close>

text \<open>
  One block of a firmware file. \<open>pBuff\<close> is one buffer for the three reads, so that a short read
  leaves what the earlier ones put there.
\<close>

datatype srec_result = SrecExit | SrecEnd ContentData | SrecBlock ContentData bytes

definition ProcessSrecBin :: "bytes \<Rightarrow> ContentData \<Rightarrow> srec_result" where
  "ProcessSrecBin src cd =
     (let cd = cd\<lparr>cd_length := 0\<rparr>; got = take 4 src; src = drop 4 src
      in if got = [] then SrecEnd cd
      else (let pBuff = got @ replicate (64 - length got) 0; cd = cd\<lparr>address := le_word (take 4 pBuff)\<rparr>
        in case src of
          [] \<Rightarrow> SrecExit
        | len # src \<Rightarrow>
            (let pBuff = len # tl pBuff; cd = cd\<lparr>cd_length := len\<rparr>
             in if len = 0 then SrecEnd cd
                else if 52 < len then SrecExit
                else (let got = take (unat len) src; src = drop (unat len) src
                  in if got = [] then SrecExit
                     else (let pBuff = got @ drop (length got) pBuff
                       in SrecBlock (cd\<lparr>cd_data := take (unat len) pBuff @ drop (unat len) (cd_data cd)\<rparr>) src)))))"

lemma ProcessSrecBin_shorter: "ProcessSrecBin src cd = SrecBlock cd' src' \<Longrightarrow> length src' < length src"
  by (auto simp: ProcessSrecBin_def Let_def split: if_splits list.splits)
    (metis Suc_lessD diff_less_Suc length_Cons length_drop less_le_trans diff_le_self)

section \<open>Commands\<close>

text \<open>Polling for the device node, as long as the environment answers.\<close>

fun wait_device :: "string \<Rightarrow> bool list \<Rightarrow> ('z fw_globals_scheme, unit) cmd" where
  "wait_device path [] = bindC (os_access path) (\<lambda>_. Blocked)"
| "wait_device path (_ # q) =
     bindC (os_access path) (\<lambda>up. if up then retC () else bindC (os_usleep 200000) (\<lambda>_. wait_device path q))"

definition wait_for_device :: "string \<Rightarrow> ('z fw_globals_scheme, unit) cmd" where
  "wait_for_device path = bindC (getsC (\<lambda>s. q_access (env s))) (\<lambda>q. wait_device path q)"

text \<open>
  The loop that drops what the device still sends: another turn after every full buffer. Each
  turn that goes on has taken an answer of \<open>select\<close>, so their number is fuel enough.
\<close>

fun drain_loop :: "nat \<Rightarrow> ('z fw_globals_scheme, unit) cmd" where
  "drain_loop 0 = Blocked"
| "drain_loop (Suc n) =
     bindC (ttyWaitForFrame 1000000 getRemainDataHandle) (\<lambda>err.
       if err = NO_ERR then drain_loop n else retC ())"

definition drain :: "('z fw_globals_scheme, unit) cmd" where
  "drain = bindC (getsC (\<lambda>s. length (q_select (env s)))) (\<lambda>n. drain_loop (Suc n))"

definition enter_cmd :: bytes where
  "enter_cmd = [0x7e, 0x85, 0x03, 0x83, 0x78, 0x03, 0x00, 0x5d, 0x00, 0x01, 0x0b, 0x37, 0x7e]"

definition EnterFwUpdateMode :: "('z fw_globals_scheme, bool) cmd" where
  "EnterFwUpdateMode =
     bindC (ttyWrite enter_cmd) (\<lambda>err.
       if err \<noteq> NO_ERR then retC False
       else bindC (getsC (\<lambda>s. ttyGetDeviceName s 48)) (\<lambda>dev. case dev of
           None \<Rightarrow> retC False
         | Some (ttydevname, _) \<Rightarrow>
             bindC (if ttydevname = RTK_RCP_DEVICE
                    then bindC device_close (\<lambda>_.
                         bindC (os_usleep 200000) (\<lambda>_.
                         bindC (wait_for_device ttydevname) (\<lambda>_.
                         bindC device_open (\<lambda>_. retC ()))))
                    else retC ()) (\<lambda>_.
             bindC drain (\<lambda>_. retC True))))"

text \<open>The first 16 bytes of an offer file, or \<open>None\<close> when it cannot be read or is shorter.\<close>

definition LoadOffer :: "string \<Rightarrow> ('z fw_globals_scheme, bytes option) cmd" where
  "LoadOffer OfferPath = getsC (\<lambda>s. case files (env s) OfferPath of
     Some (Regular content) \<Rightarrow> if 16 \<le> length content then Some (take 16 content) else None
   | _ \<Rightarrow> None)"

text \<open>
  The offer report: the identifier, then the 16 bytes of the file with bit 6 and bit 7 of their
  second byte replaced by the two force flags.
\<close>

definition offer_report :: "bytes \<Rightarrow> u8 \<Rightarrow> u8 \<Rightarrow> bytes" where
  "offer_report readBuff ForceIgnoreVersion ForceReset =
     (let b = (readBuff ! 1 AND 0x3f) OR push_bit 6 (ForceReset AND 1) OR push_bit 7 (ForceIgnoreVersion AND 1)
      in FWUpdateOffer_reportid # readBuff[1 := b])"

text \<open>The result is the return value and the new \<open>*UpdateOfferStatus\<close> (byte 13 of the reply).\<close>

definition FwUpdateOffer :: "string \<Rightarrow> u8 \<Rightarrow> u8 \<Rightarrow> u8 \<Rightarrow> ('z fw_globals_scheme, bool \<times> u8) cmd" where
  "FwUpdateOffer OfferPath ForceIgnoreVersion ForceReset UpdateOfferStatus =
     bindC (getsC (\<lambda>s. files (env s) OfferPath)) (\<lambda>f. case f of
       Some (Regular content) \<Rightarrow>
         (if length content < 16 then retC (False, UpdateOfferStatus)
          else bindC (ttyWrite (offer_report (take 16 content) ForceIgnoreVersion ForceReset)) (\<lambda>err.
            if err \<noteq> NO_ERR then retC (False, UpdateOfferStatus)
            else bindC (ttyWaitForFrame 2000000 getOfferReponseHandle) (\<lambda>err.
              if err = NO_ERR then getsC (\<lambda>s. (True, repBuff s ! 13)) else retC (False, UpdateOfferStatus))))
     | _ \<Rightarrow> retC (False, UpdateOfferStatus))"

text \<open>The first pass over the file: the number of blocks, or \<open>None\<close> where the program exits.\<close>

function srec_count :: "bytes \<Rightarrow> ContentData \<Rightarrow> (nat \<times> ContentData) option" where
  "srec_count src cd = (case ProcessSrecBin src cd of
     SrecExit \<Rightarrow> None
   | SrecEnd cd \<Rightarrow> Some (0, cd)
   | SrecBlock cd src' \<Rightarrow> map_option (\<lambda>(n, cd). (Suc n, cd)) (srec_count src' cd))"
  by pat_completeness auto
termination
  by (relation "measure (\<lambda>(src, cd). length src)") (auto dest: ProcessSrecBin_shorter)

declare srec_count.simps [simp del]

text \<open>
  The block as it is sent: the flags, and the address relative to the first block's. The last
  block's flag replaces the first block's.
\<close>

definition content_packet :: "ContentData \<Rightarrow> u32 \<Rightarrow> u32 \<Rightarrow> u32 \<Rightarrow> ContentData \<times> u32" where
  "content_packet cd contentPacketsSent totalContentPacketCount startAddress =
     (let first = (contentPacketsSent = 0);
          startAddress = (if first then address cd else startAddress);
          flags = (if first then FIRMWARE_UPDATE_FLAG_FIRST_BLOCK else 0);
          flags = (if contentPacketsSent + 1 = totalContentPacketCount then FIRMWARE_UPDATE_FLAG_LAST_BLOCK else flags)
      in (cd\<lparr>cd_flags := flags, address := address cd - startAddress\<rparr>, startAddress))"

text \<open>
  The division of two counters in floating point: by 0 it gives an infinity or, for 0 / 0, no
  number, and neither is less than anything finite. Otherwise the fraction is kept; for 32-bit
  counters the rounding of the quotient does not change a comparison with 100.
\<close>

datatype quotient = NotANumber | Infinite | Fraction nat nat

definition fdiv :: "nat \<Rightarrow> nat \<Rightarrow> quotient" where
  "fdiv a b = (if b \<noteq> 0 then Fraction a b else if a = 0 then NotANumber else Infinite)"

fun fless :: "quotient \<Rightarrow> nat \<Rightarrow> bool" where
  "fless NotANumber c = False"
| "fless Infinite c = False"
| "fless (Fraction a b) c = (a < c * b)"

text \<open>
  The second pass. A reply with a bad status or no reply ends it; a reply with another sequence
  number is only logged.
\<close>

function send_blocks ::
  "bytes \<Rightarrow> ContentData \<Rightarrow> u32 \<Rightarrow> u32 \<Rightarrow> u32 \<Rightarrow> ('z fw_globals_scheme, bool) cmd" where
  "send_blocks src cd contentPacketsSent totalContentPacketCount startAddress =
     (case ProcessSrecBin src cd of
       SrecExit \<Rightarrow> exitC 1
     | SrecEnd cd \<Rightarrow>
         retC (\<not> fless (fdiv (unat contentPacketsSent * 100) (unat totalContentPacketCount)) 100)
     | SrecBlock cd src' \<Rightarrow>
         (let (cd, startAddress) = content_packet cd contentPacketsSent totalContentPacketCount startAddress
          in bindC (ttyWrite (content_bytes FWUpdateContent_reportid cd)) (\<lambda>err.
             if err \<noteq> NO_ERR then retC False
             else bindC (ttyWaitForFrame 2000000 ReponseHandle) (\<lambda>err.
               if err \<noteq> NO_ERR then retC False
               else bindC (getsC (\<lambda>s. repBuff s ! 5)) (\<lambda>status.
                 if status \<noteq> FIRMWARE_UPDATE_SUCCESS then retC False
                 else send_blocks src' (cd\<lparr>sequenceNumber := sequenceNumber cd + 1\<rparr>)
                        (contentPacketsSent + 1) totalContentPacketCount startAddress)))))"
  by pat_completeness auto
termination
  by (relation "measure (\<lambda>(src, _). length src)") (auto dest: ProcessSrecBin_shorter)

declare send_blocks.simps [simp del]

definition content_init :: ContentData where
  "content_init = \<lparr>cd_flags = FIRMWARE_UPDATE_FLAG_FIRST_BLOCK, cd_length = 0, sequenceNumber = 0, address = 0,
     cd_data = replicate 52 0\<rparr>"

definition FwUpdateSrc :: "string \<Rightarrow> u8 \<Rightarrow> u8 \<Rightarrow> ('z fw_globals_scheme, bool) cmd" where
  "FwUpdateSrc SrcBinPath ForceIgnoreVersion ForceReset =
     bindC (getsC (\<lambda>s. files (env s) SrcBinPath)) (\<lambda>f. case f of
       None \<Rightarrow> retC False
     | Some Unreadable \<Rightarrow> exitC 1
     | Some (Regular content) \<Rightarrow>
         (case srec_count content content_init of
            None \<Rightarrow> exitC 1
          | Some (n, cd) \<Rightarrow> send_blocks content cd 0 (of_nat n) 0))"

definition FwGetVerison :: "('z fw_globals_scheme, T_IMAGE_VERSION option) cmd" where
  "FwGetVerison =
     bindC (ttyWrite [FwUpdateVersion_reportid]) (\<lambda>err.
       if err \<noteq> NO_ERR then retC None
       else bindC (ttyWaitForFrame 2000000 getVersionReponseHandle) (\<lambda>err.
         if err \<noteq> NO_ERR then retC None
         else bindC (trace_hex 512 16 (FwUpdateVersion_LEN + 1)) (\<lambda>_.
           getsC (\<lambda>s. Some \<lparr>is_dualbank = (repBuff s ! 9 AND 0x3 \<noteq> 2), version = le_word (take 4 (drop 5 (repBuff s)))\<rparr>))))"

section \<open>Consumption of the environment\<close>

locale fw_calm = cfg_calm R for R :: "'z fw_globals_scheme \<Rightarrow> 'z fw_globals_scheme \<Rightarrow> bool"
begin

lemma remain_steps: "steps R (getRemainDataHandle bs)"
  unfolding getRemainDataHandle_def by (intro steps_rules)

lemma reply_steps: "steps R (getVersionReponseHandle bs)" "steps R (getOfferReponseHandle bs)" "steps R (ReponseHandle bs)"
  unfolding getVersionReponseHandle_def getOfferReponseHandle_def ReponseHandle_def collect_reply_def
  by (intro steps_rules tty_steps calm; simp)+

lemma wait_for_device_steps: "steps R (wait_for_device path)"
proof -
  have "steps R (wait_device path q)" for q
    by (induction q) (auto intro!: steps_rules tty_steps)
  then show ?thesis unfolding wait_for_device_def by (intro steps_rules)
qed

lemma drain_steps: "steps R drain"
proof -
  have "steps R (drain_loop n)" for n
    by (induction n) (auto intro!: steps_rules tty_steps remain_steps)
  then show ?thesis unfolding drain_def by (intro steps_rules)
qed

lemma LoadOffer_steps: "steps R (LoadOffer path)"
  unfolding LoadOffer_def by (intro steps_rules)

lemma FwUpdateOffer_steps: "steps R (FwUpdateOffer path a b c)"
  unfolding FwUpdateOffer_def by (auto intro!: steps_rules tty_steps reply_steps split: option.split unode.split)

lemma send_blocks_steps: "steps R (send_blocks src cd n m a)"
proof (induction "length src" arbitrary: src cd n a rule: less_induct)
  case less
  have "steps R (send_blocks src' cd' n' m a')" if "ProcessSrecBin src cd = SrecBlock c src'" for c src' cd' n' a'
    using less ProcessSrecBin_shorter [OF that] by blast
  then show ?case
    by (subst send_blocks.simps)
      (auto simp: Let_def intro!: steps_rules tty_steps reply_steps split: srec_result.split)
qed

lemma FwUpdateSrc_steps: "steps R (FwUpdateSrc path a b)"
  unfolding FwUpdateSrc_def
  by (auto intro!: steps_rules send_blocks_steps split: option.split unode.split)

lemma FwGetVerison_steps: "steps R FwGetVerison"
  unfolding FwGetVerison_def by (intro steps_rules tty_steps reply_steps)

end

locale fw_order = cfg_order R for R :: "'z fw_globals_scheme \<Rightarrow> 'z fw_globals_scheme \<Rightarrow> bool"

sublocale fw_order \<subseteq> fw_calm ..

context fw_order
begin

lemma EnterFwUpdateMode_steps: "steps R EnterFwUpdateMode"
  unfolding EnterFwUpdateMode_def by (intro steps_rules tty_steps device_steps wait_for_device_steps drain_steps)

end

interpretation fewer_fw: fw_order fewer_answers ..

interpretation held_fw: fw_calm "same line_fds" ..

section \<open>Replies\<close>

text \<open>
  The index of a reply handler as a field of its own, and the collection of a reply of \<open>replen\<close>
  bytes: what has arrived so far stands at the front of \<open>repBuff\<close>; the reply is complete.
\<close>

definition buffered :: "('z fw_globals_scheme \<Rightarrow> u8) \<Rightarrow> bytes \<Rightarrow> 'z fw_globals_scheme \<Rightarrow> bool" where
  "buffered idx p s \<longleftrightarrow> length (repBuff s) = 61 \<and> unat (idx s) = length p \<and> take (length p) (repBuff s) = p"

definition collecting ::
  "('z fw_globals_scheme \<Rightarrow> u8) \<Rightarrow> nat \<Rightarrow> bytes \<Rightarrow> read_ans list \<Rightarrow> bytes \<Rightarrow> 'z fw_globals_scheme \<Rightarrow> bool" where
  "collecting idx replen out rs0 bs s \<longleftrightarrow> sent out s \<and>
     (\<exists>rs p. rs0 = rs @ q_read (env s) \<and> recv rs = p @ bs \<and> length p < replen \<and> buffered idx p s)"

definition collected ::
  "('z fw_globals_scheme \<Rightarrow> u8) \<Rightarrow> nat \<Rightarrow> bytes \<Rightarrow> read_ans list \<Rightarrow> 'z fw_globals_scheme \<Rightarrow> bool" where
  "collected idx replen out rs0 s \<longleftrightarrow> sent out s \<and>
     (\<exists>rs. rs0 = rs @ q_read (env s) \<and> length (recv rs) = replen \<and> take replen (repBuff s) = recv rs \<and>
        length (repBuff s) = 61 \<and> idx s = 0)"

locale reply_index =
  fixes idx :: "'z fw_globals_scheme \<Rightarrow> u8"
    and upd :: "(u8 \<Rightarrow> u8) \<Rightarrow> 'z fw_globals_scheme \<Rightarrow> 'z fw_globals_scheme"
    and replen cap pre :: nat
  assumes idx_upd: "idx (upd f s) = f (idx s)"
    and upd_rest: "repBuff (upd f s) = repBuff s" "env (upd f s) = env s" "ttyfd (upd f s) = ttyfd s"
    and idx_rest: "idx (s\<lparr>repBuff := b\<rparr>) = idx s" "idx (s\<lparr>env := e\<rparr>) = idx s"
    and sizes: "0 < replen" "replen \<le> 61" "pre + 4 * replen < cap" "cap \<le> 512"
begin

lemma trace_ok: "trace_hex cap pre replen = retC ()"
  using sizes by (subst trace_hex_eq) auto

lemma collect_buffered:
  assumes "buffered idx p s" "length p < replen" "bs \<noteq> []"
  shows "if length p + length bs \<le> replen
    then \<exists>t. collect_reply replen cap pre idx upd bs s = Ret (length p + length bs = replen) t \<and>
      env t = env s \<and> ttyfd t = ttyfd s \<and> length (repBuff t) = 61 \<and>
      take (length p + length bs) (repBuff t) = p @ bs \<and>
      unat (idx t) = (if length p + length bs = replen then 0 else length p + length bs)
    else collect_reply replen cap pre idx upd bs s = Exit 1 s"
proof -
  have w: "unat (idx s + word_of_nat (length bs)) = length p + length bs" if "length p + length bs \<le> replen"
    using that assms sizes unfolding buffered_def by (subst unat_add_lem [THEN iffD1]) (auto simp: unat_of_nat)
  show ?thesis using assms sizes w
    by (auto simp: collect_reply_def buffered_def cmd_defs REPORT_LENGTH_STANDARD_def idx_upd upd_rest idx_rest trace_ok)
qed

end

interpretation version_reply: reply_index version_index version_index_update "FwUpdateVersion_LEN + 1" 512 41
  by unfold_locales (simp_all add: fw_consts)

interpretation offer_reply: reply_index offer_index offer_index_update "FWUpdateOfferResponse_LEN + 1" 256 39
  by unfold_locales (simp_all add: fw_consts)

interpretation content_reply: reply_index content_index content_index_update "FWUpdateContentResponse_LEN + 1" 256 31
  by unfold_locales (simp_all add: fw_consts)

lemma buffered_env [simp]:
  "(\<And>e. idx (s\<lparr>env := e\<rparr>) = idx s) \<Longrightarrow> buffered idx p (s\<lparr>env := e\<rparr>) = buffered idx p s"
  by (simp add: buffered_def)

sublocale reply_index \<subseteq> frame_handler False "collecting idx replen out rs0 []" "collecting idx replen out rs0"
  "collect_reply replen cap pre idx upd" "collected idx replen out rs0" "sent out" for out rs0
proof unfold_locales
  fix s bs rs
  assume "collecting idx replen out rs0 [] s" "q_read (env s) = RdData bs # rs"
  then show "collecting idx replen out rs0 (take kMaxFrameSize bs) (s\<lparr>env := env s\<lparr>q_read := rs\<rparr>\<rparr>)"
    unfolding collecting_def
    by (fastforce simp: sent_def fd_ok_def recv_single idx_rest intro: exI [of _ "_ @ [RdData bs]"])
next
  fix s r rs
  assume a: "collecting idx replen out rs0 [] s" "q_read (env s) = r # rs" "\<forall>bs. r = RdData bs \<longrightarrow> bs = []"
  then have "recv [r] = []" by (cases r) (simp_all add: recv_single)
  with a show "collecting idx replen out rs0 [] (s\<lparr>env := env s\<lparr>q_read := rs\<rparr>\<rparr>)"
    unfolding collecting_def
    by (fastforce simp: sent_def fd_ok_def idx_rest intro: exI [of _ "_ @ [r]"])
next
  fix bs :: bytes
  assume "bs \<noteq> []"
  show "triple (collecting idx replen out rs0 bs) (collect_reply replen cap pre idx upd bs)
      (\<lambda>r. ends r (collected idx replen out rs0) (collecting idx replen out rs0 [])) (sent out)"
  proof (rule tripleI, goal_cases)
    case (1 s)
    then obtain rs p where p: "sent out s" "rs0 = rs @ q_read (env s)" "recv rs = p @ bs" "length p < replen"
        "buffered idx p s" by (auto simp: collecting_def)
    from collect_buffered [OF p(5,4) \<open>bs \<noteq> []\<close>] p show ?case
      by (auto simp: collecting_def collected_def sent_def fd_ok_def buffered_def ends_def unat_eq_zero
          split: if_splits)
  qed
qed (auto simp: collecting_def sent_def fd_ok_def idx_rest)

context reply_index
begin

text \<open>A command and its reply: the frame goes out, and exactly one reply comes in.\<close>

lemma exchange:
  assumes "buffered idx [] s" "sent out s" "length aFrame \<le> 512"
    and w: "ttyWrite aFrame s = Ret NO_ERR s1"
    and f: "ttyWaitForFrame tmo (collect_reply replen cap pre idx upd) s1 = Ret NO_ERR s2"
  shows "collected idx replen (out @ aFrame) (q_read (env s)) s2"
proof -
  have k: "length aFrame \<le> kMaxFrameSize" using assms(3) by (simp add: kMaxFrameSize_def)
  from triple_Ret [OF ttyWrite_triple [OF k] assms(2) w] have out: "sent (out @ aFrame) s1"
    by (auto simp: sent_some_def)
  have "unread s1 = unread s" using steps_Ret [OF unread.ttyWrite_steps w] by simp
  then have q: "q_read (env s1) = q_read (env s)" and rest: "line_rest s1 = line_rest s" by (simp_all add: unread_def)
  from rest have "idx (line_rest s1) = idx (line_rest s)" "repBuff (line_rest s1) = repBuff (line_rest s)" by simp_all
  then have "buffered idx [] s1" using assms(1) by (simp add: buffered_def line_rest_def idx_rest)
  then have "collecting idx replen (out @ aFrame) (q_read (env s)) [] s1"
    using out q sizes by (auto simp: collecting_def recv_def)
  from triple_Ret [OF ttyWaitForFrame_triple this f] show ?thesis by simp
qed

end

lemma collectedE:
  assumes "collected idx n out rs0 s"
  obtains rs where "sent out s" "rs0 = rs @ q_read (env s)" "length (recv rs) = n"
    "\<And>i. i < n \<Longrightarrow> repBuff s ! i = recv rs ! i" "length (repBuff s) = 61" "idx s = 0"
proof -
  from assms obtain rs where rs: "sent out s" "rs0 = rs @ q_read (env s)" "length (recv rs) = n"
      "take n (repBuff s) = recv rs" "length (repBuff s) = 61" "idx s = 0" by (auto simp: collected_def)
  from rs(4) [symmetric] have "repBuff s ! i = recv rs ! i" if "i < n" for i using that by simp
  then show thesis using rs that by blast
qed

lemma length_offer_report: "length (offer_report buf a b) = Suc (length buf)"
  by (simp add: offer_report_def Let_def)

text \<open>
  C15: An offer that is answered has sent the offer report of the first 16 bytes of the file and
  nothing else; exactly one reply of 17 bytes was read, whatever pieces it came in, and the status
  is its byte 13. The index of the handler is back at 0 for the next offer.
\<close>

theorem FwUpdateOffer_exchange:
  assumes "files (env s) OfferPath = Some (Regular content)" "fd_ok s" "length (repBuff s) = 61" "offer_index s = 0"
    and "FwUpdateOffer OfferPath ForceIgnoreVersion ForceReset st s = Ret (True, st') t"
  shows "line_out (env t) = line_out (env s) @ offer_report (take 16 content) ForceIgnoreVersion ForceReset \<and>
    offer_index t = 0 \<and> length (repBuff t) = 61 \<and>
    (\<exists>rs. q_read (env s) = rs @ q_read (env t) \<and> length (recv rs) = 17 \<and> st' = recv rs ! 13)"
proof -
  let ?r = "offer_report (take 16 content) ForceIgnoreVersion ForceReset"
  from assms(1,5) obtain s1 where w: "ttyWrite ?r s = Ret NO_ERR s1"
      and f: "ttyWaitForFrame 2000000 getOfferReponseHandle s1 = Ret NO_ERR t" and st: "st' = repBuff t ! 13"
    by (auto simp: FwUpdateOffer_def bindC_Ret_iff getsC_def retC_def split: if_splits)
  have "collected offer_index 17 (line_out (env s) @ ?r) (q_read (env s)) t"
    using offer_reply.exchange [OF _ _ _ w f [unfolded getOfferReponseHandle_def], of "line_out (env s)"] assms
    by (simp add: buffered_def sent_def length_offer_report FWUpdateOfferResponse_LEN_def)
  then show ?thesis by (rule collectedE) (use st in \<open>auto simp: sent_def\<close>)
qed

text \<open>The states a witness starts from, and a file with an offer.\<close>

definition fw_init :: "os_env \<Rightarrow> fw_globals" where
  "fw_init e = cfg_globals.extend (cfg_init e) (fw_globals.fields (replicate 61 0) 0 0 0)"

lemma fw_init_simps [simp]:
  "env (fw_init e) = e" "ttyfd (fw_init e) = - 1" "repBuff (fw_init e) = replicate 61 0"
  "version_index (fw_init e) = 0" "offer_index (fw_init e) = 0" "content_index (fw_init e) = 0"
  by (simp_all add: fw_init_def cfg_globals.extend_def fw_globals.fields_def cfg_init_def tty_init_def
      tty_globals.extend_def cfg_globals.fields_def hdlc_globals.extend_def tty_globals.fields_def hdlc_init_def)

definition offer_env :: os_env where
  "offer_env = os_idle\<lparr>q_clock := replicate 4 (Some (0, 0)), q_select := [SelReady True False, SelReady True False],
     q_write := [WrDone 17], q_read := [RdData (replicate 13 0), RdData [1, 0, 0, 0]],
     files := [''a.offer.bin'' \<mapsto> Regular (replicate 16 2)]\<rparr>"

lemma offer_run:
  "case FwUpdateOffer ''a.offer.bin'' 1 0 0 (fw_init offer_env\<lparr>ttyfd := 3\<rparr>) of
    Ret r t \<Rightarrow> r = (True, 1) | _ \<Rightarrow> False"
  by code_simp

theorem FwUpdateOffer_exchange_witness:
  "\<exists>t. FwUpdateOffer ''a.offer.bin'' 1 0 0 (fw_init offer_env\<lparr>ttyfd := 3\<rparr>) = Ret (True, 1) t \<and>
     line_out (env t) = offer_report (replicate 16 2) 1 0"
proof -
  let ?s = "fw_init offer_env\<lparr>ttyfd := 3\<rparr>"
  obtain t where t: "FwUpdateOffer ''a.offer.bin'' 1 0 0 ?s = Ret (True, 1) t"
    using offer_run by (auto split: outcome.splits)
  from FwUpdateOffer_exchange [OF _ _ _ _ t, of "replicate 16 2"] t show ?thesis
    by (simp add: fd_ok_def offer_env_def os_idle_def)
qed

section \<open>Transfer of a payload\<close>

text \<open>
  A payload file is a sequence of blocks: an address, a length, that many bytes. Reference: the
  file of a list of blocks, and the reports it should become. A report always has 52 bytes of
  data; those behind a short block are what earlier blocks left there (\<open>pad\<close>).
\<close>

type_synonym srec = "u32 \<times> bytes"

definition srec_ok :: "srec \<Rightarrow> bool" where
  "srec_ok b \<longleftrightarrow> 0 < length (snd b) \<and> length (snd b) \<le> 52"

definition srec_bytes :: "srec list \<Rightarrow> bytes" where
  "srec_bytes bs = concat (map (\<lambda>(a, d). le_bytes 4 a @ of_nat (length d) # d) bs)"

definition overlay :: "bytes \<Rightarrow> srec \<Rightarrow> bytes" where
  "overlay pad b = snd b @ drop (length (snd b)) pad"

definition block_flags :: "nat \<Rightarrow> nat \<Rightarrow> u8" where
  "block_flags n i = (if i + 1 = n then 0x40 else if i = 0 then 0x80 else 0)"

fun reports :: "nat \<Rightarrow> u32 \<Rightarrow> nat \<Rightarrow> bytes \<Rightarrow> srec list \<Rightarrow> bytes" where
  "reports n start i pad [] = []"
| "reports n start i pad (b # bs) =
     [0x2A, block_flags n i, of_nat (length (snd b))] @ le_bytes 2 (of_nat i :: u16) @ le_bytes 4 (fst b - start) @
     overlay pad b @ reports n start (Suc i) (overlay pad b) bs"

lemma srec_bytes_Cons: "srec_bytes (b # bs) = le_bytes 4 (fst b) @ of_nat (length (snd b)) # snd b @ srec_bytes bs"
  by (cases b) (simp add: srec_bytes_def)

lemma ProcessSrecBin_Nil: "ProcessSrecBin [] cd = SrecEnd (cd\<lparr>cd_length := 0\<rparr>)"
  by (simp add: ProcessSrecBin_def Let_def)

lemma ProcessSrecBin_block:
  assumes "srec_ok b"
  shows "ProcessSrecBin (srec_bytes (b # bs)) cd = SrecBlock
    (cd\<lparr>cd_length := of_nat (length (snd b)), address := fst b, cd_data := overlay (cd_data cd) b\<rparr>) (srec_bytes bs)"
proof -
  have n: "unat (of_nat (length (snd b)) :: u8) = length (snd b)" "(of_nat (length (snd b)) :: u8) \<noteq> 0"
      "\<not> (52 :: u8) < of_nat (length (snd b))" "snd b \<noteq> []"
    using assms by (auto simp: srec_ok_def unat_of_nat word_less_nat_alt unat_eq_zero [symmetric])
  have l: "length (le_bytes 4 (fst b)) = 4" "le_word (le_bytes 4 (fst b)) = fst b"
    by (simp_all add: le_word_le_bytes)
  then have g: "take 4 (le_bytes 4 (fst b) @ xs) = le_bytes 4 (fst b)" "drop 4 (le_bytes 4 (fst b) @ xs) = xs"
      for xs by simp_all
  have ne: "le_bytes 4 (fst b) \<noteq> []" using l(1) by (metis list.size(3) zero_neq_numeral)
  show ?thesis unfolding ProcessSrecBin_def Let_def srec_bytes_Cons g
    using n l ne by (simp add: overlay_def)
qed

lemma srec_count_blocks:
  "list_all srec_ok bs \<Longrightarrow> \<exists>c. srec_count (srec_bytes bs) cd = Some (length bs, c) \<and>
     sequenceNumber c = sequenceNumber cd \<and> cd_data c = foldl overlay (cd_data cd) bs"
proof (induction bs arbitrary: cd)
  case Nil
  then show ?case by (subst srec_count.simps) (simp add: ProcessSrecBin_Nil srec_bytes_def)
next
  case (Cons b bs)
  let ?cd = "cd\<lparr>cd_length := of_nat (length (snd b)), address := fst b, cd_data := overlay (cd_data cd) b\<rparr>"
  from Cons.IH [of ?cd] Cons.prems obtain c where "srec_count (srec_bytes bs) ?cd = Some (length bs, c)"
      "sequenceNumber c = sequenceNumber ?cd" "cd_data c = foldl overlay (cd_data ?cd) bs" by auto
  then show ?case using Cons.prems by (subst srec_count.simps) (simp add: ProcessSrecBin_block)
qed

text \<open>The replies of the device to a transfer: one of 17 bytes with status 0 for each block.\<close>

definition all_acked :: "nat \<Rightarrow> bytes \<Rightarrow> bool" where
  "all_acked n r \<longleftrightarrow> (\<exists>qs. length qs = n \<and> list_all (\<lambda>q. length q = 17 \<and> q ! 5 = 0) qs \<and> r = concat qs)"

lemma all_acked_Suc: "length q = 17 \<Longrightarrow> q ! 5 = 0 \<Longrightarrow> all_acked n r \<Longrightarrow> all_acked (Suc n) (q @ r)"
  unfolding all_acked_def by (elim exE) (rule_tac x="q # qs" in exI, simp)

lemma content_packet_block:
  assumes "i < n" "n < 2 ^ 32" "start' = (if i = 0 then address cd else start)"
  shows "content_packet cd (of_nat i) (of_nat n) start =
    (cd\<lparr>cd_flags := block_flags n i, address := address cd - start'\<rparr>, start')"
proof -
  have w: "unat (of_nat k :: u32) = k" if "k \<le> n" for k
    using that assms(2) by (simp add: unat_of_nat)
  have eq: "(of_nat j :: u32) = of_nat k \<longleftrightarrow> j = k" if "j \<le> n" "k \<le> n" for j k
    using w [OF that(1)] w [OF that(2)] by metis
  have "(of_nat i :: u32) = 0 \<longleftrightarrow> i = 0" using eq [of i 0] assms(1) by simp
  moreover have "(of_nat i :: u32) + 1 = of_nat n \<longleftrightarrow> i + 1 = n"
    using eq [of "i + 1" n] assms(1) by (simp add: add.commute)
  ultimately show ?thesis using assms(3)
    by (auto simp: content_packet_def Let_def block_flags_def fw_consts)
qed

lemma content_bytes_block:
  "length (cd_data c) = 52 \<Longrightarrow> length (content_bytes rid c) = 61"
  by (simp add: content_bytes_def)

lemma length_overlay: "srec_ok b \<Longrightarrow> length pad = 52 \<Longrightarrow> length (overlay pad b) = 52"
  by (simp add: overlay_def srec_ok_def)

lemma length_overlays: "list_all srec_ok bs \<Longrightarrow> length pad = 52 \<Longrightarrow> length (foldl overlay pad bs) = 52"
  by (induction bs arbitrary: pad) (simp_all add: length_overlay)

lemma send_blocks_transfer:
  assumes "send_blocks (srec_bytes bs) cd (of_nat i) (of_nat n) start s = Ret True t"
    and "list_all srec_ok bs" "n = i + length bs" "n < 2 ^ 32" "sequenceNumber cd = of_nat i" "length (cd_data cd) = 52"
    and "bs \<noteq> [] \<longrightarrow> start' = (if i = 0 then fst (hd bs) else start)"
    and "buffered content_index [] s" "sent out s"
  shows "line_out (env t) = out @ reports n start' i (cd_data cd) bs \<and>
    (\<exists>rs. q_read (env s) = rs @ q_read (env t) \<and> all_acked (length bs) (recv rs))"
  using assms
proof (induction bs arbitrary: cd i start s out)
  case Nil
  then have "t = s" by (subst (asm) send_blocks.simps) (simp add: ProcessSrecBin_Nil srec_bytes_def retC_def)
  with Nil show ?case by (auto simp: sent_def all_acked_def recv_def intro!: exI [of _ "[]"])
next
  case (Cons b bs)
  let ?cd = "cd\<lparr>cd_length := of_nat (length (snd b)), address := fst b - start', cd_data := overlay (cd_data cd) b,
    cd_flags := block_flags n i\<rparr>"
  let ?r = "content_bytes FWUpdateContent_reportid ?cd" and ?cd' = "?cd\<lparr>sequenceNumber := sequenceNumber cd + 1\<rparr>"
  have ok: "srec_ok b" and len: "length (overlay (cd_data cd) b) = 52"
    using Cons.prems by (simp_all add: length_overlay)
  have pk: "content_packet (cd\<lparr>cd_length := of_nat (length (snd b)), address := fst b, cd_data := overlay (cd_data cd) b\<rparr>)
      (of_nat i) (of_nat n) start = (?cd, start')"
    using Cons.prems by (subst content_packet_block [of i n start']) auto
  from Cons.prems(1) obtain s1 s2 where w: "ttyWrite ?r s = Ret NO_ERR s1"
      and f: "ttyWaitForFrame 2000000 ReponseHandle s1 = Ret NO_ERR s2" and st: "repBuff s2 ! 5 = 0"
      and rec: "send_blocks (srec_bytes bs) ?cd' (of_nat i + 1) (of_nat n) start' s2 = Ret True t"
    by (subst (asm) send_blocks.simps)
      (auto simp: ProcessSrecBin_block [OF ok] pk bindC_Ret_iff retC_def getsC_def FIRMWARE_UPDATE_SUCCESS_def split: if_splits)
  have "collected content_index 17 (out @ ?r) (q_read (env s)) s2"
    using content_reply.exchange [OF Cons.prems(8,9) _ w f [unfolded ReponseHandle_def]] len
    by (simp add: content_bytes_block FWUpdateContentResponse_LEN_def)
  then obtain rs where c: "sent (out @ ?r) s2" "q_read (env s) = rs @ q_read (env s2)" "length (recv rs) = 17"
      "recv rs ! 5 = 0" "buffered content_index [] s2"
    by (rule collectedE) (use st in \<open>auto simp: buffered_def\<close>)
  have "line_out (env t) = (out @ ?r) @ reports n start' (Suc i) (cd_data ?cd') bs \<and>
    (\<exists>rs. q_read (env s2) = rs @ q_read (env t) \<and> all_acked (length bs) (recv rs))"
    by (rule Cons.IH [where i = "Suc i" and start = start']) (use Cons.prems rec c len in \<open>auto simp: add.commute\<close>)
  then obtain rs' where "line_out (env t) = (out @ ?r) @ reports n start' (Suc i) (cd_data ?cd') bs"
      "q_read (env s2) = rs' @ q_read (env t)" "all_acked (length bs) (recv rs')" by blast
  then show ?case using c all_acked_Suc [OF c(3,4)] Cons.prems(5)
    by (auto simp: content_bytes_def FWUpdateContent_reportid_def intro!: exI [of _ "rs @ rs'"])
qed

text \<open>
  C5: A payload that is reported as transferred went over the line as it is in the file: one
  report per block, in order, with consecutive sequence numbers, addresses relative to the first
  block, the flags of the first and the last block, and nothing else; and the device acknowledged
  each of them with status 0.
\<close>

theorem FwUpdateSrc_transfer:
  assumes "files (env s) SrcBinPath = Some (Regular (srec_bytes bs))" "list_all srec_ok bs" "length bs < 2 ^ 32"
    and "fd_ok s" "length (repBuff s) = 61" "content_index s = 0"
    and "FwUpdateSrc SrcBinPath ForceIgnoreVersion ForceReset s = Ret True t"
  shows "line_out (env t) = line_out (env s) @
      reports (length bs) (fst (hd bs)) 0 (foldl overlay (replicate 52 0) bs) bs \<and>
    (\<exists>rs. q_read (env s) = rs @ q_read (env t) \<and> all_acked (length bs) (recv rs))"
proof -
  from srec_count_blocks [OF assms(2), of content_init] obtain c where
      c: "srec_count (srec_bytes bs) content_init = Some (length bs, c)" "sequenceNumber c = 0"
        "cd_data c = foldl overlay (replicate 52 0) bs"
    by (auto simp: content_init_def)
  then have "send_blocks (srec_bytes bs) c (of_nat 0) (of_nat (length bs)) 0 s = Ret True t"
    using assms(1,7) by (auto simp: FwUpdateSrc_def bindC_Ret_iff getsC_def)
  from send_blocks_transfer [OF this assms(2), where start' = "fst (hd bs)" and out = "line_out (env s)"] assms c
  show ?thesis by (simp add: buffered_def sent_def length_overlays)
qed

definition payload_blocks :: "srec list" where
  "payload_blocks = [(0x800, [1, 2, 3]), (0x803, [4])]"

definition payload_env :: os_env where
  "payload_env = os_idle\<lparr>q_clock := replicate 4 (Some (0, 0)), q_select := replicate 2 (SelReady True False),
     q_write := replicate 2 (WrDone 61), q_read := replicate 2 (RdData (replicate 17 0)),
     files := [''a.payload.bin'' \<mapsto> Regular (srec_bytes payload_blocks)]\<rparr>"

lemma payload_run:
  "case FwUpdateSrc ''a.payload.bin'' 0 0 (fw_init payload_env\<lparr>ttyfd := 3\<rparr>) of Ret r t \<Rightarrow> r | _ \<Rightarrow> False"
  by code_simp

theorem FwUpdateSrc_transfer_witness:
  "\<exists>t. FwUpdateSrc ''a.payload.bin'' 0 0 (fw_init payload_env\<lparr>ttyfd := 3\<rparr>) = Ret True t \<and>
     line_out (env t) = [0x2A, 0x80, 3, 0, 0, 0, 0, 0, 0, 1, 2, 3] @ replicate 49 0 @
       [0x2A, 0x40, 1, 1, 0, 3, 0, 0, 0, 4, 2, 3] @ replicate 49 0"
proof -
  let ?s = "fw_init payload_env\<lparr>ttyfd := 3\<rparr>"
  obtain t where t: "FwUpdateSrc ''a.payload.bin'' 0 0 ?s = Ret True t"
    using payload_run by (auto split: outcome.splits)
  have pb: "list_all srec_ok payload_blocks" "length payload_blocks = 2" "fst (hd payload_blocks) = 0x800"
    by (simp_all add: payload_blocks_def srec_ok_def)
  have "reports 2 0x800 0 (foldl overlay (replicate 52 0) payload_blocks) payload_blocks =
      [0x2A, 0x80, 3, 0, 0, 0, 0, 0, 0, 1, 2, 3] @ replicate 49 0 @
      [0x2A, 0x40, 1, 1, 0, 3, 0, 0, 0, 4, 2, 3] @ replicate 49 0" by code_simp
  moreover from FwUpdateSrc_transfer [OF _ _ _ _ _ _ t, of payload_blocks]
  have "line_out (env t) = reports 2 0x800 0 (foldl overlay (replicate 52 0) payload_blocks) payload_blocks"
    using pb by (simp add: fd_ok_def payload_env_def os_idle_def)
  ultimately show ?thesis using t by simp
qed

text \<open>
  The fixed byte string that switches the device into update mode is the frame that the HDLC
  layer would build for the nine bytes of that command.
\<close>

theorem enter_cmd_frame: "enter_cmd = hdlc_frame [0x85, 0x03, 0x83, 0x78, 0x03, 0x00, 0x5d, 0x00, 0x01]"
  by code_simp

text \<open>
  The offer report is the identifier and the 16 bytes of the file, in which only the two
  force bits of the second byte are replaced.
\<close>

theorem offer_report_layout:
  assumes "length buf = 16"
  shows "length (offer_report buf force reset) = 17 \<and> offer_report buf force reset ! 0 = 0x2D \<and>
    (\<forall>i < 16. i \<noteq> 1 \<longrightarrow> offer_report buf force reset ! (i + 1) = buf ! i) \<and>
    (\<forall>k < 8. bit (offer_report buf force reset ! 2) k =
      (if k = 7 then bit force 0 else if k = 6 then bit reset 0 else bit (buf ! 1) k))"
proof -
  have "bit ((b AND 0x3f) OR push_bit 6 (r AND 1) OR push_bit 7 (f AND 1)) k =
      (if k = 7 then bit f 0 else if k = 6 then bit r 0 else bit b k)" if "k < 8" for b r f :: u8 and k
  proof -
    have m: "(0x3f :: u8) = mask 6" by (simp add: mask_eq_exp_minus_1)
    show ?thesis unfolding m using that by (auto simp: bit_simps)
  qed
  then show ?thesis using assms by (auto simp: offer_report_def Let_def nth_Cons' FWUpdateOffer_reportid_def)
qed

theorem offer_report_layout_witness:
  "offer_report (replicate 16 0xff) 0 1 ! 2 = 0x7f \<and> bit (offer_report (replicate 16 0xff) 0 1 ! 2) 6"
proof
  show "offer_report (replicate 16 0xff) 0 1 ! 2 = 0x7f" by code_simp
  show "bit (offer_report (replicate 16 0xff) 0 1 ! 2) 6"
    using offer_report_layout [of "replicate 16 0xff" 0 1] by simp
qed

end
