(* ===== verification/FwUpdateMain.thy ===== *)
theory FwUpdateMain
  imports FwUpdateSub
begin

text \<open>
  The update procedure and the program: \<^verbatim>\<open>FwUpdateProcess.c\<close> and \<^verbatim>\<open>main.c\<close>. The table of
  offers and payloads is a list of 20 entries; a directory is the list of its entries in the
  order \<open>readdir\<close> returns them.
\<close>

unbundle bit_operations_syntax

section \<open>Offers and payloads\<close>

definition OfferBinSuffix :: string where "OfferBinSuffix = ''.offer.bin''"
definition SrcBinSuffix :: string where "SrcBinSuffix = ''.payload.bin''"
definition APP_DATA_1_PATTERN :: string where "APP_DATA_1_PATTERN = ''_App_Data1.''"
definition FwBinCountMax :: nat where "FwBinCountMax = 20"
definition FwDirnameLenMax :: nat where "FwDirnameLenMax = 512"
definition FwNameLenMax :: nat where "FwNameLenMax = 128"
definition FWImageTyeBOOT :: u8 where "FWImageTyeBOOT = 5"

lemmas fw_limits =
  OfferBinSuffix_def SrcBinSuffix_def APP_DATA_1_PATTERN_def FwBinCountMax_def FwDirnameLenMax_def
  FwNameLenMax_def FWImageTyeBOOT_def

record T_FwFile_Unit =
  OfferName :: string
  SrcBinName :: string
  image_type :: u8
  is_download :: bool
  is_srcbin_exist :: bool

record T_FwFile =
  offerfile_dirname :: string
  srcbinfile_dirname :: string
  fileName :: "T_FwFile_Unit list"

definition unit_zero :: T_FwFile_Unit where
  "unit_zero = \<lparr>OfferName = [], SrcBinName = [], image_type = 0, is_download = False, is_srcbin_exist = False\<rparr>"

definition FwFiles_zero :: T_FwFile where
  "FwFiles_zero = \<lparr>offerfile_dirname = [], srcbinfile_dirname = [], fileName = replicate 20 unit_zero\<rparr>"

record main_globals = fw_globals +
  FwFiles :: T_FwFile

text \<open>\<open>opendir\<close> fails on the empty name.\<close>

definition os_opendir :: "string \<Rightarrow> ('z main_globals_scheme, string list option) cmd" where
  "os_opendir path = getsC (\<lambda>s. if path = [] then None else dirs (env s) path)"

definition path_join :: "string \<Rightarrow> string \<Rightarrow> string" where
  "path_join folder name = (if last folder \<noteq> CHR ''/'' then folder @ ''/'' @ name else folder @ name)"

definition FwPathLenMax :: nat where "FwPathLenMax = FwDirnameLenMax + FwNameLenMax"

text \<open>
  \<open>strcpy\<close> into a field of so many bytes and an assignment to the entry \<open>FwFiles.fileName[index]\<close>:
  what would be stored outside of the field or of the array is a fault.
\<close>

definition strcpy_fits :: "nat \<Rightarrow> string \<Rightarrow> ('z main_globals_scheme, unit) cmd" where
  "strcpy_fits room src = (if length src + 1 \<le> room then retC () else faultC)"

definition set_unit :: "nat \<Rightarrow> (T_FwFile_Unit \<Rightarrow> T_FwFile_Unit) \<Rightarrow> ('z main_globals_scheme, unit) cmd" where
  "set_unit index f = bindC (getsC (\<lambda>s. fileName (FwFiles s))) (\<lambda>us.
     if index < length us then modifyC (\<lambda>s. s\<lparr>FwFiles := FwFiles s\<lparr>fileName := us[index := f (us ! index)]\<rparr>\<rparr>)
     else faultC)"

text \<open>The directory loop of \<open>getOfferBins\<close>: the result is \<open>rett\<close>.\<close>

fun offer_entries :: "string \<Rightarrow> string list \<Rightarrow> nat \<Rightarrow> ('z main_globals_scheme, bool) cmd" where
  "offer_entries OfferFolder [] index = retC True"
| "offer_entries OfferFolder (d_name # entries) index =
     (if strstr d_name OfferBinSuffix = None then offer_entries OfferFolder entries index
      else if length d_name + 1 > FwNameLenMax then retC False
      else if index < FwBinCountMax
      then
        bindC (strcpy_fits FwPathLenMax (path_join OfferFolder d_name)) (\<lambda>_.
        bindC (LoadOffer (path_join OfferFolder d_name)) (\<lambda>offerBuff. case offerBuff of
          None \<Rightarrow> offer_entries OfferFolder entries index
        | Some buf \<Rightarrow>
            bindC (set_unit index (\<lambda>u. u\<lparr>image_type := buf ! 1 AND 0x0F\<rparr>)) (\<lambda>_.
            bindC (strcpy_fits FwNameLenMax d_name) (\<lambda>_.
            bindC (set_unit index (\<lambda>u. u\<lparr>OfferName := d_name\<rparr>)) (\<lambda>_.
            offer_entries OfferFolder entries (index + 1))))))
      else retC False)"

definition getOfferBins :: "string \<Rightarrow> ('z main_globals_scheme, bool) cmd" where
  "getOfferBins OfferFolder =
     (if length OfferFolder + 1 > FwDirnameLenMax then retC False
      else
        bindC (modifyC (\<lambda>s. s\<lparr>FwFiles := FwFiles s\<lparr>offerfile_dirname := []\<rparr>\<rparr>)) (\<lambda>_.
        bindC (os_opendir OfferFolder) (\<lambda>dir. case dir of
          None \<Rightarrow> retC False
        | Some entries \<Rightarrow>
            bindC (offer_entries OfferFolder entries 0) (\<lambda>rett.
            bindC (strcpy_fits FwDirnameLenMax OfferFolder) (\<lambda>_.
            bindC (modifyC (\<lambda>s. s\<lparr>FwFiles := FwFiles s\<lparr>offerfile_dirname := OfferFolder\<rparr>\<rparr>)) (\<lambda>_.
            retC rett))))))"

text \<open>What is in front of the first occurrence of a suffix.\<close>

definition stem :: "string \<Rightarrow> string \<Rightarrow> string option" where
  "stem name suffix = map_option (\<lambda>p. take (length name - length p) name) (strstr name suffix)"

text \<open>The inner loop: the first offer with the payload's stem, from an index on.\<close>

fun find_offer :: "string \<Rightarrow> T_FwFile_Unit list \<Rightarrow> nat \<Rightarrow> nat option" where
  "find_offer FileName [] index = None"
| "find_offer FileName (u # us) index =
     (if stem (OfferName u) OfferBinSuffix = Some FileName then Some index else find_offer FileName us (index + 1))"

fun payload_entries :: "string list \<Rightarrow> ('z main_globals_scheme, bool) cmd" where
  "payload_entries [] = retC True"
| "payload_entries (d_name # entries) = (case stem d_name SrcBinSuffix of
     None \<Rightarrow> payload_entries entries
   | Some FileName \<Rightarrow>
       (if length d_name + 1 > FwNameLenMax then retC False
        else
          bindC (strcpy_fits FwNameLenMax d_name) (\<lambda>_.
          bindC (getsC (\<lambda>s. find_offer FileName (fileName (FwFiles s)) 0)) (\<lambda>target. case target of
            None \<Rightarrow> payload_entries entries
          | Some index \<Rightarrow>
              bindC (strcpy_fits FwNameLenMax d_name) (\<lambda>_.
              bindC (set_unit index (\<lambda>u. u\<lparr>SrcBinName := d_name, is_srcbin_exist := True, is_download := False\<rparr>)) (\<lambda>_.
              payload_entries entries))))))"

definition getPayloadBins :: "string \<Rightarrow> ('z main_globals_scheme, bool) cmd" where
  "getPayloadBins SrcBinFolder =
     (if length SrcBinFolder + 1 > FwDirnameLenMax then retC False
      else
        bindC (modifyC (\<lambda>s. s\<lparr>FwFiles := FwFiles s\<lparr>srcbinfile_dirname := []\<rparr>\<rparr>)) (\<lambda>_.
        bindC (os_opendir SrcBinFolder) (\<lambda>dir. case dir of
          None \<Rightarrow> retC False
        | Some entries \<Rightarrow>
            bindC (payload_entries entries) (\<lambda>rett.
            bindC (strcpy_fits FwDirnameLenMax SrcBinFolder) (\<lambda>_.
            bindC (modifyC (\<lambda>s. s\<lparr>FwFiles := FwFiles s\<lparr>srcbinfile_dirname := SrcBinFolder\<rparr>\<rparr>)) (\<lambda>_.
            retC rett))))))"

section \<open>Rounds\<close>

definition is_send_offer :: "u8 \<Rightarrow> u8 \<Rightarrow> bool \<Rightarrow> T_FwFile_Unit \<Rightarrow> bool" where
  "is_send_offer ForceIgnoreVersion round_no dualbank u \<longleftrightarrow>
     (ForceIgnoreVersion = 0 \<or> \<not> is_download u) \<and>
     \<not> (image_type u = FWImageTyeBOOT \<and> round_no > 2) \<and>
     \<not> (\<not> dualbank \<and> round_no > 2 \<and> strstr (OfferName u) APP_DATA_1_PATTERN \<noteq> None)"

definition offer_path :: "T_FwFile \<Rightarrow> T_FwFile_Unit \<Rightarrow> string" where
  "offer_path fw u = path_join (offerfile_dirname fw) (OfferName u)"

definition payload_path :: "T_FwFile \<Rightarrow> T_FwFile_Unit \<Rightarrow> string" where
  "payload_path fw u = path_join (srcbinfile_dirname fw) (SrcBinName u)"

definition force_bit :: "u8 \<Rightarrow> u8" where
  "force_bit ForceIgnoreVersion = (if ForceIgnoreVersion \<noteq> 0 then 1 else 0)"

text \<open>Odd rounds: only the offers, from index \<open>i\<close> on. The result is \<open>ret\<close> (0 to go on).\<close>

fun offers_only :: "u8 \<Rightarrow> u8 \<Rightarrow> bool \<Rightarrow> nat list \<Rightarrow> u8 \<Rightarrow> ('z main_globals_scheme, int \<times> u8) cmd" where
  "offers_only force round_no dual [] status = retC (0, status)"
| "offers_only force round_no dual (index # rest) status =
     bindC (getsC FwFiles) (\<lambda>fw.
       let u = fileName fw ! index
       in if is_srcbin_exist u \<and> is_send_offer force round_no dual u
          then bindC (FwUpdateOffer (offer_path fw u) (force_bit force) 0 status) (\<lambda>(ok, status).
            if \<not> ok then retC (- 2, status) else offers_only force round_no dual rest status)
          else offers_only force round_no dual rest status)"

text \<open>Even rounds: each offer, and its payload when the device accepts. The result is \<open>ret\<close>,
  the number of accepted offers and the last status.\<close>

fun offers_payloads ::
  "u8 \<Rightarrow> u8 \<Rightarrow> bool \<Rightarrow> nat list \<Rightarrow> u16 \<Rightarrow> u8 \<Rightarrow> ('z main_globals_scheme, int \<times> u16 \<times> u8) cmd" where
  "offers_payloads force round_no dual [] count status = retC (0, count, status)"
| "offers_payloads force round_no dual (index # rest) count status =
     bindC (getsC FwFiles) (\<lambda>fw.
       let u = fileName fw ! index
       in if is_srcbin_exist u \<and> is_send_offer force round_no dual u
          then bindC (FwUpdateOffer (offer_path fw u) (force_bit force) 0 status) (\<lambda>(ok, status).
            if \<not> ok then retC (- 2, count, status)
            else if status = FIRMWARE_UPDATE_OFFER_ACCEPT
            then bindC (FwUpdateSrc (payload_path fw u) (force_bit force) 0) (\<lambda>ok.
              if ok
              then bindC (set_unit index (\<lambda>u. u\<lparr>is_download := True\<rparr>)) (\<lambda>_.
                   offers_payloads force round_no dual rest (count + 1) status)
              else retC (- 2, count + 1, status))
            else offers_payloads force round_no dual rest count status)
          else offers_payloads force round_no dual rest count status)"

fun retry_version :: "nat \<Rightarrow> ('z main_globals_scheme, bool) cmd" where
  "retry_version 0 = retC False"
| "retry_version (Suc n) =
     bindC FwGetVerison (\<lambda>ver. if ver \<noteq> None then retC True else retry_version n)"

text \<open>\<open>usleep\<close> first, then \<open>access\<close>, as the loops after a round do.\<close>

fun wait_device_slow :: "string \<Rightarrow> bool list \<Rightarrow> ('z main_globals_scheme, unit) cmd" where
  "wait_device_slow path [] = bindC (os_usleep 200000) (\<lambda>_. bindC (os_access path) (\<lambda>_. Blocked))"
| "wait_device_slow path (_ # q) =
     bindC (os_usleep 200000) (\<lambda>_.
     bindC (os_access path) (\<lambda>up. if up then retC () else wait_device_slow path q))"

definition wait_for_device_slow :: "string \<Rightarrow> ('z main_globals_scheme, unit) cmd" where
  "wait_for_device_slow path = bindC (getsC (\<lambda>s. q_access (env s))) (\<lambda>q. wait_device_slow path q)"

text \<open>\<open>ttyGetDeviceName\<close> into the local name of 48 bytes: the name, kept as it was on failure.\<close>

definition get_dev_name :: "string \<times> u16 \<Rightarrow> ('z main_globals_scheme, string \<times> u16) cmd" where
  "get_dev_name old = getsC (\<lambda>s. case ttyGetDeviceName s (snd old) of None \<Rightarrow> old | Some new \<Rightarrow> new)"

text \<open>After an even round of a single-bank device that took payloads: wait until it has rebooted.\<close>

definition wait_reboot :: "string \<Rightarrow> ('z main_globals_scheme, int) cmd" where
  "wait_reboot ttydevname =
     (if ttydevname = RTK_RCP_DEVICE
      then
        bindC device_close (\<lambda>_.
        bindC (wait_for_device_slow ttydevname) (\<lambda>_.
        bindC (os_usleep 1000000) (\<lambda>_.
        bindC (wait_for_device_slow ttydevname) (\<lambda>_.
        bindC device_open (\<lambda>fd. retC (if fd = - 1 then - 1 else 0))))))
      else bindC (retry_version 20) (\<lambda>rett. retC (if rett then 0 else - 1)))"

record round_vars =
  rv_ver :: T_IMAGE_VERSION
  rv_name :: "string \<times> u16"
  rv_status :: u8

definition round_odd :: "u8 \<Rightarrow> u8 \<Rightarrow> round_vars \<Rightarrow> ('z main_globals_scheme, int \<times> round_vars) cmd" where
  "round_odd force round_no v =
     bindC FwGetVerison (\<lambda>ver_tmp. case ver_tmp of
       None \<Rightarrow> retC (- 1, v)
     | Some ver \<Rightarrow>
         (let v = (if round_no = 1 then v\<lparr>rv_ver := ver\<rparr> else v)
          in bindC (offers_only force round_no (is_dualbank (rv_ver v)) [0..<FwBinCountMax] (rv_status v)) (\<lambda>(ret, status).
             retC (ret, v\<lparr>rv_status := status\<rparr>))))"

text \<open>The result is \<open>ret\<close>, \<open>FwUpdateComplete\<close> and the variables.\<close>

definition round_even :: "u8 \<Rightarrow> u8 \<Rightarrow> round_vars \<Rightarrow> ('z main_globals_scheme, int \<times> bool \<times> round_vars) cmd" where
  "round_even force round_no v =
     bindC (offers_payloads force round_no (is_dualbank (rv_ver v)) [0..<FwBinCountMax] 0 (rv_status v)) (\<lambda>(ret, count, status).
       let v = v\<lparr>rv_status := status\<rparr>
       in if ret \<noteq> 0 then retC (ret, False, v)
          else if is_dualbank (rv_ver v) then retC (0, True, v)
          else if count = 0 then retC (0, True, v)
          else
            bindC (get_dev_name (rv_name v)) (\<lambda>nm.
            bindC (wait_reboot (fst nm)) (\<lambda>ret. retC (ret, False, v\<lparr>rv_name := nm\<rparr>))))"

locale main_calm = fw_calm R for R :: "'z main_globals_scheme \<Rightarrow> 'z main_globals_scheme \<Rightarrow> bool"
begin

lemma store_steps: "steps R (strcpy_fits n src)" "steps R (set_unit i f)"
  unfolding strcpy_fits_def set_unit_def by (auto intro!: steps_rules calm)

lemma offer_entries_steps: "steps R (offer_entries folder es i)"
  by (induction es arbitrary: i) (auto intro!: steps_rules store_steps LoadOffer_steps)

lemma payload_entries_steps: "steps R (payload_entries es)"
  by (induction es) (auto intro!: steps_rules store_steps split: option.split)

lemma getBins_steps: "steps R (getOfferBins folder)" "steps R (getPayloadBins folder)"
  unfolding getOfferBins_def getPayloadBins_def os_opendir_def
  by (auto intro!: steps_rules store_steps offer_entries_steps payload_entries_steps calm)

lemma offers_only_steps: "steps R (offers_only force r dual is st)"
  by (induction "is" arbitrary: st) (auto simp: Let_def intro!: steps_rules FwUpdateOffer_steps)

lemma offers_payloads_steps: "steps R (offers_payloads force r dual is n st)"
  by (induction "is" arbitrary: n st)
    (auto simp: Let_def intro!: steps_rules store_steps FwUpdateOffer_steps FwUpdateSrc_steps)

lemma retry_version_steps: "steps R (retry_version n)"
  by (induction n) (auto intro!: steps_rules FwGetVerison_steps)

lemma wait_slow_steps: "steps R (wait_for_device_slow path)"
proof -
  have "steps R (wait_device_slow path q)" for q
    by (induction q) (auto intro!: steps_rules tty_steps)
  then show ?thesis unfolding wait_for_device_slow_def by (intro steps_rules)
qed

lemma round_odd_steps: "steps R (round_odd force r v)"
  unfolding round_odd_def Let_def by (intro steps_rules FwGetVerison_steps offers_only_steps)

end

locale main_order = fw_order R for R :: "'z main_globals_scheme \<Rightarrow> 'z main_globals_scheme \<Rightarrow> bool"

sublocale main_order \<subseteq> main_calm ..

context main_order
begin

lemma wait_reboot_steps: "steps R (wait_reboot nm)"
  unfolding wait_reboot_def by (intro steps_rules tty_steps device_steps wait_slow_steps retry_version_steps)

lemma round_even_steps: "steps R (round_even force r v)"
  unfolding round_even_def get_dev_name_def Let_def
  by (intro steps_rules offers_payloads_steps wait_reboot_steps)

end

interpretation fewer_main: main_order fewer_answers ..

interpretation held_main: main_calm "same line_fds" ..

lemma ttyWrite_consumes:
  assumes "aFrame \<noteq> []" "ttyWrite aFrame s = Ret NO_ERR t"
  shows "length (q_write (env t)) < length (q_write (env s))"
proof -
  let ?K = "\<lambda>q rval. let rest = (\<lambda>aFrame. bindC ttyWaitForWritable (\<lambda>error.
        if error \<noteq> NO_ERR then retC error else (case q of [] \<Rightarrow> Blocked | _ # q \<Rightarrow> write_loop aFrame q)))
      in case rval of
          WrDone n \<Rightarrow> if n = length aFrame then retC NO_ERR else rest (drop n aFrame)
        | WrErr e \<Rightarrow> if e \<noteq> EAGAIN \<and> e \<noteq> EINTR then retC ERR_UNEXPECTED else rest aFrame"
  from assms obtain q where "write_loop aFrame q s = Ret NO_ERR t"
    by (auto simp: ttyWrite_def trace_hex_def bindC_def getsC_def retC_def faultC_def split: if_splits)
  with assms(1) have "bindC (os_write aFrame) (?K q) s = Ret NO_ERR t"
    by (subst (asm) write_loop.simps) simp
  then obtain a u where u: "os_write aFrame s = Ret a u" "?K q a u = Ret NO_ERR t"
    by (rule bindC_RetE)
  have "steps fewer_answers (?K q a)"
    by (auto simp: Let_def intro!: fewer.steps_rules fewer.ttyWaitForWritable_steps fewer.write_loop_steps
        split: write_ans.split list.split)
  from steps_Ret [OF this u(2)] have "length (q_write (env t)) \<le> length (q_write (env u))"
    by (simp add: fewer_answers_def)
  moreover have "length (q_write (env u)) < length (q_write (env s))"
    using u by (auto simp: os_write_def retC_def Let_def split: list.splits write_ans.splits if_splits)
  ultimately show ?thesis by simp
qed

lemma FwGetVerison_consumes:
  assumes "FwGetVerison s = Ret (Some ver) t"
  shows "length (q_write (env t)) < length (q_write (env s))"
proof -
  let ?K = "\<lambda>err. if err \<noteq> NO_ERR then retC None
      else bindC (ttyWaitForFrame 2000000 getVersionReponseHandle) (\<lambda>err.
         if err \<noteq> NO_ERR then retC None
         else bindC (trace_hex 512 16 (FwUpdateVersion_LEN + 1)) (\<lambda>_.
           getsC (\<lambda>s. Some \<lparr>is_dualbank = (repBuff s ! 9 AND 0x3 \<noteq> 2), version = le_word (take 4 (drop 5 (repBuff s)))\<rparr>)))"
  from assms have "bindC (ttyWrite [FwUpdateVersion_reportid]) ?K s = Ret (Some ver) t" by (simp add: FwGetVerison_def)
  then obtain e u where u: "ttyWrite [FwUpdateVersion_reportid] s = Ret e u" "?K e u = Ret (Some ver) t"
    by (rule bindC_RetE)
  have "steps fewer_answers (?K e)"
    by (intro fewer.steps_rules fewer.tty_steps fewer_fw.reply_steps)
  from steps_Ret [OF this u(2)] have "fewer_answers u t" .
  moreover have "e = NO_ERR" using u(2) by (auto simp: retC_def split: if_splits)
  ultimately show ?thesis using ttyWrite_consumes [of "[FwUpdateVersion_reportid]" s u] u(1)
    by (simp add: fewer_answers_def)
qed

lemma round_odd_consumes:
  assumes "round_odd force r v s = Ret (0, v') t"
  shows "length (q_write (env t)) < length (q_write (env s))"
proof -
  let ?K = "\<lambda>a. case a of None \<Rightarrow> retC (- 1, v)
        | Some ver \<Rightarrow> (let v = (if r = 1 then v\<lparr>rv_ver := ver\<rparr> else v)
          in bindC (offers_only force r (is_dualbank (rv_ver v)) [0..<FwBinCountMax] (rv_status v)) (\<lambda>(ret, status).
             retC (ret, v\<lparr>rv_status := status\<rparr>)))"
  from assms [unfolded round_odd_def] obtain a u where u: "FwGetVerison s = Ret a u" "?K a u = Ret (0, v') t"
    by (rule bindC_RetE)
  then obtain ver where a: "a = Some ver" by (cases a) (auto simp: retC_def)
  have "steps fewer_answers (?K a)" unfolding Let_def
    by (intro fewer.steps_rules fewer_main.offers_only_steps)
  then have "fewer_answers u t" using u(2) by (rule steps_Ret)
  with FwGetVerison_consumes [of s ver u] u(1) a show ?thesis by (simp add: fewer_answers_def)
qed

section \<open>The update procedure\<close>

text \<open>
  The loop over the rounds. An odd round that goes on has consumed an answer of \<open>write\<close>, so the
  loop ends with the environment's answers: the round number itself is a byte and wraps around.
\<close>

declare bindC_cong [fundef_cong]

function update_rounds ::
  "u8 \<Rightarrow> u8 \<Rightarrow> round_vars \<Rightarrow> 'z main_globals_scheme \<Rightarrow> ('z main_globals_scheme, int \<times> round_vars) outcome" where
  "update_rounds force round_no v s =
     (if bit round_no 0
      then bindC (round_odd force round_no v) (\<lambda>r t.
        if fst r \<noteq> 0 then Ret (fst r, snd r) t else update_rounds force (round_no + 1) (snd r) t) s
      else bindC (round_even force round_no v) (\<lambda>r t.
        if fst r \<noteq> 0 \<or> fst (snd r) then Ret (fst r, snd (snd r)) t
        else update_rounds force (round_no + 1) (snd (snd r)) t) s)"
  by pat_completeness auto
termination
proof (relation "measure (\<lambda>(force, round_no, v, s). 2 * length (q_write (env s)) + (if bit round_no 0 then 0 else 1))")
  fix force round_no :: u8 and v and s t :: "'z main_globals_scheme" and r
  assume "bit round_no 0" and odd: "round_odd force round_no v s = Ret r t" and "\<not> fst r \<noteq> 0"
  then have "round_odd force round_no v s = Ret (0, snd r) t" by (cases r) simp
  from round_odd_consumes [OF this] \<open>bit round_no 0\<close>
  show "((force, round_no + 1, snd r, t), force, round_no, v, s) \<in> measure (\<lambda>(force, round_no, v, s).
      2 * length (q_write (env s)) + (if bit round_no 0 then 0 else 1))" by simp
next
  fix force round_no :: u8 and v and s t :: "'z main_globals_scheme" and r
  assume b: "\<not> bit round_no 0" and even: "round_even force round_no v s = Ret r t"
  from steps_Ret [OF fewer_main.round_even_steps even]
  have "length (q_write (env t)) \<le> length (q_write (env s))" by (simp add: fewer_answers_def)
  moreover have "bit (round_no + 1) 0" using b by (simp add: bit_0)
  ultimately show "((force, round_no + 1, snd (snd r), t), force, round_no, v, s) \<in> measure (\<lambda>(force, round_no, v, s).
      2 * length (q_write (env s)) + (if bit round_no 0 then 0 else 1))" using b by simp
qed simp

declare update_rounds.simps [simp del]

text \<open>The end of the procedure: let the device reboot, and wait for its node to come back.\<close>

definition reattach :: "string \<Rightarrow> ('z main_globals_scheme, unit) cmd" where
  "reattach ttydevname =
     (if ttydevname = RTK_RCP_DEVICE
      then bindC device_close (\<lambda>_.
           bindC (wait_for_device ttydevname) (\<lambda>_.
           bindC device_open (\<lambda>_. retC ())))
      else retC ())"

definition exttime :: "string \<Rightarrow> nat" where
  "exttime ttydevname = (if ttydevname = RTK_RCP_DEVICE then 100000 else 500000)"

definition update_exit :: "int \<Rightarrow> round_vars \<Rightarrow> ('z main_globals_scheme, bool) cmd" where
  "update_exit ret v =
     bindC (get_dev_name (rv_name v)) (\<lambda>nm.
     bindC (if ret = - 1 then os_usleep (10000000 + exttime (fst nm))
            else if ret = - 2 then os_usleep (2000000 + exttime (fst nm))
            else if ret = 0
            then os_usleep ((if is_dualbank (rv_ver v) then 1000000 else 2000000) + exttime (fst nm))
            else retC ()) (\<lambda>_.
     bindC (reattach (fst nm)) (\<lambda>_.
     retC (ret = 0))))"

text \<open>\<open>ver\<close> starts out uninitialised; it is set in the first round before its first use.\<close>

definition round_init :: "T_IMAGE_VERSION \<Rightarrow> round_vars" where
  "round_init ver = \<lparr>rv_ver = ver, rv_name = ([], 48), rv_status = 0\<rparr>"

definition FwUpdateMainProcess :: "T_IMAGE_VERSION \<Rightarrow> string \<Rightarrow> string \<Rightarrow> u8 \<Rightarrow> u8 \<Rightarrow> ('z main_globals_scheme, bool) cmd" where
  "FwUpdateMainProcess ver0 OfferFolder SrcBinFolder ForceIgnoreVersion ForceReset =
     bindC (modifyC (\<lambda>s. s\<lparr>FwFiles := FwFiles_zero\<rparr>)) (\<lambda>_.
     bindC (getOfferBins OfferFolder) (\<lambda>ok. if \<not> ok then retC False else
     bindC (getPayloadBins SrcBinFolder) (\<lambda>ok. if \<not> ok then retC False else
     bindC EnterFwUpdateMode (\<lambda>_.
     bindC (update_rounds ForceIgnoreVersion 1 (round_init ver0)) (\<lambda>(ret, v).
     update_exit ret v)))))"

definition FwVersionMainProcess :: "('z main_globals_scheme, bool) cmd" where
  "FwVersionMainProcess =
     bindC EnterFwUpdateMode (\<lambda>_.
     bindC FwGetVerison (\<lambda>_.
     bindC (get_dev_name ([], 48)) (\<lambda>nm.
     bindC (os_usleep (2000000 + exttime (fst nm))) (\<lambda>_.
     bindC (reattach (fst nm)) (\<lambda>_.
     retC True)))))"

section \<open>The program\<close>

datatype FwUpdateRESULT = S_OK | E_INVALIDARG | E_FAIL

fun result_code :: "FwUpdateRESULT \<Rightarrow> int" where
  "result_code S_OK = 0"
| "result_code E_INVALIDARG = 1"
| "result_code E_FAIL = 2"

definition FwUpdateMain :: "T_IMAGE_VERSION \<Rightarrow> string list \<Rightarrow> ('z main_globals_scheme, FwUpdateRESULT) cmd" where
  "FwUpdateMain ver0 argv =
     (if length argv < 5 then retC E_INVALIDARG
      else (let forceIgnoreVersion = (if ''forceIgnoreVersion'' \<in> set (drop 5 argv) then 1 else 0);
                forceReset = (if ''forceReset'' \<in> set (drop 5 argv) then 1 else 0)
        in bindC (FwUpdateMainProcess ver0 (argv ! 3) (argv ! 4) forceIgnoreVersion forceReset) (\<lambda>ok.
           retC (if ok then S_OK else E_FAIL))))"

definition rtk_cfu_update :: "T_IMAGE_VERSION \<Rightarrow> string list \<Rightarrow> ('z main_globals_scheme, int) cmd" where
  "rtk_cfu_update ver0 argv =
     bindC device_open (\<lambda>fd.
       if fd < 0 then retC (- 1)
       else if length argv < 2 then faultC
       else
         bindC (if argv ! 1 = ''update'' then bindC (FwUpdateMain ver0 argv) (\<lambda>r. retC (result_code r))
                else if argv ! 1 = ''version'' then bindC FwVersionMainProcess (\<lambda>ok. retC (of_bool ok))
                else retC 0) (\<lambda>ret.
         bindC device_close (\<lambda>_. retC ret)))"

text \<open>\<open>do { ret = c(); retry++; } while (!ret && retry < 3)\<close>\<close>

fun retry_loop :: "nat \<Rightarrow> ('s, bool) cmd \<Rightarrow> ('s, bool) cmd" where
  "retry_loop 0 c = retC False"
| "retry_loop (Suc n) c = bindC c (\<lambda>ret. if \<not> ret \<and> n \<noteq> 0 then retry_loop n c else retC ret)"

text \<open>\<open>argv[2]\<close> is \<open>NULL\<close> with two arguments.\<close>

definition main_program :: "T_IMAGE_VERSION \<Rightarrow> string list \<Rightarrow> ('z main_globals_scheme, int) cmd" where
  "main_program ver0 argv =
     (if length argv = 1 then retC 0
      else
        bindC (parse_device_config (if length argv = 2 then None else Some (argv ! 2))) (\<lambda>_.
        bindC rtkrcp_config_parse (\<lambda>_.
        bindC (retry_loop 3 rtkrcp_config) (\<lambda>_.
        bindC (rtk_cfu_update ver0 argv) (\<lambda>_.
        bindC (retry_loop 3 rtkrcp_config_flowctl) (\<lambda>ret.
        bindC test_after_config_cfu_flowctl (\<lambda>_.
        retC (of_bool ret))))))))"

section \<open>Descriptors\<close>

text \<open>
  The update closes and reopens the device while the other end reboots, and goes on when that
  fails: \<open>dev_some\<close>, the device is open or closed; \<open>dev_shut\<close>, it is closed.
\<close>

definition dev_shut :: "int list \<Rightarrow> 'z tty_globals_scheme \<Rightarrow> bool" where
  "dev_shut l s \<longleftrightarrow> - 1 \<notin> set l \<and> dev_closed l s"

definition dev_some :: "int list \<Rightarrow> 'z tty_globals_scheme \<Rightarrow> bool" where
  "dev_some l s \<longleftrightarrow> - 1 \<notin> set l \<and> (dev_closed l s \<or> dev_opened l s)"

lemma shut_some: "dev_shut l s \<Longrightarrow> dev_some l s"
  by (simp add: dev_shut_def dev_some_def)

lemma held_some: "steps (same line_fds) c \<Longrightarrow> wtriple (dev_some l) c (\<lambda>_. dev_some l) anyE"
  by (rule triple_conseq [OF steps_inv [where R = "same line_fds" and P = "dev_some l"]])
    (simp_all add: dev_some_def dev_opened_def dev_closed_def)

lemma held_shut: "steps (same line_fds) c \<Longrightarrow> wtriple (dev_shut l) c (\<lambda>_. dev_shut l) anyE"
  by (rule triple_conseq [OF steps_inv [where R = "same line_fds" and P = "dev_shut l"]])
    (simp_all add: dev_shut_def dev_closed_def)

lemma closed_shut:
  "wtriple (dev_closed l) c (\<lambda>_. dev_closed l) anyE \<Longrightarrow> wtriple (dev_shut l) c (\<lambda>_. dev_shut l) anyE"
  by (fastforce simp: gtriple_def dev_shut_def split: outcome.splits)

lemma open_some: "wtriple (dev_shut l) device_open (\<lambda>_. dev_some l) anyE"
proof (rule tripleI, goal_cases)
  case (1 s)
  then show ?case using tripleD [OF device_open_triple, of l s]
    by (auto simp: dev_some_def dev_shut_def split: outcome.splits if_splits)
qed

lemma close_some: "wtriple (dev_some l) device_close (\<lambda>_. dev_shut l) anyE"
  by (auto simp: gtriple_def device_close_spec dev_some_def dev_shut_def dev_opened_def dev_closed_def line_fds_def
      remove1_idem)

lemma keep_some: "wtriple (dev_some l) (retC a) (\<lambda>_. dev_some l) anyE"
  by (rule triple_retC) simp

lemma reopen_some:
  "steps (same line_fds) c \<Longrightarrow>
   wtriple (dev_some l) (bindC device_close (\<lambda>_. bindC c (\<lambda>_. bindC device_open (\<lambda>fd. retC (k fd))))) (\<lambda>_. dev_some l) anyE"
  by (intro triple_bindC [OF close_some] triple_bindC [OF held_shut] triple_bindC [OF open_some] keep_some)

lemma EnterFwUpdateMode_some: "wtriple (dev_some l) EnterFwUpdateMode (\<lambda>_. dev_some l) anyE"
proof -
  have re: "wtriple (dev_some l) (if nm = RTK_RCP_DEVICE
         then bindC device_close (\<lambda>_. bindC (os_usleep 200000) (\<lambda>_. bindC (wait_for_device nm) (\<lambda>_.
              bindC device_open (\<lambda>_. retC ())))) else retC ()) (\<lambda>_. dev_some l) anyE" for nm
    by (intro triple_if keep_some triple_bindC [OF close_some] triple_bindC [OF held_shut]
        triple_bindC [OF open_some] held.tty_steps held_fw.wait_for_device_steps)
  have dr: "wtriple (dev_some l) (bindC drain (\<lambda>_. retC True)) (\<lambda>_. dev_some l) anyE"
    by (intro triple_bindC [OF held_some] keep_some held_fw.drain_steps)
  show ?thesis unfolding EnterFwUpdateMode_def
    by (intro triple_bindC [OF held_some [OF held.ttyWrite_steps]] triple_if keep_some triple_gets_bind triple_option
        triple_prod triple_bindC [OF re] dr)
qed

lemma wait_reboot_some: "wtriple (dev_some l) (wait_reboot nm) (\<lambda>_. dev_some l) anyE"
proof -
  have "wtriple (dev_some l) (bindC (retry_version 20) (\<lambda>r. retC (if r then 0 else - 1))) (\<lambda>_. dev_some l) anyE"
    by (intro triple_bindC [OF held_some] keep_some held_main.retry_version_steps)
  then show ?thesis unfolding wait_reboot_def
    by (intro triple_if triple_bindC [OF close_some] triple_bindC [OF held_shut] triple_bindC [OF open_some] keep_some
        held.tty_steps held_main.wait_slow_steps)
qed

lemma round_even_some: "wtriple (dev_some l) (round_even force r v) (\<lambda>_. dev_some l) anyE"
  unfolding round_even_def Let_def get_dev_name_def
  by (intro triple_bindC [OF held_some [OF held_main.offers_payloads_steps]] triple_prod triple_if keep_some
      triple_gets_bind triple_bindC [OF wait_reboot_some])

lemma update_rounds_some: "dev_some l s \<Longrightarrow> update_rounds force r v s = Ret x t \<Longrightarrow> dev_some l t"
proof (induction force r v s rule: update_rounds.induct)
  case (1 force r v s)
  have odd: "dev_some l u" if "round_odd force r v s = Ret y u" for y u
    by (rule triple_Ret [OF held_some [OF held_main.round_odd_steps] "1.prems"(1) that])
  have even: "dev_some l u" if "round_even force r v s = Ret y u" for y u
    by (rule triple_Ret [OF round_even_some "1.prems"(1) that])
  from 1 show ?case
    by (subst (asm) (3) update_rounds.simps) (auto simp: bindC_Ret_iff odd even split: if_splits)
qed

lemma reattach_some: "wtriple (dev_some l) (reattach nm) (\<lambda>_. dev_some l) anyE"
  unfolding reattach_def by (intro triple_if reopen_some keep_some held_fw.wait_for_device_steps)

lemma update_exit_some: "wtriple (dev_some l) (update_exit ret v) (\<lambda>_. dev_some l) anyE"
proof -
  have sl: "wtriple (dev_some l) (if ret = - 1 then os_usleep a else if ret = - 2 then os_usleep b
      else if ret = 0 then os_usleep c else retC ()) (\<lambda>_. dev_some l) anyE" for a b c
    by (intro triple_if held_some held.tty_steps keep_some)
  show ?thesis unfolding update_exit_def get_dev_name_def
    by (intro triple_gets_bind triple_bindC [OF sl] triple_bindC [OF reattach_some] keep_some)
qed

lemma FwUpdateMainProcess_some:
  "wtriple (dev_some l) (FwUpdateMainProcess ver0 a b c d) (\<lambda>_. dev_some l) anyE"
proof -
  have up: "wtriple (dev_some l) (update_rounds f 1 v) (\<lambda>_. dev_some l) anyE" for f v
    by (rule tripleI) (auto dest: update_rounds_some split: outcome.split)
  have md: "wtriple (dev_some l) (modifyC (\<lambda>s. s\<lparr>FwFiles := z\<rparr>)) (\<lambda>_. dev_some l) anyE" for z
    by (rule triple_modifyC) (simp add: dev_some_def dev_closed_def dev_opened_def line_fds_def)
  note bins = held_some [OF held_main.getBins_steps(1)] held_some [OF held_main.getBins_steps(2)]
  show ?thesis unfolding FwUpdateMainProcess_def
    by (intro triple_bindC [OF md] triple_bindC [OF bins(1)] triple_bindC [OF bins(2)] triple_if keep_some
        triple_bindC [OF EnterFwUpdateMode_some] triple_bindC [OF up] triple_prod update_exit_some)
qed

lemma FwUpdateMain_some: "wtriple (dev_some l) (FwUpdateMain ver0 argv) (\<lambda>_. dev_some l) anyE"
  unfolding FwUpdateMain_def Let_def
  by (intro triple_if keep_some triple_bindC [OF FwUpdateMainProcess_some])

lemma FwVersionMainProcess_some: "wtriple (dev_some l) FwVersionMainProcess (\<lambda>_. dev_some l) anyE"
  unfolding FwVersionMainProcess_def get_dev_name_def
  by (intro triple_bindC [OF EnterFwUpdateMode_some] triple_bindC [OF held_some [OF held_fw.FwGetVerison_steps]]
      triple_gets_bind triple_bindC [OF held_some [OF held.os_calm_steps(4)]] triple_bindC [OF reattach_some] keep_some)

lemma open_shut:
  "wtriple (dev_shut l) device_open (\<lambda>fd. if fd < 0 then dev_shut l else dev_some l) anyE"
proof (rule tripleI, goal_cases)
  case (1 s)
  then show ?case using device_open_spec [of s]
    by (cases "device_open s") (auto simp: dev_some_def dev_shut_def dev_closed_def dev_opened_def line_fds_def fds_def
        split: if_splits)
qed

lemma rtk_cfu_update_shut: "wtriple (dev_shut l) (rtk_cfu_update ver0 argv) (\<lambda>_. dev_shut l) anyE"
proof -
  let ?run = "if argv ! 1 = ''update'' then bindC (FwUpdateMain ver0 argv) (\<lambda>r. retC (result_code r))
      else if argv ! 1 = ''version'' then bindC FwVersionMainProcess (\<lambda>ok. retC (of_bool ok)) else retC 0"
  let ?body = "if length argv < 2 then faultC else bindC ?run (\<lambda>ret. bindC device_close (\<lambda>_. retC ret))"
  have run: "wtriple (dev_some l) ?run (\<lambda>_. dev_some l) anyE"
    by (intro triple_if keep_some triple_bindC [OF FwUpdateMain_some] triple_bindC [OF FwVersionMainProcess_some])
  have "wtriple (dev_some l) (bindC ?run (\<lambda>ret. bindC device_close (\<lambda>_. retC ret))) (\<lambda>_. dev_shut l) anyE"
    by (intro triple_bindC [OF run] triple_bindC [OF close_some] triple_retC)
  then have "wtriple (dev_some l) ?body (\<lambda>_. dev_shut l) anyE"
    by (intro triple_if) (simp_all add: gtriple_def faultC_def)
  then have "wtriple (if fd < 0 then dev_shut l else dev_some l) (if fd < 0 then retC (- 1) else ?body) (\<lambda>_. dev_shut l) anyE"
    for fd :: int by (cases "fd < 0") (simp_all add: triple_retC del: One_nat_def)
  then show ?thesis unfolding rtk_cfu_update_def by (intro triple_bindC [OF open_shut])
qed

lemma flowctl_closed: "wtriple (dev_closed l) rtkrcp_config_flowctl (\<lambda>_. dev_closed l) anyE"
proof -
  note set = held_opened [OF held_cfg.config_write_steps(2)]
  show ?thesis unfolding rtkrcp_config_flowctl_def
    by (intro triple_gets_bind triple_if triple_retC open_then triple_bindC [OF set] triple_prod close_ret_triple
        triple_bindC [OF held_opened [OF held.setting_steps(2)]] triple_bindC [OF device_close_triple]
        triple_bindC [OF usleep_closed])
qed

lemma test_after_closed: "wtriple (dev_closed l) test_after_config_cfu_flowctl (\<lambda>_. dev_closed l) anyE"
  unfolding test_after_config_cfu_flowctl_def
  by (intro triple_bindC [OF usleep_closed] open_then triple_retC triple_option close_ret_triple
      triple_bindC [OF held_opened [OF held_cfg.config_read_steps]] triple_bindC [OF held_opened [OF held.os_calm_steps(4)]])

lemma retry_closed:
  "wtriple (dev_shut l) c (\<lambda>_. dev_shut l) anyE \<Longrightarrow> wtriple (dev_shut l) (retry_loop n c) (\<lambda>_. dev_shut l) anyE"
  by (induction n) (auto intro!: triple_bindC triple_retC triple_if)

lemma parse_steps: "steps (same line_fds) (parse_device_config p)" "steps (same line_fds) rtkrcp_config_parse"
proof -
  have line: "steps (same line_fds) (parse_line li tmp)" for li tmp
    unfolding parse_line_def Let_def by (intro same.steps_rules) (simp_all add: line_fds_def)
  have "steps (same line_fds) (parse_lines inp tmp)" for inp tmp
  proof (induction inp tmp rule: parse_lines.induct)
    case (1 inp tmp)
    then show ?case by (subst parse_lines.simps) (auto intro!: same.steps_rules line split: option.split)
  qed
  then show "steps (same line_fds) (parse_device_config p)" unfolding parse_device_config_def
    by (intro same.steps_rules) (simp_all add: line_fds_def)
  show "steps (same line_fds) rtkrcp_config_parse" unfolding rtkrcp_config_parse_def
    by (auto intro!: same.steps_rules held.tty_steps held.calm split: option.split unode.split)
qed

text \<open>
  C13: The whole program gives back the descriptors of the line: through the configuration with its
  retries, the update or the version query with their reboots of the device, the flow control and
  the final test, a run that returns ends with the device closed and the descriptors of before.
\<close>

theorem main_program_closes:
  assumes "ttyfd s = - 1" "- 1 \<notin> set (open_fds (env s))" "main_program ver0 argv s = Ret c t"
  shows "ttyfd t = - 1 \<and> open_fds (env t) = open_fds (env s)"
proof -
  note shut = closed_shut [OF rtkrcp_config_triple] closed_shut [OF flowctl_closed] closed_shut [OF test_after_closed]
  have "wtriple (dev_shut l) (main_program ver0 argv) (\<lambda>_. dev_shut l) anyE" for l
    unfolding main_program_def
    by (intro triple_if triple_retC triple_bindC [OF held_shut [OF parse_steps(1)]] triple_bindC [OF held_shut [OF parse_steps(2)]]
        triple_bindC [OF retry_closed [OF shut(1)]] triple_bindC [OF rtk_cfu_update_shut]
        triple_bindC [OF retry_closed [OF shut(2)]] triple_bindC [OF shut(3)])
  moreover have "dev_shut (open_fds (env s)) s" using assms by (simp add: dev_shut_def dev_closed_def line_fds_def)
  ultimately have "dev_shut (open_fds (env s)) t" using assms(3) by (rule triple_Ret)
  then show ?thesis by (simp add: dev_shut_def dev_closed_def line_fds_def)
qed

text \<open>The program at its start.\<close>

definition main_init :: "os_env \<Rightarrow> main_globals" where
  "main_init e = fw_globals.extend (fw_init e) (main_globals.fields FwFiles_zero)"

lemma main_init_simps [simp]: "env (main_init e) = e" "ttyfd (main_init e) = - 1" "FwFiles (main_init e) = FwFiles_zero"
  "ttydevice (main_init e) = ttydevice_default" "flowctl_enable (main_init e) = False" "parse_file_ok (main_init e) = False"
  "RcpConfigBin (main_init e) = []"
  by (simp_all add: main_init_def fw_globals.extend_def main_globals.fields_def fw_init_def cfg_globals.extend_def
      fw_globals.fields_def cfg_init_def tty_init_def tty_globals.extend_def cfg_globals.fields_def
      hdlc_globals.extend_def tty_globals.fields_def hdlc_init_def)

definition no_device :: os_env where
  "no_device = os_idle\<lparr>q_open := [None, None, None, None, None], q_access := [False]\<rparr>"

definition some_version :: T_IMAGE_VERSION where
  "some_version = \<lparr>is_dualbank = False, version = 0\<rparr>"

lemma no_device_run:
  "\<exists>t. main_program some_version [''tool'', ''version'', ''none''] (main_init no_device) = Ret 1 t"
  by (simp add: main_program_def parse_device_config_def rtkrcp_config_parse_def rtkrcp_config_def baudrate_table_def
      cmd_defs ttydevice_baud_set_def ttydevice_flowctl_set_def os_defs device_open_def rtk_cfu_update_def
      rtkrcp_config_flowctl_def test_after_config_cfu_flowctl_def numeral_3_eq_3 no_device_def os_idle_def)

theorem main_program_closes_witness:
  "\<exists>t. main_program some_version [''tool'', ''version'', ''none''] (main_init no_device) = Ret 1 t \<and>
     ttyfd t = - 1 \<and> open_fds (env t) = []"
proof -
  obtain t where t: "main_program some_version [''tool'', ''version'', ''none''] (main_init no_device) = Ret 1 t"
    using no_device_run by blast
  with main_program_closes [OF _ _ t] show ?thesis by (simp add: no_device_def os_idle_def)
qed

section \<open>The table of offers and payloads\<close>

text \<open>
  Names fit their 128 bytes, and an entry with a payload has one with the stem of its offer.
\<close>

definition unit_ok :: "T_FwFile_Unit \<Rightarrow> bool" where
  "unit_ok u \<longleftrightarrow> length (OfferName u) < 128 \<and> length (SrcBinName u) < 128 \<and>
     (is_srcbin_exist u \<longrightarrow> stem (OfferName u) OfferBinSuffix \<noteq> None \<and>
        stem (SrcBinName u) SrcBinSuffix = stem (OfferName u) OfferBinSuffix)"

text \<open>
  What the scans are to find: the names with the suffix of an offer whose files have the 16 bytes
  of one, and the entries that are the first with the stem of a payload.
\<close>

definition offers_of :: "os_env \<Rightarrow> string \<Rightarrow> string list \<Rightarrow> string list" where
  "offers_of e folder es = filter (\<lambda>d. strstr d OfferBinSuffix \<noteq> None \<and>
     (case files e (path_join folder d) of Some (Regular content) \<Rightarrow> 16 \<le> length content | _ \<Rightarrow> False)) es"

definition entries_of :: "os_env \<Rightarrow> string \<Rightarrow> string list" where
  "entries_of e folder = (case dirs e folder of None \<Rightarrow> [] | Some es \<Rightarrow> es)"

definition matched :: "string list \<Rightarrow> T_FwFile_Unit list \<Rightarrow> nat set" where
  "matched es us = {i. \<exists>d n. d \<in> set es \<and> stem d SrcBinSuffix = Some n \<and> find_offer n us 0 = Some i}"

definition with_payload :: "T_FwFile_Unit list \<Rightarrow> nat set" where
  "with_payload us = {i. i < length us \<and> is_srcbin_exist (us ! i)}"

lemma list_all_update: "list_all P xs \<Longrightarrow> P y \<Longrightarrow> list_all P (xs[i := y])"
  unfolding list_all_iff using set_update_subset_insert by fastforce

lemma set_unit_run:
  "fileName (FwFiles s) = us \<Longrightarrow> i < length us \<Longrightarrow>
   set_unit i f s = Ret () (s\<lparr>FwFiles := FwFiles s\<lparr>fileName := us[i := f (us ! i)]\<rparr>\<rparr>)"
  by (simp add: set_unit_def cmd_defs)

lemma strcpy_fits_run: "length src < n \<Longrightarrow> strcpy_fits n src s = Ret () s"
  by (simp add: strcpy_fits_def cmd_defs)

lemma path_fits: "length folder < 512 \<Longrightarrow> length d < 128 \<Longrightarrow> length (path_join folder d) < FwPathLenMax"
  by (simp add: path_join_def FwPathLenMax_def fw_limits)

lemma offer_entries_run:
  assumes "length folder < 512" "fileName (FwFiles s) = us" "length us = 20" "i \<le> 20"
    and "drop i us = replicate (20 - i) unit_zero" "list_all unit_ok us" "with_payload us = {}"
  shows "\<exists>ok us'. offer_entries folder es i s = Ret ok (s\<lparr>FwFiles := FwFiles s\<lparr>fileName := us'\<rparr>\<rparr>) \<and>
    length us' = 20 \<and> list_all unit_ok us' \<and> with_payload us' = {} \<and>
    (ok \<longrightarrow> (\<exists>k. map OfferName us' = map OfferName (take i us) @ offers_of (env s) folder es @ replicate k []))"
  using assms
proof (induction es arbitrary: i us s)
  case Nil
  have "map OfferName (drop i us) = replicate (20 - i) []" unfolding Nil.prems(5) by (simp add: unit_zero_def)
  moreover have "map OfferName us = map OfferName (take i us) @ map OfferName (drop i us)"
    by (simp flip: map_append)
  ultimately have "map OfferName us = map OfferName (take i us) @ offers_of (env s) folder [] @ replicate (20 - i) []"
    by (simp add: offers_of_def)
  moreover have "offer_entries folder [] i s = Ret True (s\<lparr>FwFiles := FwFiles s\<lparr>fileName := us\<rparr>\<rparr>)"
    unfolding Nil.prems(2) [symmetric] by (simp add: retC_def)
  ultimately show ?case using Nil.prems(3,6,7) by blast
next
  case (Cons d es)
  note run = bindC_def getsC_def retC_def LoadOffer_def strcpy_fits_run path_fits FwNameLenMax_def FwBinCountMax_def
  let ?buf = "case files (env s) (path_join folder d) of Some (Regular c) \<Rightarrow> c | _ \<Rightarrow> []"
  show ?case
  proof (cases "strstr d OfferBinSuffix \<noteq> None \<and> length d < 128 \<and> i < 20 \<and>
      (case files (env s) (path_join folder d) of Some (Regular c) \<Rightarrow> 16 \<le> length c | _ \<Rightarrow> False)")
    case True
    then obtain c where c: "files (env s) (path_join folder d) = Some (Regular c)" "16 \<le> length c"
      by (auto split: option.splits unode.splits)
    define u where "u = unit_zero\<lparr>image_type := take 16 c ! 1 AND 0x0F, OfferName := d\<rparr>"
    let ?us = "us[i := u]" and ?s = "s\<lparr>FwFiles := FwFiles s\<lparr>fileName := us[i := u]\<rparr>\<rparr>"
    have dr: "drop i us = us ! i # drop (i + 1) us" using True Cons.prems(3) by (simp add: Cons_nth_drop_Suc)
    have sf: "strstr d OfferBinSuffix \<noteq> None" "length d < 128" and i: "i < 20" using True by blast+
    then have "20 - i = Suc (20 - (i + 1))" by simp
    with Cons.prems(5) dr have ui: "us ! i = unit_zero" and rest: "drop (i + 1) us = replicate (20 - (i + 1)) unit_zero"
      by (simp_all del: diff_Suc_Suc)
    have "offer_entries folder (d # es) i s = offer_entries folder es (i + 1) ?s"
      using sf i c Cons.prems(1-3) by (auto simp: run set_unit_run ui u_def)
    moreover have "drop (i + 1) ?us = replicate (20 - (i + 1)) unit_zero"
      using rest by simp
    moreover have "unit_ok u" using sf by (simp add: u_def unit_zero_def unit_ok_def)
    then have "list_all unit_ok ?us" using Cons.prems(6) by (rule list_all_update [rotated])
    moreover have "with_payload ?us = {}"
      using Cons.prems(3,7) i by (auto simp: u_def unit_zero_def with_payload_def nth_list_update split: if_splits)
    moreover have "take (i + 1) ?us = take i us @ [u]" using True Cons.prems(3) by (simp add: take_Suc_conv_app_nth)
    moreover have "offers_of (env s) folder (d # es) = d # offers_of (env s) folder es" using True by (simp add: offers_of_def)
    ultimately show ?thesis using Cons.IH [of ?s ?us "i + 1"] Cons.prems(1,3) i by (auto simp: u_def)
  next
    case False
    show ?thesis
    proof (cases "strstr d OfferBinSuffix \<noteq> None \<and> (128 \<le> length d \<or> 20 \<le> i)")
      case True
      then have "offer_entries folder (d # es) i s = Ret False (s\<lparr>FwFiles := FwFiles s\<lparr>fileName := us\<rparr>\<rparr>)"
        unfolding Cons.prems(2) [symmetric] by (auto simp: run)
      then show ?thesis using Cons.prems(3,6,7) by blast
    next
      case skip: False
      with False have "offers_of (env s) folder (d # es) = offers_of (env s) folder es" by (auto simp: offers_of_def)
      moreover have "offer_entries folder (d # es) i s = offer_entries folder es i s"
        using skip False Cons.prems(1) by (auto simp: run split: option.split unode.split)
      ultimately show ?thesis using Cons.IH [OF Cons.prems] by simp
    qed
  qed
qed

lemma find_offer_Some:
  "find_offer name us k = Some i \<Longrightarrow> k \<le> i \<and> i < k + length us \<and> stem (OfferName (us ! (i - k))) OfferBinSuffix = Some name"
proof (induction us arbitrary: k)
  case (Cons u us)
  show ?case
  proof (cases "stem (OfferName u) OfferBinSuffix = Some name")
    case False
    with Cons have "Suc k \<le> i" "i < Suc k + length us" "stem (OfferName (us ! (i - Suc k))) OfferBinSuffix = Some name"
      by fastforce+
    moreover from \<open>Suc k \<le> i\<close> have "i - k = Suc (i - Suc k)" by simp
    ultimately show ?thesis by simp
  qed (use Cons in simp)
qed simp

lemma find_offer_names: "map OfferName us = map OfferName vs \<Longrightarrow> find_offer n us k = find_offer n vs k"
proof (induction us arbitrary: vs k)
  case (Cons u us)
  then show ?case by (cases vs) auto
qed simp

lemma payload_entries_run:
  assumes "fileName (FwFiles s) = us" "list_all unit_ok us"
  shows "\<exists>ok us'. payload_entries es s = Ret ok (s\<lparr>FwFiles := FwFiles s\<lparr>fileName := us'\<rparr>\<rparr>) \<and>
    list_all unit_ok us' \<and> map OfferName us' = map OfferName us \<and>
    (ok \<longrightarrow> with_payload us' = with_payload us \<union> matched es us)"
  using assms
proof (induction es arbitrary: s us)
  case Nil
  have "payload_entries [] s = Ret True (s\<lparr>FwFiles := FwFiles s\<lparr>fileName := us\<rparr>\<rparr>)"
    unfolding Nil.prems(1) [symmetric] by (simp add: retC_def)
  with Nil.prems(2) show ?case by (auto simp: matched_def)
next
  case (Cons d es)
  note run = bindC_def getsC_def retC_def strcpy_fits_run FwNameLenMax_def
  consider (long) n where "stem d SrcBinSuffix = Some n" "128 \<le> length d"
    | (skip) "stem d SrcBinSuffix = None \<or> length d < 128 \<and> find_offer (the (stem d SrcBinSuffix)) us 0 = None"
    | (found) n i where "stem d SrcBinSuffix = Some n" "length d < 128" "find_offer n us 0 = Some i"
    by (cases "stem d SrcBinSuffix"; cases "find_offer (the (stem d SrcBinSuffix)) us 0"; cases "length d < 128") auto
  then show ?case
  proof cases
    case long
    then have "payload_entries (d # es) s = Ret False (s\<lparr>FwFiles := FwFiles s\<lparr>fileName := us\<rparr>\<rparr>)"
      unfolding Cons.prems(1) [symmetric] by (simp add: run)
    then show ?thesis using Cons.prems(2) by blast
  next
    case skip
    then have "payload_entries (d # es) s = payload_entries es s"
      using Cons.prems(1) by (auto simp: run split: option.split)
    moreover have "matched (d # es) us = matched es us" using skip by (auto simp: matched_def)
    ultimately show ?thesis using Cons.IH [OF Cons.prems] by simp
  next
    case found
    let ?us = "us[i := (us ! i)\<lparr>SrcBinName := d, is_srcbin_exist := True, is_download := False\<rparr>]"
    let ?s = "s\<lparr>FwFiles := FwFiles s\<lparr>fileName := ?us\<rparr>\<rparr>"
    from find_offer_Some [OF found(3)] have i: "i < length us" "stem (OfferName (us ! i)) OfferBinSuffix = Some n" by simp_all
    then have "payload_entries (d # es) s = payload_entries es ?s"
      using found Cons.prems(1) by (simp add: run set_unit_run)
    moreover have "unit_ok (us ! i)" using Cons.prems(2) i(1) by (simp add: list_all_length)
    then have "list_all unit_ok ?us"
      using i found by (intro list_all_update Cons.prems(2)) (auto simp: unit_ok_def)
    moreover have nm: "map OfferName ?us = map OfferName us" using i(1) by (simp add: map_update list_update_same_conv)
    moreover have "matched (d # es) us = insert i (matched es ?us)"
      using found find_offer_names [OF nm] by (auto simp: matched_def)
    moreover have "with_payload ?us = insert i (with_payload us)"
      using i(1) by (auto simp: with_payload_def nth_list_update)
    ultimately show ?thesis using Cons.IH [of ?s ?us] by auto
  qed
qed

text \<open>What a scan leaves: a table of 20 entries in order, with or without payloads.\<close>

definition table_ok :: "T_FwFile_Unit list \<Rightarrow> bool" where
  "table_ok us \<longleftrightarrow> length us = 20 \<and> list_all unit_ok us"

lemma getOfferBins_run:
  assumes "FwFiles s = FwFiles_zero"
  shows "\<exists>ok t. getOfferBins folder s = Ret ok t \<and> env t = env s \<and> table_ok (fileName (FwFiles t)) \<and>
    with_payload (fileName (FwFiles t)) = {} \<and>
    (ok \<longrightarrow> (\<exists>k. map OfferName (fileName (FwFiles t)) = offers_of (env s) folder (entries_of (env s) folder) @ replicate k []))"
proof -
  let ?us = "replicate 20 unit_zero" and ?s = "s\<lparr>FwFiles := FwFiles s\<lparr>offerfile_dirname := []\<rparr>\<rparr>"
  have us: "fileName (FwFiles_zero) = ?us" "list_all unit_ok ?us" "with_payload ?us = {}" "length ?us = 20"
    by (auto simp: FwFiles_zero_def unit_zero_def unit_ok_def with_payload_def list_all_iff)
  show ?thesis
  proof (cases "length folder < 512 \<and> folder \<noteq> [] \<and> dirs (env s) folder \<noteq> None")
    case True
    then obtain es where es: "dirs (env s) folder = Some es" by blast
    from offer_entries_run [of folder ?s ?us 0 es] True us assms obtain ok us' where
      "offer_entries folder es 0 ?s = Ret ok (?s\<lparr>FwFiles := FwFiles ?s\<lparr>fileName := us'\<rparr>\<rparr>)" "length us' = 20"
      "list_all unit_ok us'" "with_payload us' = {}"
      "ok \<longrightarrow> (\<exists>k. map OfferName us' = offers_of (env s) folder es @ replicate k [])"
      by auto
    with True es show ?thesis
      by (auto simp: getOfferBins_def os_opendir_def cmd_defs strcpy_fits_run FwDirnameLenMax_def entries_of_def table_ok_def)
  next
    case False
    then show ?thesis
      using us assms by (auto simp: getOfferBins_def os_opendir_def cmd_defs FwDirnameLenMax_def table_ok_def)
  qed
qed

lemma getPayloadBins_run:
  assumes "table_ok (fileName (FwFiles s))" "with_payload (fileName (FwFiles s)) = {}"
  shows "\<exists>ok t. getPayloadBins folder s = Ret ok t \<and> table_ok (fileName (FwFiles t)) \<and>
    map OfferName (fileName (FwFiles t)) = map OfferName (fileName (FwFiles s)) \<and>
    (ok \<longrightarrow> with_payload (fileName (FwFiles t)) = matched (entries_of (env s) folder) (fileName (FwFiles t)))"
proof (cases "length folder < 512 \<and> folder \<noteq> [] \<and> dirs (env s) folder \<noteq> None")
  case True
  let ?us = "fileName (FwFiles s)" and ?s = "s\<lparr>FwFiles := FwFiles s\<lparr>srcbinfile_dirname := []\<rparr>\<rparr>"
  from True obtain es where es: "dirs (env s) folder = Some es" by blast
  from payload_entries_run [of ?s ?us es] assms obtain ok us' where
    u: "payload_entries es ?s = Ret ok (?s\<lparr>FwFiles := FwFiles ?s\<lparr>fileName := us'\<rparr>\<rparr>)"
    "list_all unit_ok us'" "map OfferName us' = map OfferName ?us" "ok \<longrightarrow> with_payload us' = matched es ?us"
    by (auto simp: table_ok_def)
  then have "length us' = length ?us" "matched es ?us = matched es us'"
    using find_offer_names [OF u(3)] by (auto simp: matched_def dest: map_eq_imp_length_eq)
  with u True es assms(1) show ?thesis
    by (auto simp: getPayloadBins_def os_opendir_def cmd_defs strcpy_fits_run FwDirnameLenMax_def entries_of_def table_ok_def)
next
  case False
  then show ?thesis
    using assms by (auto simp: getPayloadBins_def os_opendir_def cmd_defs FwDirnameLenMax_def)
qed

text \<open>
  C20: Whatever is in the two directories, their scan returns and stores nothing outside of the
  table of 20 entries and its fields: every name fits, and an entry that has a payload has one
  with the stem of its offer. A scan of the offers that succeeds has listed exactly the readable
  offers of its directory, in order; a scan of the payloads that succeeds has found a payload for
  exactly the entries that are the first with the stem of one.
\<close>

theorem bins_paired:
  "\<exists>ok t ok' u. getOfferBins OfferFolder (s\<lparr>FwFiles := FwFiles_zero\<rparr>) = Ret ok t \<and> getPayloadBins SrcBinFolder t = Ret ok' u \<and>
    length (fileName (FwFiles u)) = 20 \<and> list_all unit_ok (fileName (FwFiles u)) \<and>
    (ok \<longrightarrow> (\<exists>k. map OfferName (fileName (FwFiles u)) =
      offers_of (env s) OfferFolder (entries_of (env s) OfferFolder) @ replicate k [])) \<and>
    (ok' \<longrightarrow> with_payload (fileName (FwFiles u)) = matched (entries_of (env s) SrcBinFolder) (fileName (FwFiles u)))"
proof -
  let ?s = "s\<lparr>FwFiles := FwFiles_zero\<rparr>"
  from getOfferBins_run [of ?s OfferFolder] obtain ok t where t: "getOfferBins OfferFolder ?s = Ret ok t"
      "env t = env s" "table_ok (fileName (FwFiles t))" "with_payload (fileName (FwFiles t)) = {}"
      "ok \<longrightarrow> (\<exists>k. map OfferName (fileName (FwFiles t)) = offers_of (env s) OfferFolder (entries_of (env s) OfferFolder) @ replicate k [])"
    by auto
  from getPayloadBins_run [OF t(3,4), of SrcBinFolder] t show ?thesis by (fastforce simp: table_ok_def)
qed

definition bins_env :: os_env where
  "bins_env = os_idle\<lparr>dirs := [''o'' \<mapsto> [''.'', ''c.offer.bin'', ''a.offer.bin''], ''p'' \<mapsto> [''b.payload.bin'', ''a.payload.bin'']],
     files := [''o/a.offer.bin'' \<mapsto> Regular (replicate 16 5), ''o/c.offer.bin'' \<mapsto> Regular [5]]\<rparr>"

definition scan :: "bool \<times> T_FwFile_Unit list" where
  "scan = (case getOfferBins ''o'' (main_init bins_env\<lparr>FwFiles := FwFiles_zero\<rparr>) of
     Ret ok t \<Rightarrow> (case getPayloadBins ''p'' t of Ret ok' u \<Rightarrow> (ok \<and> ok', filter is_srcbin_exist (fileName (FwFiles u))) | _ \<Rightarrow> (False, []))
   | _ \<Rightarrow> (False, []))"

lemma scan_run: "scan = (True, [\<lparr>OfferName = ''a.offer.bin'', SrcBinName = ''a.payload.bin'', image_type = 5,
    is_download = False, is_srcbin_exist = True\<rparr>])"
  by code_simp

lemma scan_offers: "offers_of bins_env ''o'' (entries_of bins_env ''o'') = [''a.offer.bin'']"
  by code_simp

theorem bins_paired_witness:
  "\<exists>t u. getOfferBins ''o'' (main_init bins_env\<lparr>FwFiles := FwFiles_zero\<rparr>) = Ret True t \<and>
     getPayloadBins ''p'' t = Ret True u \<and> length (fileName (FwFiles u)) = 20 \<and>
     (\<exists>k. map OfferName (fileName (FwFiles u)) = ''a.offer.bin'' # replicate k []) \<and>
     filter is_srcbin_exist (fileName (FwFiles u)) = [\<lparr>OfferName = ''a.offer.bin'', SrcBinName = ''a.payload.bin'',
       image_type = 5, is_download = False, is_srcbin_exist = True\<rparr>]"
proof -
  from scan_run obtain t u where
      r: "getOfferBins ''o'' (main_init bins_env\<lparr>FwFiles := FwFiles_zero\<rparr>) = Ret True t" "getPayloadBins ''p'' t = Ret True u"
      "filter is_srcbin_exist (fileName (FwFiles u)) = [\<lparr>OfferName = ''a.offer.bin'', SrcBinName = ''a.payload.bin'',
         image_type = 5, is_download = False, is_srcbin_exist = True\<rparr>]"
    by (auto simp: scan_def split: outcome.splits)
  from bins_paired [of "''o''" "main_init bins_env" "''p''"] r(1,2) scan_offers
  have "length (fileName (FwFiles u)) = 20 \<and> (\<exists>k. map OfferName (fileName (FwFiles u)) = ''a.offer.bin'' # replicate k [])"
    by auto
  with r show ?thesis by (intro exI [of _ t] exI [of _ u]) simp
qed

section \<open>Termination\<close>

lemma wait_frame_consumes:
  assumes "wait_frame end_us timeout h q s = Ret NO_ERR t" and h: "\<And>bs. steps fewer_answers (h bs)"
  shows "length (q_select (env t)) < length (q_select (env s))"
proof (cases q)
  case Nil
  with assms(1) show ?thesis by (auto simp: bindC_Ret_iff)
next
  case (Cons b q')
  let ?next = "bindC PlatTimeGet (\<lambda>now. if now < end_us then wait_frame end_us (timeval (end_us - now)) h q' else retC ERR_TIMEOUT)"
  let ?K = "\<lambda>rval. case rval of
      SelReady r e \<Rightarrow> (if r then bindC (ttyRead h) (\<lambda>ok. if ok then retC NO_ERR else ?next)
        else retC (if e then ERR_DISCONN else ERR_UNKNOWN))
    | _ \<Rightarrow> (if rval \<noteq> SelTimeout \<and> rval \<noteq> SelErr EINTR then retC ERR_UNEXPECTED else ?next)"
  from assms(1) Cons have "bindC (os_select timeout) ?K s = Ret NO_ERR t" by (simp add: Let_def)
  then obtain a u where u: "os_select timeout s = Ret a u" "?K a u = Ret NO_ERR t" by (rule bindC_RetE)
  have nx: "steps fewer_answers ?next"
    by (intro fewer.steps_rules fewer.PlatTimeGet_steps fewer.wait_frame_steps h)
  have rd: "steps fewer_answers (bindC (ttyRead h) (\<lambda>ok. if ok then retC NO_ERR else ?next))"
    by (intro fewer.steps_rules fewer.ttyRead_steps h nx)
  have "steps fewer_answers (?K a)"
    by (cases a; simp only: select_ans.case; (rule nx rd | rule fewer.steps_rules)+)
  then have "fewer_answers u t" using u(2) by (rule steps_Ret)
  then have "length (q_select (env t)) \<le> length (q_select (env u))" by (simp add: fewer_answers_def)
  moreover have "length (q_select (env u)) < length (q_select (env s))"
    using u(1) by (auto simp: os_select_def split: list.splits if_splits)
  ultimately show ?thesis by simp
qed

lemma ttyWaitForFrame_consumes:
  assumes "ttyWaitForFrame tmo h s = Ret NO_ERR t" and h: "\<And>bs. steps fewer_answers (h bs)"
  shows "length (q_select (env t)) < length (q_select (env s))"
proof -
  from assms(1) obtain now u q where u: "PlatTimeGet s = Ret now u" "wait_frame (now + tmo) (timeval tmo) h q u = Ret NO_ERR t"
    by (auto simp: ttyWaitForFrame_def bindC_Ret_iff getsC_def)
  from steps_Ret [OF fewer.PlatTimeGet_steps u(1)] wait_frame_consumes [OF u(2) h] show ?thesis
    by (simp add: fewer_answers_def)
qed

text \<open>
  The bound on the turns of \<open>drain_loop\<close> is never what stops it: every turn that goes on takes an
  answer of \<open>select\<close>, and \<open>drain\<close> starts with one turn more than there are answers. While data
  keeps arriving the loop goes on, and when the answers end it is blocked.
\<close>

lemma drain_loop_fuel:
  "length (q_select (env s)) < n \<Longrightarrow> drain_loop (n + k) s = drain_loop n s"
proof (induction n arbitrary: s)
  case (Suc n)
  show ?case
  proof (cases "ttyWaitForFrame 1000000 getRemainDataHandle s")
    case (Ret e t)
    have "length (q_select (env t)) < length (q_select (env s))" if "e = NO_ERR"
      using ttyWaitForFrame_consumes Ret that fewer_fw.remain_steps by blast
    with Suc Ret show ?thesis by (auto simp: bindC_def)
  qed (simp_all add: bindC_def)
qed simp

section \<open>Replies cut off and payloads without blocks\<close>











lemma ProcessSrecBin_End_iff:
  "(\<exists>c. ProcessSrecBin src cd = SrecEnd c) \<longleftrightarrow> src = [] \<or> 4 < length src \<and> src ! 4 = 0"
proof (cases "drop 4 src")
  case Nil
  then show ?thesis by (auto simp: ProcessSrecBin_def Let_def)
next
  case (Cons b bs)
  then have "4 < length src" by (metis drop_eq_Nil2 list.distinct(1) not_less)
  moreover from this Cons have "src ! 4 = b" by (metis hd_drop_conv_nth list.sel(1))
  ultimately show ?thesis using Cons by (auto simp: ProcessSrecBin_def Let_def)
qed

lemma send_blocks_consumes:
  assumes "ProcessSrecBin src cd = SrecBlock c src'" "send_blocks src cd n m a s = Ret True t"
  shows "length (q_write (env t)) < length (q_write (env s))"
proof -
  obtain cd' a' where cp: "content_packet c n m a = (cd', a')" by fastforce
  let ?K = "bindC (ttyWaitForFrame 2000000 ReponseHandle) (\<lambda>err. if err \<noteq> NO_ERR then retC False
    else bindC (getsC (\<lambda>s. repBuff s ! 5)) (\<lambda>status. if status \<noteq> FIRMWARE_UPDATE_SUCCESS then retC False
      else send_blocks src' (cd'\<lparr>sequenceNumber := sequenceNumber cd' + 1\<rparr>) (n + 1) m a'))"
  from assms(2) obtain u where u: "ttyWrite (content_bytes FWUpdateContent_reportid cd') s = Ret NO_ERR u" "?K u = Ret True t"
    by (subst (asm) send_blocks.simps) (auto simp: assms(1) cp retC_def elim!: bindC_RetE split: if_splits)
  have "steps fewer_answers ?K"
    by (intro fewer.steps_rules fewer.tty_steps fewer_fw.reply_steps fewer_fw.send_blocks_steps)
  from steps_Ret [OF this u(2)] ttyWrite_consumes [OF _ u(1)] show ?thesis
    by (simp add: fewer_answers_def content_bytes_def)
qed

text \<open>
  C22: A payload file is reported as transferred without a byte being sent exactly if it has no
  block: it is empty or the length of its first block is 0. The share of the packets sent is then
  0 / 0, and the test that is to catch \<open>no content packets to send\<close> does not.
\<close>

theorem FwUpdateSrc_no_blocks:
  assumes "files (env s) SrcBinPath = Some (Regular content)"
  shows "FwUpdateSrc SrcBinPath ForceIgnoreVersion ForceReset s = Ret True s \<longleftrightarrow>
    content = [] \<or> 4 < length content \<and> content ! 4 = 0"
proof -
  let ?run = "FwUpdateSrc SrcBinPath ForceIgnoreVersion ForceReset s"
  have run: "?run = (case srec_count content content_init of None \<Rightarrow> Exit 1 s
      | Some (n, cd) \<Rightarrow> send_blocks content cd 0 (of_nat n) 0 s)"
    using assms by (simp add: FwUpdateSrc_def cmd_defs split: option.split)
  show ?thesis
  proof (cases "\<exists>c. ProcessSrecBin content content_init = SrecEnd c")
    case True
    then obtain c where c: "ProcessSrecBin content content_init = SrecEnd c" by blast
    from True have "\<exists>c'. ProcessSrecBin content c = SrecEnd c'" by (simp only: ProcessSrecBin_End_iff)
    with c have "?run = Ret True s"
      by (auto simp: run srec_count.simps send_blocks.simps retC_def fdiv_def)
    with True show ?thesis by (simp add: ProcessSrecBin_End_iff)
  next
    case False
    have "?run \<noteq> Ret True s"
    proof
      assume "?run = Ret True s"
      then obtain n cd where n: "send_blocks content cd 0 (of_nat n) 0 s = Ret True s"
        by (auto simp: run split: option.splits)
      from False have "\<nexists>c. ProcessSrecBin content cd = SrecEnd c" by (simp only: ProcessSrecBin_End_iff not_False_eq_True)
      then show False using n send_blocks_consumes [OF _ n]
        by (cases "ProcessSrecBin content cd") (auto simp: send_blocks.simps exitC_def)
    qed
    with False show ?thesis by (simp add: ProcessSrecBin_End_iff)
  qed
qed

theorem FwUpdateSrc_no_blocks_witness:
  "let s = main_init (os_idle\<lparr>files := [''a.payload.bin'' \<mapsto> Regular [0, 0, 8, 0, 0, 1, 2, 3]]\<rparr>)
   in FwUpdateSrc ''a.payload.bin'' 0 0 s = Ret True s"
  unfolding Let_def by (subst FwUpdateSrc_no_blocks [where content = "[0, 0, 8, 0, 0, 1, 2, 3]"]) simp_all

end
