(* ===== verification/BtH4.thy ===== *)
theory BtH4
  imports Clib "HOL-Library.Sublist"
begin

text \<open>
  The command layer of the Bluetooth attach tool, \<^verbatim>\<open>hciattach_h4.c\<close>: a command packet goes out
  whole, and the reply is the command complete event for its opcode. The state holds the serial
  line, as scripts of the answers to \<open>poll\<close>, \<open>read\<close>, \<open>write\<close> and \<open>tcsetattr\<close>, the answers of the
  other device nodes, and \<open>rtb_cfg\<close>.
\<close>

unbundle bit_operations_syntax

section \<open>Data\<close>

text \<open>\<open>PollReady e\<close>: a positive result, with an error or hang-up marked or not.\<close>

datatype poll_ans = PollReady bool | PollTimeout | PollErr

record patch_info =
  match_flags :: u32
  pi_chip_type :: u8
  pi_lmp_subver :: u16
  pi_hci_ver :: u8
  pi_hci_rev :: u16
  patch_file :: string
  config_file :: string

record rtb_struct =
  lmp_subver :: u16
  hci_rev :: u16
  hci_ver :: u8
  eversion :: u8
  chip_type :: u8
  vendor_baud :: u32
  uart_flow_ctrl :: u32
  parenb :: u16
  pareven :: u16
  final_speed :: int
  fw_buf :: bytes
  config_buf :: bytes
  proto :: int

text \<open>
  \<open>q_devopen\<close> and \<open>q_devioctl\<close>: whether the open of a device node succeeds; the result of an
  \<open>ioctl\<close> on it and the byte it stores. \<open>host_flow\<close> and \<open>host_speed\<close>: the flow control and the speed in the
  terminal settings \<open>ti\<close>, which every call of \<open>tcsetattr\<close> is given.
\<close>

record bt_globals =
  q_poll :: "poll_ans list"
  q_rd :: "read_ans list"
  q_wr :: "write_ans list"
  q_tcset :: "bool list"
  q_devopen :: "bool list"
  q_devioctl :: "(int \<times> u8) list"
  hci_out :: bytes
  hci_in :: bytes
  host_flow :: bool
  host_speed :: int
  rtb_cfg :: rtb_struct

section \<open>System calls\<close>

definition bt_poll :: "('z bt_globals_scheme, poll_ans) cmd" where
  "bt_poll s = (case q_poll s of [] \<Rightarrow> Blocked s | a # as \<Rightarrow> Ret a (s\<lparr>q_poll := as\<rparr>))"

definition bt_read :: "nat \<Rightarrow> ('z bt_globals_scheme, read_ans) cmd" where
  "bt_read n s = (case q_rd s of
     [] \<Rightarrow> Blocked s
   | RdErr e # as \<Rightarrow> Ret (RdErr e) (s\<lparr>q_rd := as\<rparr>)
   | RdData bs # as \<Rightarrow> Ret (RdData (take n bs)) (s\<lparr>q_rd := as, hci_in := hci_in s @ take n bs\<rparr>))"

definition bt_write :: "bytes \<Rightarrow> ('z bt_globals_scheme, write_ans) cmd" where
  "bt_write buf s = (case q_wr s of
     [] \<Rightarrow> Blocked s
   | WrErr e # as \<Rightarrow> Ret (WrErr e) (s\<lparr>q_wr := as\<rparr>)
   | WrDone n # as \<Rightarrow> Ret (WrDone (min n (length buf))) (s\<lparr>q_wr := as, hci_out := hci_out s @ take n buf\<rparr>))"

definition bt_devopen :: "('z bt_globals_scheme, bool) cmd" where
  "bt_devopen s = (case q_devopen s of [] \<Rightarrow> Blocked s | a # as \<Rightarrow> Ret a (s\<lparr>q_devopen := as\<rparr>))"

definition bt_devioctl :: "('z bt_globals_scheme, int \<times> u8) cmd" where
  "bt_devioctl s = (case q_devioctl s of [] \<Rightarrow> Blocked s | a # as \<Rightarrow> Ret a (s\<lparr>q_devioctl := as\<rparr>))"

definition bt_tcsetattr :: "bool \<Rightarrow> int \<Rightarrow> ('z bt_globals_scheme, bool) cmd" where
  "bt_tcsetattr flow speed s = (case q_tcset s of
     [] \<Rightarrow> Blocked s
   | ok # as \<Rightarrow> Ret ok (s\<lparr>q_tcset := as, host_flow := flow, host_speed := speed\<rparr>))"

lemmas bt_defs = bt_poll_def bt_read_def bt_write_def bt_devopen_def bt_devioctl_def bt_tcsetattr_def

section \<open>Transfer of a command\<close>

definition NUM_OF_RETRY :: nat where "NUM_OF_RETRY = 10"

text \<open>
  Up to \<open>len\<close> more bytes behind \<open>acc\<close>; the result is the return value and what the buffer got. The
  recursion is over the answers of \<open>read\<close> that are left.
\<close>

fun read_data :: "nat \<Rightarrow> nat \<Rightarrow> bytes \<Rightarrow> read_ans list \<Rightarrow> ('z bt_globals_scheme, int \<times> bytes) cmd" where
  "read_data len count acc [] =
     (if len = 0 then retC (int (length acc), acc) else bindC (bt_read len) (\<lambda>_. Blocked))"
| "read_data len count acc (_ # q) =
     (if len = 0 then retC (int (length acc), acc)
      else bindC (bt_read len) (\<lambda>r. case r of
          RdErr e \<Rightarrow> if e = EINTR \<or> e = EAGAIN then read_data len count acc q else retC (- 1, acc)
        | RdData w \<Rightarrow>
            if w = [] \<and> count + 1 > NUM_OF_RETRY then retC (0, acc)
            else read_data (len - length w) (if w = [] then count + 1 else count) (acc @ w) q))"

definition read_exact :: "nat \<Rightarrow> ('z bt_globals_scheme, int \<times> bytes) cmd" where
  "read_exact len = bindC (getsC q_rd) (\<lambda>q. read_data len 0 [] q)"

text \<open>The variables of the receiving loop: the buffer, its state, \<open>count\<close> and \<open>params_len\<close>.\<close>

record xfer =
  x_buf :: bytes
  x_state :: nat
  x_count :: nat
  x_params :: nat

definition xfer_init :: xfer where
  "xfer_init = \<lparr>x_buf = replicate 64 0, x_state = 1, x_count = 0, x_params = 0\<rparr>"

definition put_at :: "bytes \<Rightarrow> nat \<Rightarrow> bytes \<Rightarrow> bytes" where
  "put_at buf i bs = take i buf @ bs @ drop (i + length bs) buf"

text \<open>One turn of the loop: the transfer fails, goes on, or an event is in the buffer.\<close>

datatype xfer_step = XFail | XMore xfer | XEvent xfer

definition recv_step :: "xfer \<Rightarrow> ('z bt_globals_scheme, xfer_step) cmd" where
  "recv_step x =
     (if x_state x = 1
      then bindC (read_exact 1) (\<lambda>(result, bs).
        if result \<noteq> 1 then retC XFail
        else let x = x\<lparr>x_buf := put_at (x_buf x) 0 bs\<rparr>
          in retC (XMore (if bs ! 0 = 0x04 then x\<lparr>x_count := 1, x_state := 2\<rparr> else x)))
      else if x_state x = 2
      then bindC (read_exact 2) (\<lambda>(result, bs).
        let x = x\<lparr>x_buf := put_at (x_buf x) (x_count x) bs\<rparr>
        in if result = - 1 then retC XFail
           else if result \<noteq> 2 then retC (XEvent x)
           else let x = x\<lparr>x_count := x_count x + 2, x_state := 3, x_params := unat (x_buf x ! 2)\<rparr>
             in if x_params x + 3 > 64 then retC XFail else retC (XMore x))
      else bindC (bt_read (x_params x)) (\<lambda>r. case r of
          RdErr e \<Rightarrow> retC XFail
        | RdData bs \<Rightarrow>
            let x = x\<lparr>x_buf := put_at (x_buf x) (x_count x) bs, x_count := x_count x + length bs,
                      x_params := x_params x - length bs\<rparr>
            in if x_params x = 0 then retC (XEvent x) else retC (XMore x)))"

text \<open>
  What the event says: \<open>None\<close>, it is not a command complete event and the receiving starts over;
  \<open>Some None\<close>, the result is -1; \<open>Some (Some resp)\<close>, the result is 0 and \<open>resp\<close> has the bytes that the
  caller gets. A caller without a buffer has \<open>resp_len\<close> 0.
\<close>

definition xfer_verdict :: "u16 \<Rightarrow> nat \<Rightarrow> xfer \<Rightarrow> bytes option option" where
  "xfer_verdict opcode resp_len x =
     (let buf = x_buf x
      in if buf ! 1 = 0x0e
         then (if (ucast (buf ! 4) :: u16) OR push_bit 8 (ucast (buf ! 5)) = opcode
               then (if buf ! 6 \<noteq> 0 then Some None else Some (Some (take (min resp_len (x_count x)) buf)))
               else Some None)
         else None)"

fun xfer_loop ::
  "bytes \<Rightarrow> u16 \<Rightarrow> nat \<Rightarrow> nat \<Rightarrow> xfer \<Rightarrow> poll_ans list \<Rightarrow> ('z bt_globals_scheme, bytes option) cmd" where
  "xfer_loop cmd opcode resp_len retry x [] = bindC bt_poll (\<lambda>_. Blocked)"
| "xfer_loop cmd opcode resp_len retry x (_ # q) =
     bindC bt_poll (\<lambda>r. case r of
       PollErr \<Rightarrow> retC None
     | PollTimeout \<Rightarrow>
         (if retry = 0 then exitC 1
          else bindC (bt_write cmd) (\<lambda>w.
            if w \<noteq> WrDone (length cmd) then retC None
            else xfer_loop cmd opcode resp_len (retry - 1) xfer_init q))
     | PollReady err \<Rightarrow>
         (if err then retC None
          else bindC (recv_step x) (\<lambda>y. case y of
              XFail \<Rightarrow> retC None
            | XMore x \<Rightarrow> xfer_loop cmd opcode resp_len retry x q
            | XEvent x \<Rightarrow> (case xfer_verdict opcode resp_len x of
                None \<Rightarrow> xfer_loop cmd opcode resp_len retry xfer_init q
              | Some res \<Rightarrow> retC res))))"

definition start_xfer_wait :: "bytes \<Rightarrow> nat \<Rightarrow> nat \<Rightarrow> ('z bt_globals_scheme, bytes option) cmd" where
  "start_xfer_wait cmd retry resp_len =
     (if length cmd < 4 then retC None
      else let opcode = push_bit 8 (ucast (cmd ! 2)) + ucast (cmd ! 1)
        in bindC (bt_write cmd) (\<lambda>w.
           if w \<noteq> WrDone (length cmd) then retC None
           else bindC (getsC q_poll) (\<lambda>q. xfer_loop cmd opcode resp_len retry xfer_init q)))"

section \<open>Commands\<close>

text \<open>\<open>Some r\<close>: the value of the last byte; \<open>None\<close>: -1.\<close>

definition h4_download_patch :: "int \<Rightarrow> bytes \<Rightarrow> ('z bt_globals_scheme, u8 option) cmd" where
  "h4_download_patch index data =
     (if 252 < length data then faultC
      else
        bindC (if bit index 7
               then bindC (getsC (\<lambda>s. (uart_flow_ctrl (rtb_cfg s) \<noteq> 0, host_speed s))) (\<lambda>(flow, speed). bt_tcsetattr flow speed)
               else retC True) (\<lambda>ok.
        if \<not> ok then retC None
        else bindC (start_xfer_wait ([0x01, 0x20, 0xfc, of_nat (length data + 1), word_of_int index] @ data) 0 8) (\<lambda>r.
          case r of
            None \<Rightarrow> retC None
          | Some resp \<Rightarrow> if length resp \<noteq> 8 then retC None else retC (Some (resp ! 7)))))"

definition h4_vendor_change_speed :: "u32 \<Rightarrow> ('z bt_globals_scheme, bool) cmd" where
  "h4_vendor_change_speed baudrate =
     bindC (start_xfer_wait ([1, 0x17, 0xfc, 4] @ le_bytes 4 baudrate) 0 0) (\<lambda>r. retC (r \<noteq> None))"

definition h4_hci_reset :: "('z bt_globals_scheme, bool) cmd" where
  "h4_hci_reset = bindC (start_xfer_wait [0x01, 0x03, 0x0c, 0x00] 0 0) (\<lambda>r. retC (r \<noteq> None))"

definition h4_read_local_ver :: "('z bt_globals_scheme, bool) cmd" where
  "h4_read_local_ver =
     bindC (start_xfer_wait [0x01, 0x01, 0x10, 0x00] 0 16) (\<lambda>r. case r of
       None \<Rightarrow> retC False
     | Some resp \<Rightarrow>
         if length resp \<noteq> 15 then retC False
         else bindC (modifyC (\<lambda>s. s\<lparr>rtb_cfg := (rtb_cfg s)\<lparr>hci_ver := resp ! 7,
               hci_rev := push_bit 8 (ucast (resp ! 9)) OR ucast (resp ! 8),
               lmp_subver := push_bit 8 (ucast (resp ! 14)) OR ucast (resp ! 13)\<rparr>\<rparr>)) (\<lambda>_. retC True))"

text \<open>The byte \<open>resp[7] + 1\<close> is compared as an int, \<open>rom_ver + 1\<close> wraps as a byte.\<close>

definition h4_vendor_read_rom_ver :: "('z bt_globals_scheme, bool) cmd" where
  "h4_vendor_read_rom_ver =
     bindC (start_xfer_wait [0x01, 0x6d, 0xfc, 0x00] 0 16) (\<lambda>r. case r of
       None \<Rightarrow> retC False
     | Some resp \<Rightarrow>
         if length resp \<noteq> 8 then retC False
         else bindC bt_devopen (\<lambda>ok. if \<not> ok then retC False else
           bindC bt_devioctl (\<lambda>(result, rom_ver). if result < 0 then retC False else
             bindC (modifyC (\<lambda>s. s\<lparr>rtb_cfg := (rtb_cfg s)\<lparr>eversion :=
               (if resp ! 7 = 1 \<and> rom_ver + 1 \<ge> 3 then 2 else resp ! 7)\<rparr>\<rparr>)) (\<lambda>_. retC True))))"

definition hci_platform_get_iqk_data :: "bytes \<Rightarrow> bytes" where
  "hci_platform_get_iqk_data phy_efuse =
     take 22 phy_efuse @ take 1 (drop 23 phy_efuse) @ take 26 (drop 25 phy_efuse) @ take 60 (drop 52 phy_efuse)"

definition HCI_WRITE_IQK_DATA_LEN :: nat where "HCI_WRITE_IQK_DATA_LEN = 0x6D"

definition h4_write_iqk :: "bytes \<Rightarrow> ('z bt_globals_scheme, bool) cmd" where
  "h4_write_iqk phy_efuse =
     bindC (start_xfer_wait ([0x01, 0x91, 0xfd, of_nat HCI_WRITE_IQK_DATA_LEN] @ hci_platform_get_iqk_data phy_efuse) 0 0)
       (\<lambda>r. retC (r \<noteq> None))"

section \<open>Replies\<close>

abbreviation anyX :: "'s \<Rightarrow> bool" where "anyX \<equiv> \<lambda>_. True"

text \<open>The line: what has been received and what has been sent.\<close>

definition lnk :: "bytes \<Rightarrow> bytes \<Rightarrow> 'z bt_globals_scheme \<Rightarrow> bool" where
  "lnk i out s \<longleftrightarrow> hci_in s = i \<and> hci_out s = out"

text \<open>A command complete event for an opcode. The status may be missing; it then counts as 0.\<close>

definition is_reply :: "u16 \<Rightarrow> bytes \<Rightarrow> bool" where
  "is_reply opcode evt \<longleftrightarrow> (\<exists>plen params. evt = [0x04, 0x0e, plen] @ params \<and> length params = unat plen \<and>
     3 \<le> length params \<and> (ucast (params ! 1) :: u16) OR push_bit 8 (ucast (params ! 2)) = opcode \<and>
     (length params = 3 \<or> params ! 3 = 0))"

lemma bt_poll_triple: "triple (lnk i out) bt_poll (\<lambda>_. lnk i out) anyX"
  by (auto simp: gtriple_def bt_poll_def lnk_def split: list.splits)

lemma bt_read_triple:
  "triple (lnk i out) (bt_read n) (\<lambda>r. case r of RdErr e \<Rightarrow> lnk i out | RdData w \<Rightarrow> \<lambda>s. lnk (i @ w) out s \<and> length w \<le> n) anyX"
  by (auto simp: gtriple_def bt_read_def lnk_def split: list.splits read_ans.splits)

definition got :: "bytes \<Rightarrow> bytes \<Rightarrow> nat \<Rightarrow> bytes \<Rightarrow> int \<times> bytes \<Rightarrow> 'z bt_globals_scheme \<Rightarrow> bool" where
  "got i out len acc r s \<longleftrightarrow> (\<exists>d. snd r = acc @ d \<and> lnk (i @ d) out s \<and>
     (fst r = int (length acc + len) \<and> length d = len \<or> (fst r = 0 \<or> fst r = - 1) \<and> length d < len))"

lemma got_step: "got (i @ w) out (len - length w) (acc @ w) r s \<Longrightarrow> length w \<le> len \<Longrightarrow> got i out len acc r s"
  unfolding got_def by (elim exE, rule_tac x="w @ d" in exI) auto

lemma read_data_triple:
  "triple (lnk i out :: 'z bt_globals_scheme \<Rightarrow> bool) (read_data len c acc q) (got i out len acc) anyX"
proof (induction q arbitrary: i len c acc)
  case Nil
  show ?case by (auto simp: gtriple_def got_def cmd_defs bt_read_def split: list.splits read_ans.splits)
next
  case (Cons a q)
  have stop: "triple (lnk i out :: 'z bt_globals_scheme \<Rightarrow> bool) (retC (r, acc)) (got i out len acc) anyX" if "len \<noteq> 0" "r = 0 \<or> r = - 1" for r
    using that by (intro triple_retC) (auto simp: got_def)
  have full: "triple (lnk i out :: 'z bt_globals_scheme \<Rightarrow> bool) (retC (int (length acc), acc)) (got i out len acc) anyX" if "len = 0"
    using that by (intro triple_retC) (auto simp: got_def)
  show ?case unfolding read_data.simps
  proof (intro triple_if full triple_bindC [OF bt_read_triple], goal_cases)
    case (2 r)
    show ?case
    proof (cases r)
      case (RdErr e)
      then show ?thesis using stop 2 Cons.IH by (auto intro!: triple_if)
    next
      case (RdData w)
      have "triple (\<lambda>s :: 'z bt_globals_scheme. lnk (i @ w) out s \<and> length w \<le> len)
          (read_data (len - length w) (if w = [] then c + 1 else c) (acc @ w) q) (got i out len acc) anyX"
        if "length w \<le> len"
        by (rule triple_conseq [OF Cons.IH]) (use that in \<open>auto intro: got_step\<close>)
      moreover have "triple (\<lambda>s :: 'z bt_globals_scheme. lnk i out s \<and> True) (retC (0, acc)) (got i out len acc) anyX"
        using stop [of 0] 2 by simp
      ultimately show ?thesis using RdData
        by (cases "length w \<le> len") (auto simp: gtriple_def)
    qed
  qed
qed

lemma read_exact_triple: "triple (lnk i out) (read_exact len) (got i out len []) anyX"
  unfolding read_exact_def by (intro triple_gets_bind read_data_triple)

definition pad :: "bytes \<Rightarrow> bytes" where
  "pad p = p @ replicate (64 - length p) 0"

lemma pad_nth: "pad p ! k = (if k < length p then p ! k else if k < 64 then 0 else pad p ! k)"
  by (auto simp: pad_def nth_append)

lemma put_at_pad: "length p + length bs \<le> 64 \<Longrightarrow> put_at (pad p) (length p) bs = pad (p @ bs)"
  by (simp add: put_at_def pad_def)

definition in_event :: "bytes \<Rightarrow> nat \<Rightarrow> bool" where
  "in_event p todo \<longleftrightarrow> (\<exists>e plen part. p = [0x04, e, plen] @ part \<and> todo + length part = unat plen \<and> unat plen \<le> 61)"

text \<open>The loop has collected \<open>p\<close> of an event; an event \<open>p\<close> is complete, or given up behind its type.\<close>

definition xfer_inv :: "xfer \<Rightarrow> bytes \<Rightarrow> bool" where
  "xfer_inv x p \<longleftrightarrow>
     x_state x = 1 \<and> p = [] \<and> (\<exists>b. x_buf x = b # replicate 63 0) \<or>
     x_state x = 2 \<and> p = [0x04] \<and> x_count x = 1 \<and> x_buf x = pad p \<or>
     x_state x = 3 \<and> in_event p (x_params x) \<and> x_count x = length p \<and> x_buf x = pad p"

definition xfer_event :: "xfer \<Rightarrow> bytes \<Rightarrow> bool" where
  "xfer_event x p \<longleftrightarrow> x_buf x = pad p \<and> (in_event p 0 \<and> x_count x = length p \<or> length p \<le> 2)"

definition during :: "(xfer \<Rightarrow> bytes \<Rightarrow> bool) \<Rightarrow> bytes \<Rightarrow> bytes \<Rightarrow> xfer \<Rightarrow> 'z bt_globals_scheme \<Rightarrow> bool" where
  "during Q i out x s \<longleftrightarrow> (\<exists>pre p. lnk (i @ pre @ p) out s \<and> Q x p)"

definition step_post :: "bytes \<Rightarrow> bytes \<Rightarrow> xfer_step \<Rightarrow> 'z bt_globals_scheme \<Rightarrow> bool" where
  "step_post i out y s = (case y of
     XFail \<Rightarrow> \<exists>i'. lnk i' out s | XMore x \<Rightarrow> during xfer_inv i out x s | XEvent x \<Rightarrow> during xfer_event i out x s)"

lemma recv_step1:
  assumes "x_state x = 1" "x_buf x = b # replicate 63 0"
  shows "triple (lnk (i @ pre) out :: 'z bt_globals_scheme \<Rightarrow> bool) (recv_step x) (step_post i out) anyX"
proof -
  have eq: "(recv_step x :: ('z bt_globals_scheme, xfer_step) cmd) = bindC (read_exact 1) (\<lambda>(result, bs).
        if result \<noteq> 1 then retC XFail
        else let x = x\<lparr>x_buf := put_at (x_buf x) 0 bs\<rparr>
          in retC (XMore (if bs ! 0 = 0x04 then x\<lparr>x_count := 1, x_state := 2\<rparr> else x)))"
    using assms by (simp add: recv_step_def)
  show ?thesis unfolding eq
  proof (intro triple_bindC [OF read_exact_triple], rule tripleI, goal_cases)
      case (1 r s)
      then obtain d where d: "snd r = d" "lnk ((i @ pre) @ d) out s"
          "fst r = 1 \<and> length d = 1 \<or> (fst r = 0 \<or> fst r = - 1) \<and> length d < 1"
        unfolding got_def by auto
      show ?case
      proof (cases "fst r = 1")
        case True
        with d obtain c where c: "d = [c]" by (cases d) auto
        have "put_at (x_buf x) 0 [c] = c # replicate 63 0" using assms by (simp add: put_at_def)
        moreover have "during xfer_inv i out (x\<lparr>x_buf := c # replicate 63 0\<rparr>) s"
          unfolding during_def using d(2) c assms by (intro exI [of _ "pre @ [c]"] exI [of _ "[]"]) (simp add: xfer_inv_def)
        moreover have "during xfer_inv i out (x\<lparr>x_buf := 4 # replicate 63 0, x_count := 1, x_state := 2\<rparr>) s" if "c = 4"
          unfolding during_def using d(2) c that
          by (intro exI [of _ pre] exI [of _ "[4]"]) (simp add: xfer_inv_def pad_def)
        ultimately show ?thesis using True d c by (auto simp: Let_def retC_def step_post_def split: prod.splits)
      qed (use d in \<open>auto simp: retC_def step_post_def split: prod.splits\<close>)
  qed
qed

lemma recv_step2:
  assumes "x_state x = 2" "x_count x = 1" "x_buf x = pad [0x04]"
  shows "triple (lnk (i @ pre @ [0x04]) out :: 'z bt_globals_scheme \<Rightarrow> bool) (recv_step x) (step_post i out) anyX"
proof -
  have eq: "(recv_step x :: ('z bt_globals_scheme, xfer_step) cmd) = bindC (read_exact 2) (\<lambda>(result, bs).
        let x = x\<lparr>x_buf := put_at (x_buf x) (x_count x) bs\<rparr>
        in if result = - 1 then retC XFail
           else if result \<noteq> 2 then retC (XEvent x)
           else let x = x\<lparr>x_count := x_count x + 2, x_state := 3, x_params := unat (x_buf x ! 2)\<rparr>
             in if x_params x + 3 > 64 then retC XFail else retC (XMore x))"
    using assms by (simp add: recv_step_def)
  show ?thesis unfolding eq
  proof (intro triple_bindC [OF read_exact_triple], rule tripleI, goal_cases)
    case (1 r s)
    then obtain d where d: "snd r = d" "lnk ((i @ pre @ [0x04]) @ d) out s"
        "fst r = 2 \<and> length d = 2 \<or> (fst r = 0 \<or> fst r = - 1) \<and> length d < 2"
      unfolding got_def by auto
    have buf: "put_at (x_buf x) (x_count x) d = pad (0x04 # d)"
      using put_at_pad [of "[0x04]" d] d(3) assms by auto
    have ev: "during xfer_event i out (x\<lparr>x_buf := pad (0x04 # d)\<rparr>) s" if "length d < 2"
      unfolding during_def using d(2) that by (intro exI [of _ pre] exI [of _ "0x04 # d"]) (simp add: xfer_event_def)
    have more: "during xfer_inv i out (x\<lparr>x_buf := pad (0x04 # d), x_count := 3, x_state := 3, x_params := unat (d ! 1)\<rparr>) s"
      if "length d = 2" "unat (d ! 1) \<le> 61"
    proof -
      from that(1) obtain e l where "d = [e, l]" by (auto simp: numeral_2_eq_2 length_Suc_conv)
      then show ?thesis unfolding during_def using d(2) that
        by (intro exI [of _ pre] exI [of _ "[0x04, e, l]"]) (simp add: xfer_inv_def in_event_def)
    qed
    have "pad (0x04 # d) ! 2 = d ! 1" if "length d = 2" using that by (simp add: pad_nth)
    then show ?case using d buf ev more assms(2)
      by (auto simp: Let_def retC_def step_post_def numeral_3_eq_3 split: prod.splits if_splits)
  qed
qed

lemma ucast_u8_less: "(ucast (b :: u8) :: u16) < 0x100"
proof -
  have "unat b < 256" using unsigned_less [of b, where ?'a = nat] by simp
  then show ?thesis by (simp add: word_less_nat_alt unsigned_ucast_eq take_bit_nat_eq_self)
qed

lemma recv_step3:
  assumes "x_state x = 3" "in_event p (x_params x)" "x_count x = length p" "x_buf x = pad p"
  shows "triple (lnk (i @ pre @ p) out :: 'z bt_globals_scheme \<Rightarrow> bool) (recv_step x) (step_post i out) anyX"
proof -
  have eq: "(recv_step x :: ('z bt_globals_scheme, xfer_step) cmd) = bindC (bt_read (x_params x)) (\<lambda>r. case r of
          RdErr e \<Rightarrow> retC XFail
        | RdData bs \<Rightarrow>
            let x = x\<lparr>x_buf := put_at (x_buf x) (x_count x) bs, x_count := x_count x + length bs,
                      x_params := x_params x - length bs\<rparr>
            in if x_params x = 0 then retC (XEvent x) else retC (XMore x))"
  proof -
    have "x_state x \<noteq> 1" "x_state x \<noteq> 2" using assms(1) by simp_all
    then show ?thesis by (simp only: recv_step_def if_False)
  qed
  have len: "length p + x_params x \<le> 64" using assms(2) by (auto simp: in_event_def)
  have ev: "in_event (p @ w) (x_params x - length w)" if "length w \<le> x_params x" for w
    using assms(2) that unfolding in_event_def by fastforce
  show ?thesis unfolding eq
  proof (intro triple_bindC [OF bt_read_triple], rule tripleI, goal_cases)
    case (1 r s)
    show ?case
    proof (cases r)
      case (RdData w)
      with 1 have w: "lnk ((i @ pre @ p) @ w) out s" "length w \<le> x_params x" by simp_all
      let ?x = "x\<lparr>x_buf := pad (p @ w), x_count := length p + length w, x_params := x_params x - length w\<rparr>"
      have buf: "put_at (x_buf x) (x_count x) w = pad (p @ w)" using put_at_pad [of p w] w len assms by simp
      have "during xfer_inv i out ?x s" unfolding during_def
        using w ev [of w] assms by (intro exI [of _ pre] exI [of _ "p @ w"]) (simp add: xfer_inv_def)
      moreover have "during xfer_event i out ?x s" if "x_params x - length w = 0" unfolding during_def
        using w ev [of w] that by (intro exI [of _ pre] exI [of _ "p @ w"]) (simp add: xfer_event_def)
      ultimately show ?thesis using RdData buf assms(3)
        by (auto simp: Let_def retC_def step_post_def)
    qed (use 1 in \<open>auto simp: retC_def step_post_def\<close>)
  qed
qed

lemma recv_step_triple: "triple (during xfer_inv i out x) (recv_step x) (step_post i out) anyX"
proof (rule tripleI, goal_cases)
  case (1 s)
  then obtain pre p where p: "lnk (i @ pre @ p) out s" "xfer_inv x p" by (auto simp: during_def)
  from p(2) consider b where "x_state x = 1" "p = []" "x_buf x = b # replicate 63 0"
    | "x_state x = 2" "p = [0x04]" "x_count x = 1" "x_buf x = pad [0x04]"
    | "x_state x = 3" "in_event p (x_params x)" "x_count x = length p" "x_buf x = pad p"
    by (auto simp: xfer_inv_def)
  then show ?case
  proof cases
    case 1
    then show ?thesis using tripleD [OF recv_step1 [of x b i pre out], of s] p(1) by simp
  next
    case 2
    then show ?thesis using tripleD [OF recv_step2 [of x i pre out], of s] p(1) by simp
  next
    case 3
    then show ?thesis using tripleD [OF recv_step3 [of x p i pre out], of s] p(1) by simp
  qed
qed

definition replied :: "bytes \<Rightarrow> bytes \<Rightarrow> u16 \<Rightarrow> nat \<Rightarrow> bytes option \<Rightarrow> 'z bt_globals_scheme \<Rightarrow> bool" where
  "replied i out opcode resp_len r s = (case r of
     None \<Rightarrow> \<exists>i'. lnk i' out s
   | Some resp \<Rightarrow> \<exists>pre evt. lnk (i @ pre @ evt) out s \<and> is_reply opcode evt \<and> resp = take resp_len evt)"

text \<open>An opcode with a high byte cannot be read off the zeros behind a short event.\<close>

lemma verdict_reply:
  assumes "xfer_event x p" "0x100 \<le> opcode" "xfer_verdict opcode n x = Some (Some resp)"
  shows "is_reply opcode p \<and> resp = take n p"
proof -
  have hi: "length p \<ge> 6"
  proof (rule ccontr)
    assume "\<not> length p \<ge> 6"
    then have z: "pad p ! 5 = 0" by (simp add: pad_nth)
    have "(ucast (pad p ! 4) :: u16) < 0x100" by (rule ucast_u8_less)
    then show False using assms z by (auto simp: xfer_verdict_def Let_def xfer_event_def not_le split: if_splits)
  qed
  with assms(1) obtain e plen params where p: "p = [0x04, e, plen] @ params" "length params = unat plen" "unat plen \<le> 61"
      "x_count x = length p" "x_buf x = pad p" by (auto simp: xfer_event_def in_event_def)
  have n: "pad p ! 1 = e" "pad p ! 4 = params ! 1" "pad p ! 5 = params ! 2"
      "pad p ! 6 = (if length params = 3 then 0 else params ! 3)"
    using p hi by (simp_all add: pad_nth)
  have "take (min n (length p)) (pad p) = take n p" by (simp add: pad_def min_def)
  then show ?thesis using assms(3) p n hi
    by (auto simp: xfer_verdict_def Let_def is_reply_def split: if_splits)
qed

lemma xfer_init_inv: "xfer_inv xfer_init []"
proof -
  have "replicate 64 (0 :: u8) = 0 # replicate 63 0" by (simp add: numeral_eq_Suc)
  then show ?thesis by (auto simp: xfer_inv_def xfer_init_def)
qed

lemma xfer_loop_triple:
  assumes "0x100 \<le> opcode"
  shows "triple (during xfer_inv i out x :: 'z bt_globals_scheme \<Rightarrow> bool) (xfer_loop cmd opcode n 0 x q)
    (replied i out opcode n) anyX"
proof (induction q arbitrary: x)
  case Nil
  show ?case by (auto simp: gtriple_def cmd_defs bt_poll_def split: list.splits)
next
  case (Cons a q)
  have poll: "triple (during xfer_inv i out x :: 'z bt_globals_scheme \<Rightarrow> bool) bt_poll (\<lambda>_. during xfer_inv i out x) anyX"
    by (fastforce simp: gtriple_def bt_poll_def during_def lnk_def split: list.splits)
  have fail: "triple (during xfer_inv i out x :: 'z bt_globals_scheme \<Rightarrow> bool) (retC None) (replied i out opcode n) anyX"
    by (rule triple_retC) (auto simp: during_def replied_def)
  have rest: "triple (step_post i out y :: 'z bt_globals_scheme \<Rightarrow> bool) (case y of
              XFail \<Rightarrow> retC None
            | XMore x \<Rightarrow> xfer_loop cmd opcode n 0 x q
            | XEvent x \<Rightarrow> (case xfer_verdict opcode n x of
                None \<Rightarrow> xfer_loop cmd opcode n 0 xfer_init q
              | Some res \<Rightarrow> retC res)) (replied i out opcode n) anyX" for y
  proof (cases y)
    case (XEvent x)
    have again: "triple (during xfer_event i out x :: 'z bt_globals_scheme \<Rightarrow> bool) (xfer_loop cmd opcode n 0 xfer_init q)
        (replied i out opcode n) anyX"
    proof (rule triple_pre [OF Cons.IH])
      fix s :: "'z bt_globals_scheme"
      assume "during xfer_event i out x s"
      then obtain pre p where "lnk (i @ pre @ p) out s" by (auto simp: during_def)
      then show "during xfer_inv i out xfer_init s"
        unfolding during_def using xfer_init_inv by (intro exI [of _ "pre @ p"] exI [of _ "[]"]) simp
    qed
    have "triple (during xfer_event i out x :: 'z bt_globals_scheme \<Rightarrow> bool) (retC res) (replied i out opcode n) anyX"
      if "xfer_verdict opcode n x = Some res" for res
      by (rule triple_retC, cases res) (use verdict_reply [OF _ assms] that in \<open>fastforce simp: during_def replied_def\<close>)+
    with again XEvent show ?thesis by (auto simp: step_post_def [abs_def] split: option.split)
  qed (auto simp: step_post_def [abs_def] replied_def intro!: triple_retC Cons.IH)
  show ?case unfolding xfer_loop.simps
    by (rule triple_bindC [OF poll])
      (auto intro: fail rest triple_exitC triple_bindC [OF recv_step_triple] split: poll_ans.split)
qed

lemma opcode_le_word:
  "(ucast (a :: u8) :: u16) OR push_bit 8 (ucast (b :: u8)) = le_word [a, b]"
  "push_bit 8 (ucast (b :: u8) :: u16) + ucast (a :: u8) = le_word [a, b]"
proof -
  have "push_bit 8 (ucast b :: u16) + ucast a = push_bit 8 (ucast b) OR ucast a"
    by (rule disjunctive_add) (auto simp: bit_push_bit_iff bit_ucast_iff word_bit_beyond)
  then show "push_bit 8 (ucast b :: u16) + ucast a = le_word [a, b]" by (simp add: or.commute)
qed simp

lemma opcode_inj: "(le_word [a, b] :: u16) = le_word [c, d] \<longleftrightarrow> a = c \<and> b = d"
proof -
  have "le_bytes 2 (le_word [a, b] :: u16) = [a, b]" "le_bytes 2 (le_word [c, d] :: u16) = [c, d]"
    by (rule le_bytes_le_word; simp)+
  then show ?thesis by (metis list.inject)
qed

lemma opcode_high: "b \<noteq> 0 \<Longrightarrow> 0x100 \<le> (le_word [a, b] :: u16)"
proof (rule ccontr)
  assume b: "b \<noteq> 0" and "\<not> 0x100 \<le> (le_word [a, b] :: u16)"
  then have "unat (le_word [a, b] :: u16) < 256" by (simp add: word_le_nat_alt del: le_word.simps)
  then have "drop_bit 8 (le_word [a, b] :: u16) = 0"
    by (intro word_unat_eq_iff [THEN iffD2]) (simp add: drop_bit_eq_div unat_div del: le_word.simps)
  moreover have "le_bytes 2 (le_word [a, b] :: u16) = [a, b]" by (rule le_bytes_le_word) simp_all
  ultimately show False using b by (simp add: le_bytes_def upt_rec del: le_word.simps)
qed

text \<open>
  C29: A command that succeeds has put exactly its packet on the line, and the last bytes received
  are a command complete event for its opcode with status 0 (or none); the response is the front
  of that event. Other packets that arrive before it are skipped.
\<close>

theorem start_xfer_wait_reply:
  assumes "cmd ! 2 \<noteq> 0" "start_xfer_wait cmd 0 resp_len s = Ret (Some resp) t"
  shows "hci_out t = hci_out s @ cmd \<and>
    (\<exists>pre plen params. hci_in t = hci_in s @ pre @ [0x04, 0x0e, plen] @ params \<and> length params = unat plen \<and>
       3 \<le> length params \<and> params ! 1 = cmd ! 1 \<and> params ! 2 = cmd ! 2 \<and> (length params = 3 \<or> params ! 3 = 0) \<and>
       resp = take resp_len ([0x04, 0x0e, plen] @ params))"
proof -
  let ?op = "le_word [cmd ! 1, cmd ! 2] :: u16"
  from assms(2) obtain s1 q where w: "bt_write cmd s = Ret (WrDone (length cmd)) s1"
      and l: "xfer_loop cmd ?op resp_len 0 xfer_init q s1 = Ret (Some resp) t"
    by (auto simp: start_xfer_wait_def opcode_le_word Let_def bindC_Ret_iff getsC_def retC_def split: if_splits
        simp del: le_word.simps)
  have s1: "lnk (hci_in s) (hci_out s @ cmd) s1"
    using w by (auto simp: bt_write_def lnk_def min_def split: list.splits write_ans.splits if_splits)
  then have d: "during xfer_inv (hci_in s) (hci_out s @ cmd) xfer_init s1"
    unfolding during_def using xfer_init_inv by (intro exI [of _ "[]"]) simp
  have op: "0x100 \<le> ?op" using assms(1) by (rule opcode_high)
  from triple_Ret [OF xfer_loop_triple [OF op] d l] obtain pre evt where
      e: "lnk (hci_in s @ pre @ evt) (hci_out s @ cmd) t" "is_reply ?op evt" "resp = take resp_len evt"
    by (auto simp: replied_def)
  then show ?thesis by (fastforce simp: is_reply_def lnk_def opcode_le_word opcode_inj simp del: le_word.simps)
qed

text \<open>The tool at its start, in an environment that answers nothing.\<close>

definition rtb_zero :: rtb_struct where
  "rtb_zero = \<lparr>lmp_subver = 0, hci_rev = 0, hci_ver = 0, eversion = 0, chip_type = 0, vendor_baud = 0,
     uart_flow_ctrl = 0, parenb = 0, pareven = 0, final_speed = 0, fw_buf = [], config_buf = [], proto = 0\<rparr>"

definition bt_idle :: bt_globals where
  "bt_idle = \<lparr>q_poll = [], q_rd = [], q_wr = [], q_tcset = [], q_devopen = [], q_devioctl = [], hci_out = [],
     hci_in = [], host_flow = False, host_speed = 115200, rtb_cfg = rtb_zero\<rparr>"

definition reset_reply :: bt_globals where
  "reset_reply = bt_idle\<lparr>q_wr := [WrDone 4], q_poll := replicate 4 (PollReady False),
     q_rd := [RdData [0xff], RdData [0x04], RdData [0x0e, 0x04], RdData [0x01, 0x03, 0x0c, 0x00]]\<rparr>"

lemma reset_run: "case start_xfer_wait [0x01, 0x03, 0x0c, 0x00] 0 7 reset_reply of
    Ret r t \<Rightarrow> r = Some [0x04, 0x0e, 0x04, 0x01, 0x03, 0x0c, 0x00] | _ \<Rightarrow> False"
  by code_simp

theorem start_xfer_wait_reply_witness:
  "\<exists>t. start_xfer_wait [0x01, 0x03, 0x0c, 0x00] 0 7 reset_reply = Ret (Some [0x04, 0x0e, 0x04, 0x01, 0x03, 0x0c, 0x00]) t \<and>
     hci_out t = [0x01, 0x03, 0x0c, 0x00]"
proof -
  obtain t where t: "start_xfer_wait [0x01, 0x03, 0x0c, 0x00] 0 7 reset_reply =
      Ret (Some [0x04, 0x0e, 0x04, 0x01, 0x03, 0x0c, 0x00]) t"
    using reset_run by (auto split: outcome.splits)
  from start_xfer_wait_reply [OF _ t] t show ?thesis by (simp add: reset_reply_def bt_idle_def)
qed

section \<open>What a transfer leaves alone\<close>

definition bt_core :: "'z bt_globals_scheme \<Rightarrow> bytes \<times> rtb_struct \<times> 'z" where
  "bt_core s = (hci_out s, rtb_cfg s, bt_globals.more s)"

lemma bt_call_core:
  "steps (same bt_core) bt_poll" "steps (same bt_core) (bt_read n)" "steps (same bt_core) (bt_tcsetattr flow speed)"
  "steps (same bt_core) bt_devopen" "steps (same bt_core) bt_devioctl"
  by (auto simp: steps_def bt_defs bt_core_def split: list.split read_ans.split outcome.split)

lemma read_data_core: "steps (same bt_core) (read_data len c acc q)"
  by (induction q arbitrary: len c acc)
    (auto intro!: same.steps_rules bt_call_core split: read_ans.split)

lemma recv_step_core: "steps (same bt_core) (recv_step x)"
  unfolding recv_step_def read_exact_def Let_def
  by (auto intro!: same.steps_rules bt_call_core read_data_core split: read_ans.split)

lemma xfer_loop_core: "steps (same bt_core) (xfer_loop cmd opcode n 0 x q)"
proof (induction q arbitrary: x)
  case Nil
  show ?case by (auto intro!: same.steps_rules bt_call_core)
next
  case (Cons a q)
  show ?case
    by (auto intro!: same.steps_rules bt_call_core recv_step_core Cons.IH split: poll_ans.split xfer_step.split)
qed

text \<open>Of a command, the line gets a part, and all of it if there is a reply.\<close>

lemma start_xfer_wait_sends:
  "wtriple (\<lambda>s :: 'z bt_globals_scheme. bt_core s = (out, c)) (start_xfer_wait cmd 0 n)
     (\<lambda>r t. (\<exists>k. bt_core t = (out @ take k cmd, c)) \<and> (r \<noteq> None \<longrightarrow> bt_core t = (out @ cmd, c))) (\<lambda>t. prefix (hci_out t) (out @ cmd))"
proof (cases "length cmd < 4")
  case True
  then show ?thesis by (auto simp: start_xfer_wait_def gtriple_def retC_def bt_core_def intro: exI [of _ 0])
next
  case False
  have w: "wtriple (\<lambda>s :: 'z bt_globals_scheme. bt_core s = (out, c)) (bt_write cmd)
     (\<lambda>w s. (\<exists>k. bt_core s = (out @ take k cmd, c)) \<and> (w = WrDone (length cmd) \<longrightarrow> bt_core s = (out @ cmd, c)))
     (\<lambda>t. prefix (hci_out t) (out @ cmd))"
    by (auto simp: gtriple_def bt_write_def bt_core_def min_def split: list.splits write_ans.splits intro: exI [of _ 0])
      (metis nle_le take_all)
  have l: "wtriple (\<lambda>s :: 'z bt_globals_scheme. bt_core s = (out @ cmd, c)) (xfer_loop cmd opcode n 0 xfer_init q)
     (\<lambda>r t. (\<exists>k. bt_core t = (out @ take k cmd, c)) \<and> (r \<noteq> None \<longrightarrow> bt_core t = (out @ cmd, c))) (\<lambda>t. prefix (hci_out t) (out @ cmd))" for opcode q
    by (rule triple_conseq [OF steps_same_triple [OF xfer_loop_core]]) (auto simp: bt_core_def intro: exI [of _ "length cmd"])
  show ?thesis unfolding start_xfer_wait_def if_not_P [OF False] Let_def
  proof (rule triple_bindC [OF w], goal_cases)
    case (1 a)
    show ?case by (intro triple_if triple_retC triple_gets_bind triple_pre [OF l]) auto
  qed
qed

end
