(* ===== verification/BtPatch2.thy ===== *)
theory BtPatch2
  imports BtH4
begin

text \<open>
  Download of a firmware patch in the second format, \<^verbatim>\<open>hci_download_v2.c\<close>. The file is a sequence
  of sections with entries; those for this chip are queued by priority, and their payloads
  and the configuration go to the controller in fragments of 252 bytes. A pointer into
  the file is its offset, and reading outside of a buffer is a fault (\<open>None\<close> in the pure functions).
\<close>

unbundle bit_operations_syntax

section \<open>Data\<close>

definition HCI_PATCH_FRAG_SIZE :: nat where "HCI_PATCH_FRAG_SIZE = 252"

datatype hci_ret = HCI_FAIL | HCI_SUCCESS | HCI_IGNORE

fun hci_code :: "hci_ret \<Rightarrow> u8" where
  "hci_code HCI_FAIL = 0"
| "hci_code HCI_SUCCESS = 1"
| "hci_code HCI_IGNORE = 2"

record PATCH_NODE =
  eco :: u8
  priority :: u8
  key_id :: u8
  payload_len :: u32
  payload :: nat
  sent_payload_len :: u32

record PATCH_INFO =
  pf_len :: u32
  sent_fw_len :: u32
  pc_len :: u16
  sent_config_len :: u16
  cur_index :: u16
  end_index :: u16
  last_pkt :: u8
  head_node :: "PATCH_NODE list"

record bt2_globals = bt_globals +
  chipid :: u8
  patch_key_id :: u8
  patch :: PATCH_INFO

definition hci_patch_downlod_init :: PATCH_INFO where
  "hci_patch_downlod_init = \<lparr>pf_len = 0, sent_fw_len = 0, pc_len = 0, sent_config_len = 0, cur_index = 0,
     end_index = 0, last_pkt = 0, head_node = []\<rparr>"

section \<open>Parsing\<close>

definition slice :: "bytes \<Rightarrow> nat \<Rightarrow> nat \<Rightarrow> bytes option" where
  "slice buf pos n = (if pos + n \<le> length buf then Some (take n (drop pos buf)) else None)"

fun insert_patch_queue :: "PATCH_NODE \<Rightarrow> PATCH_NODE list \<Rightarrow> PATCH_NODE list" where
  "insert_patch_queue p [] = [p]"
| "insert_patch_queue p (node # rest) =
     (if priority node \<ge> priority p then p # node # rest else node # insert_patch_queue p rest)"

definition OPCODE_PATCH_SNIPPETS :: u32 where "OPCODE_PATCH_SNIPPETS = 1"
definition OPCODE_DUMMY_HEADER :: u32 where "OPCODE_DUMMY_HEADER = 2"
definition OPCODE_SECURITY_HEADER :: u32 where "OPCODE_SECURITY_HEADER = 3"

lemmas opcode_defs = OPCODE_PATCH_SNIPPETS_def OPCODE_DUMMY_HEADER_def OPCODE_SECURITY_HEADER_def

text \<open>\<open>fw_len\<close>, whether a security header was found, and the queue.\<close>

type_synonym parse_acc = "u32 \<times> bool \<times> PATCH_NODE list"

text \<open>One entry at \<open>position\<close>, with \<open>chip\<close> and \<open>key\<close> the identity of the chip and the key of the patch.\<close>

definition parse_entry :: "bytes \<Rightarrow> u8 \<Rightarrow> u8 \<Rightarrow> u32 \<Rightarrow> nat \<Rightarrow> parse_acc \<Rightarrow> (nat \<times> parse_acc) option" where
  "parse_entry buf chip key opcode position acc = (case slice buf position 8 of
     None \<Rightarrow> None
   | Some h \<Rightarrow>
       (let (fw_len, found, nodes) = acc; len = le_word (drop 4 h);
            node = \<lparr>eco = h ! 0, priority = h ! 1, key_id = (if opcode = OPCODE_SECURITY_HEADER then h ! 2 else 0),
              payload_len = len, payload = position + 8, sent_payload_len = 0\<rparr>;
            acc = (if h ! 0 = chip
              then (if opcode = OPCODE_PATCH_SNIPPETS \<or> opcode = OPCODE_DUMMY_HEADER
                    then (fw_len + len, found, insert_patch_queue node nodes)
                    else if opcode = OPCODE_SECURITY_HEADER \<and> key_id node = key
                    then (fw_len + len, True, insert_patch_queue node nodes)
                    else acc)
              else acc)
        in Some (position + 8 + unat len, acc)))"

fun parse_entries :: "bytes \<Rightarrow> u8 \<Rightarrow> u8 \<Rightarrow> u32 \<Rightarrow> nat \<Rightarrow> nat \<Rightarrow> parse_acc \<Rightarrow> parse_acc option" where
  "parse_entries buf chip key opcode 0 position acc = Some acc"
| "parse_entries buf chip key opcode (Suc n) position acc = (case parse_entry buf chip key opcode position acc of
     None \<Rightarrow> None
   | Some (position, acc) \<Rightarrow> parse_entries buf chip key opcode n position acc)"

definition parse_patch_section :: "bytes \<Rightarrow> u8 \<Rightarrow> u8 \<Rightarrow> u32 \<Rightarrow> nat \<Rightarrow> parse_acc \<Rightarrow> parse_acc option" where
  "parse_patch_section buf chip key opcode p acc = (case slice buf p 2 of
     None \<Rightarrow> None
   | Some h \<Rightarrow> parse_entries buf chip key opcode (unat (le_word h :: u16)) (p + 4) acc)"

text \<open>A walk over the sections in which \<open>use\<close> says which opcodes are parsed.\<close>

fun walk_sections :: "bytes \<Rightarrow> u8 \<Rightarrow> u8 \<Rightarrow> (u32 \<Rightarrow> bool) \<Rightarrow> nat \<Rightarrow> nat \<Rightarrow> parse_acc \<Rightarrow> parse_acc option" where
  "walk_sections buf chip key use 0 p acc = Some acc"
| "walk_sections buf chip key use (Suc n) p acc = (case slice buf p 8 of
     None \<Rightarrow> None
   | Some h \<Rightarrow>
       (let opcode = le_word (take 4 h); len = (le_word (drop 4 h) :: u32)
        in case (if use opcode then parse_patch_section buf chip key opcode (p + 8) acc else Some acc) of
             None \<Rightarrow> None
           | Some acc \<Rightarrow> walk_sections buf chip key use n (p + 8 + unat len) acc))"

definition parse_patch :: "bytes \<Rightarrow> u8 \<Rightarrow> u8 \<Rightarrow> nat \<Rightarrow> PATCH_NODE list \<Rightarrow> (u32 \<times> PATCH_NODE list) option" where
  "parse_patch buf chip key p nodes = (case slice buf p 4 of
     None \<Rightarrow> None
   | Some h \<Rightarrow>
       (let section_num = unat (le_word h :: u32);
            first = (\<lambda>opcode. opcode = OPCODE_PATCH_SNIPPETS \<or> opcode = OPCODE_DUMMY_HEADER \<and> key = 0 \<or>
                       opcode = OPCODE_SECURITY_HEADER \<and> key \<noteq> 0)
        in case walk_sections buf chip key first section_num (p + 4) (0, False, nodes) of
             None \<Rightarrow> None
           | Some (fw_len, found, nodes) \<Rightarrow>
               if key \<noteq> 0 \<and> \<not> found
               then map_option (\<lambda>(fw_len, found, nodes). (fw_len, nodes))
                 (walk_sections buf chip key (\<lambda>opcode. opcode = OPCODE_DUMMY_HEADER) section_num (p + 4) (fw_len, found, nodes))
               else Some (fw_len, nodes)))"

text \<open>The versions at 8 and 12 are only logged.\<close>

definition get_patch_info :: "bytes \<Rightarrow> bytes \<Rightarrow> u8 \<Rightarrow> u8 \<Rightarrow> PATCH_INFO \<Rightarrow> (hci_ret \<times> PATCH_INFO) option" where
  "get_patch_info fw cfg chip key info =
     (if length fw < 16 then None
      else case parse_patch fw chip key 16 (head_node info) of
          None \<Rightarrow> None
        | Some (fw_len, nodes) \<Rightarrow>
            let info = info\<lparr>head_node := nodes\<rparr>
            in if fw_len = 0 then Some (HCI_IGNORE, info)
               else let config_len = (of_nat (length cfg) :: u16); whole = fw_len + ucast config_len;
                        last = ucast (whole mod 252)
                 in Some (HCI_SUCCESS, info\<lparr>pf_len := fw_len, pc_len := config_len,
                      end_index := ucast ((whole - 1) div 252), last_pkt := (if last = 0 then 252 else last)\<rparr>))"

section \<open>Fragments\<close>

definition hci_get_patch_cmd_len ::
  "bytes \<Rightarrow> bytes \<Rightarrow> u8 \<Rightarrow> u8 \<Rightarrow> PATCH_INFO \<Rightarrow> (hci_ret \<times> u8 \<times> PATCH_INFO) option" where
  "hci_get_patch_cmd_len fw cfg chip key info =
     (case (if cur_index info = 0 then get_patch_info fw cfg chip key info else Some (HCI_SUCCESS, info)) of
        None \<Rightarrow> None
      | Some (ret, info) \<Rightarrow>
          if ret \<noteq> HCI_SUCCESS then Some (ret, 0, info)
          else if cur_index info = end_index info then Some (HCI_SUCCESS, last_pkt info + 1, info)
          else Some (HCI_SUCCESS, 253, info))"

text \<open>
  The copy of \<open>n\<close> bytes of \<open>src\<close> at \<open>from\<close> to \<open>data_buf + data_len - remain_len\<close>. \<open>data_buf\<close> is at offset 5 of
  the packet buffer of 257 bytes.
\<close>

definition frag_copy :: "bytes \<Rightarrow> nat \<Rightarrow> u8 \<Rightarrow> u8 \<Rightarrow> nat \<Rightarrow> bytes \<Rightarrow> bytes option" where
  "frag_copy src from data_len remain_len n buf =
     (let at = 5 + int (unat data_len) - int (unat remain_len)
      in case slice src from n of
           None \<Rightarrow> None
         | Some bs \<Rightarrow> if 0 \<le> at \<and> at + int n \<le> int (length buf) then Some (put_at buf (nat at) bs) else None)"

text \<open>
  The loop over the queue: whether it goes on to the end without an error, \<open>sent_fw_len\<close>,
  \<open>remain_len\<close>, the buffer and the queue.
\<close>

fun send_nodes ::
  "bytes \<Rightarrow> u8 \<Rightarrow> u32 \<Rightarrow> u32 \<Rightarrow> u8 \<Rightarrow> bytes \<Rightarrow> PATCH_NODE list \<Rightarrow> (bool \<times> u32 \<times> u8 \<times> bytes \<times> PATCH_NODE list) option" where
  "send_nodes fw data_len total_node_len sent remain_len buf [] = Some (True, sent, remain_len, buf, [])"
| "send_nodes fw data_len total_node_len sent remain_len buf (node # rest) =
     (let total_node_len = total_node_len + payload_len node
      in if sent < total_node_len
         then (let full = sent + ucast remain_len < total_node_len;
                   sending_len = (if full then remain_len else ucast (payload_len node - sent_payload_len node));
                   node' = node\<lparr>sent_payload_len := sent_payload_len node + ucast sending_len\<rparr>
               in case frag_copy fw (payload node + unat (sent_payload_len node)) data_len remain_len (unat sending_len) buf of
                    None \<Rightarrow> None
                  | Some buf \<Rightarrow>
                      if full then Some (True, sent + ucast sending_len, remain_len - sending_len, buf, node' # rest)
                      else if payload_len node' \<noteq> sent_payload_len node'
                      then Some (False, sent + ucast sending_len, remain_len - sending_len, buf, node' # rest)
                      else map_option (\<lambda>(ok, sent, remain_len, buf, rest). (ok, sent, remain_len, buf, node' # rest))
                        (send_nodes fw data_len total_node_len (sent + ucast sending_len) (remain_len - sending_len) buf rest))
         else map_option (\<lambda>(ok, sent, remain_len, buf, rest). (ok, sent, remain_len, buf, node # rest))
           (send_nodes fw data_len total_node_len sent remain_len buf rest))"

definition frag_index :: "u16 \<Rightarrow> u8" where
  "frag_index i = (if i \<ge> 0x80 then ucast ((i - 0x80) mod 0x7f + 1) else ucast (i mod 0x80))"

definition hci_get_patch_cmd_buf ::
  "bytes \<Rightarrow> bytes \<Rightarrow> PATCH_INFO \<Rightarrow> u8 \<Rightarrow> bytes \<Rightarrow> (hci_ret \<times> PATCH_INFO \<times> bytes) option" where
  "hci_get_patch_cmd_buf fw cfg info cmd_len buf =
     (let data_len = cmd_len - 1; final = (cur_index info = end_index info);
          index = (if final then frag_index (cur_index info) OR 0x80 else frag_index (cur_index info));
          buf = buf[4 := index]
      in case send_nodes fw data_len 0 (sent_fw_len info) data_len buf (head_node info) of
           None \<Rightarrow> None
         | Some (ok, sent, remain_len, buf, nodes) \<Rightarrow>
             let info = info\<lparr>sent_fw_len := sent, head_node := nodes\<rparr>
             in if \<not> ok then Some (HCI_FAIL, info, buf)
                else if remain_len > 0 \<and> pf_len info \<noteq> sent then Some (HCI_FAIL, info, buf)
                else (case (if remain_len > 0
                            then map_option (\<lambda>buf. (buf, sent_config_len info + ucast remain_len))
                              (frag_copy cfg (unat (sent_config_len info)) data_len remain_len (unat remain_len) buf)
                            else Some (buf, sent_config_len info)) of
                    None \<Rightarrow> None
                  | Some (buf, sent_cfg) \<Rightarrow>
                      let info = info\<lparr>sent_config_len := sent_cfg\<rparr>
                      in if final
                         then (if pc_len info \<noteq> sent_cfg then Some (HCI_FAIL, info, buf) else Some (HCI_SUCCESS, info, buf))
                         else Some (HCI_SUCCESS, info\<lparr>cur_index := cur_index info + 1\<rparr>, buf)))"

section \<open>Download\<close>

text \<open>
  The line settings in front of the last fragment. A failure returns -1, which the result type
  makes 255.
\<close>

definition last_frag_flow :: "('z bt_globals_scheme, bool) cmd" where
  "last_frag_flow = bindC (getsC (\<lambda>s. (uart_flow_ctrl (rtb_cfg s) \<noteq> 0, host_speed s))) (\<lambda>(flow, speed). bt_tcsetattr flow speed)"

definition frag_header :: bytes where
  "frag_header = [0x01, 0x20, 0xfc] @ replicate 254 0"

text \<open>
  The transfer of a fragment. \<open>ret\<close> is a byte, so that the test \<open>ret < 0\<close> behind the transfer is never
  true: a failed transfer leaves the zeros of \<open>resp\<close>, which the next test takes for a bad reply, and
  the byte 255 is returned.
\<close>

definition v2_send :: "bytes \<Rightarrow> nat \<Rightarrow> (nat \<Rightarrow> ('z bt_globals_scheme, u8) cmd) \<Rightarrow> ('z bt_globals_scheme, u8) cmd" where
  "v2_send buf rlen next =
     bindC (if bit (buf ! 4) 7 then last_frag_flow else retC True) (\<lambda>ok.
       if \<not> ok then retC 255
       else
         bindC (start_xfer_wait (take (unat (buf ! 3) + 4) buf) 0 rlen) (\<lambda>r.
           let ret = (if r = None then 255 else 0);
               got = (case r of None \<Rightarrow> [] | Some bs \<Rightarrow> bs);
               resp = put_at (replicate 8 0) 0 got;
               rlen = (case r of None \<Rightarrow> rlen | Some bs \<Rightarrow> length bs)
           in if resp ! 4 \<noteq> 0x20 \<or> resp ! 5 \<noteq> 0xfc \<or> resp ! 6 \<noteq> 0 then retC ret
              else if bit (resp ! 7) 7 then retC ret
              else next rlen))"

definition v2_turn :: "nat \<Rightarrow> (nat \<Rightarrow> ('z bt2_globals_scheme, u8) cmd) \<Rightarrow> ('z bt2_globals_scheme, u8) cmd" where
  "v2_turn rlen next =
     bindC (getsC (\<lambda>s. (fw_buf (rtb_cfg s), config_buf (rtb_cfg s),
         hci_get_patch_cmd_len (fw_buf (rtb_cfg s)) (config_buf (rtb_cfg s)) (chipid s) (patch_key_id s) (patch s))))
       (\<lambda>(fw, cfg, r). case r of
         None \<Rightarrow> faultC
       | Some (ret, cmd_len, info) \<Rightarrow>
           bindC (modifyC (\<lambda>s. s\<lparr>patch := info\<rparr>)) (\<lambda>_.
             if ret \<noteq> HCI_SUCCESS then retC (hci_code ret)
             else (case hci_get_patch_cmd_buf fw cfg info cmd_len (frag_header[3 := cmd_len]) of
                 None \<Rightarrow> faultC
               | Some (ret, info, buf) \<Rightarrow>
                   bindC (modifyC (\<lambda>s. s\<lparr>patch := info\<rparr>)) (\<lambda>_.
                     if ret \<noteq> HCI_SUCCESS then retC (hci_code ret) else v2_send buf rlen next))))"

text \<open>Every turn that goes on has taken an answer of \<open>write\<close>: the recursion is over those.\<close>

fun v2_loop :: "nat \<Rightarrow> write_ans list \<Rightarrow> ('z bt2_globals_scheme, u8) cmd" where
  "v2_loop rlen [] = v2_turn rlen (\<lambda>_. Blocked)"
| "v2_loop rlen (_ # q) = v2_turn rlen (\<lambda>rlen. v2_loop rlen q)"

definition hci_download_patch_v2 :: "('z bt2_globals_scheme, u8) cmd" where
  "hci_download_patch_v2 =
     bindC (modifyC (\<lambda>s. s\<lparr>chipid := eversion (rtb_cfg s) + 1, patch := hci_patch_downlod_init\<rparr>)) (\<lambda>_.
     bindC (getsC q_wr) (\<lambda>q. v2_loop 8 q))"

section \<open>The queue\<close>

text \<open>The queue is kept by priority, a new node in front of those of its own priority.\<close>

lemma insert_patch_queue_insort: "insert_patch_queue p ns = insort_key priority p ns"
  by (induction ns) auto

section \<open>The stream of a download\<close>

text \<open>
  Reference: the payloads in the order of the queue, then the configuration. \<open>mark k ns\<close> is the
  queue after \<open>k\<close> bytes of it were sent.
\<close>

definition plen :: "PATCH_NODE \<Rightarrow> nat" where
  "plen n = unat (payload_len n)"

definition pbytes :: "bytes \<Rightarrow> PATCH_NODE \<Rightarrow> bytes" where
  "pbytes fw n = take (plen n) (drop (payload n) fw)"

definition fw_bytes :: "bytes \<Rightarrow> PATCH_NODE list \<Rightarrow> bytes" where
  "fw_bytes fw ns = concat (map (pbytes fw) ns)"

fun mark :: "nat \<Rightarrow> PATCH_NODE list \<Rightarrow> PATCH_NODE list" where
  "mark k [] = []"
| "mark k (n # ns) = n\<lparr>sent_payload_len := of_nat (min k (plen n))\<rparr> # mark (k - plen n) ns"

definition in_file :: "bytes \<Rightarrow> PATCH_NODE \<Rightarrow> bool" where
  "in_file fw n \<longleftrightarrow> payload n + plen n \<le> length fw"

lemma length_pbytes: "in_file fw n \<Longrightarrow> length (pbytes fw n) = plen n"
  by (simp add: in_file_def pbytes_def)

lemma length_fw_bytes: "list_all (in_file fw) ns \<Longrightarrow> length (fw_bytes fw ns) = sum_list (map plen ns)"
  by (induction ns) (simp_all add: fw_bytes_def length_pbytes)

lemma put_at_append:
  "i + length xs \<le> length buf \<Longrightarrow> put_at (put_at buf i xs) (i + length xs) ys = put_at buf i (xs @ ys)"
  by (simp add: put_at_def ac_simps)

lemma length_put_at: "i + length bs \<le> length buf \<Longrightarrow> length (put_at buf i bs) = length buf"
  by (simp add: put_at_def)

lemma frag_copy_ok:
  assumes "from + n \<le> length src" "r \<le> d" "n \<le> r" "d \<le> 252" "length buf = 257"
  shows "frag_copy src from (of_nat d) (of_nat r) n buf = Some (put_at buf (5 + d - r) (take n (drop from src)))"
proof -
  have "unat (of_nat d :: u8) = d" "unat (of_nat r :: u8) = r" using assms by (simp_all add: unat_of_nat)
  moreover have "nat (5 + int d - int r) = 5 + d - r" using assms by simp
  ultimately show ?thesis using assms by (simp add: frag_copy_def slice_def)
qed

lemma of_nat32_less: "a < 2 ^ 32 \<Longrightarrow> b < 2 ^ 32 \<Longrightarrow> (of_nat a :: u32) < of_nat b \<longleftrightarrow> a < b"
  by (simp add: word_less_nat_alt unat_of_nat)

lemma of_nat_unat8: "r < 256 \<Longrightarrow> (ucast (of_nat r :: u8) :: u32) = of_nat r"
  by (simp add: word_unat_eq_iff unat_of_nat unsigned_ucast_eq take_bit_nat_eq_self)

lemma ucast_of_nat32: "k < 256 \<Longrightarrow> (ucast (of_nat k :: u32) :: u8) = of_nat k"
  by (simp add: word_unat_eq_iff unat_of_nat unsigned_ucast_eq take_bit_nat_eq_self)

lemma mark_0: "mark 0 (n # ns) = n\<lparr>sent_payload_len := 0\<rparr> # mark 0 ns"
  by simp

text \<open>
  The loop over the queue from a node on: \<open>b\<close> bytes are in front of it, \<open>pos\<close> bytes were sent, and
  there is room for \<open>r\<close> more.
\<close>

lemma send_nodes_stream:
  assumes "list_all (in_file fw) ns" "b \<le> pos" "r \<le> d" "d \<le> 252" "length buf = 257"
    and "b + sum_list (map plen ns) < 2 ^ 31"
    and "pos \<le> b + sum_list (map plen ns)"
  shows "send_nodes fw (of_nat d) (of_nat b) (of_nat pos) (of_nat r) buf (mark (pos - b) ns) =
    (let k = min r (b + sum_list (map plen ns) - pos)
     in Some (True, of_nat (pos + k), of_nat (r - k),
          put_at buf (5 + d - r) (take k (drop (pos - b) (fw_bytes fw ns))), mark (pos + k - b) ns))"
  using assms
proof (induction ns arbitrary: b pos r buf)
  case Nil
  then show ?case by (simp add: fw_bytes_def put_at_def)
next
  case (Cons n ns)
  note of_nat_add [simp del] of_nat_diff [simp del]
  let ?F = "b + sum_list (map plen (n # ns))"
  have len: "length (pbytes fw n) = plen n" using Cons.prems by (simp add: length_pbytes)
  have tot: "(of_nat b :: u32) + payload_len n = of_nat (b + plen n)" by (simp add: plen_def of_nat_add)
  show ?case
  proof (cases "pos < b + plen n")
    case False
    have less: "\<not> (of_nat pos :: u32) < of_nat (b + plen n)" using False Cons.prems by (subst of_nat32_less) auto
    let ?k = "min r (?F - pos)"
    have past: "mark (j - b) (n # ns) = n\<lparr>sent_payload_len := payload_len n\<rparr> # mark (j - (b + plen n)) ns" if "pos \<le> j" for j
    proof -
      have "min (j - b) (plen n) = plen n" using that False by simp
      then show ?thesis by (simp add: plen_def)
    qed
    have "send_nodes fw (of_nat d) (of_nat (b + plen n)) (of_nat pos) (of_nat r) buf (mark (pos - (b + plen n)) ns) =
       Some (True, of_nat (pos + ?k), of_nat (r - ?k),
            put_at buf (5 + d - r) (take ?k (drop (pos - (b + plen n)) (fw_bytes fw ns))), mark (pos + ?k - (b + plen n)) ns)"
      using Cons.IH [of "b + plen n" pos r buf] Cons.prems False by (simp add: Let_def add.assoc)
    moreover have "drop (pos - b) (fw_bytes fw (n # ns)) = drop (pos - (b + plen n)) (fw_bytes fw ns)"
      using False len by (simp add: fw_bytes_def)
    ultimately show ?thesis unfolding Let_def past [OF order_refl] past [OF le_add1] using less tot
      by (simp add: Let_def del: mark.simps)
  next
    case True
    obtain j where pos: "pos = b + j" using Cons.prems by (auto dest: le_Suc_ex)
    obtain m where m: "plen n = j + m" "0 < m" using True pos by (auto dest: less_imp_Suc_add)
    let ?S = "sum_list (map plen ns)" and ?D = "drop j (pbytes fw n)"
    have w: "unat (of_nat j :: u32) = j" "payload_len n = of_nat (j + m)"
      using m(1) Cons.prems(6) by (simp add: unat_of_nat) (simp add: m(1) [symmetric] plen_def)
    have mk: "mark j (n # ns) = n\<lparr>sent_payload_len := of_nat j\<rparr> # mark 0 ns" using m by simp
    have less: "(of_nat pos :: u32) < of_nat (b + plen n)" using True Cons.prems by (subst of_nat32_less) auto
    have add: "(of_nat i :: u32) + ucast (of_nat k :: u8) = of_nat (i + k)" if "k \<le> r" for i k
      using that Cons.prems by (simp add: of_nat_unat8 of_nat_add)
    have full: "(of_nat pos :: u32) + ucast (of_nat r :: u8) < of_nat (b + plen n) \<longleftrightarrow> r < m"
      unfolding add [OF order_refl] using Cons.prems m pos by (subst of_nat32_less) auto
    have D: "length ?D = m" "drop j (fw_bytes fw (n # ns)) = ?D @ fw_bytes fw ns"
      using len m by (simp_all add: fw_bytes_def)
    have cp: "frag_copy fw (payload n + j) (of_nat d) (of_nat r) k buf = Some (put_at buf (5 + d - r) (take k ?D))"
      if "k \<le> m" "k \<le> r" for k
      using that Cons.prems m by (subst frag_copy_ok) (auto simp: in_file_def pbytes_def drop_take min_def add.commute)
    have u8: "unat (of_nat k :: u8) = k" if "k \<le> r" for k using that Cons.prems by (simp add: unat_of_nat)
    show ?thesis
    proof (cases "r < m")
      case True
      have mk': "mark (j + r) (n # ns) = n\<lparr>sent_payload_len := of_nat (j + r)\<rparr> # mark 0 ns" using m True by simp
      from True show ?thesis unfolding pos using less [unfolded pos] full [unfolded pos] tot w add [of r] cp [of r] u8 [of r] D
        by (simp add: Let_def mk mk' m add.assoc del: mark.simps)
    next
      case False
      then obtain r' where r: "r = m + r'" by (auto simp: not_less dest: le_Suc_ex)
      let ?buf = "put_at buf (5 + d - r) ?D" and ?k = "min r' ?S"
      have "length ?buf = 257" using Cons.prems D r by (subst length_put_at) auto
      then have IH: "send_nodes fw (of_nat d) (of_nat (b + plen n)) (of_nat (b + plen n)) (of_nat r') ?buf (mark 0 ns) =
          Some (True, of_nat (b + plen n + ?k), of_nat (r' - ?k), put_at ?buf (5 + d - r') (take ?k (fw_bytes fw ns)), mark ?k ns)"
        using Cons.IH [of "b + plen n" "b + plen n" r' ?buf] Cons.prems r by (simp add: Let_def add.assoc)
      have snd: "(ucast (payload_len n - of_nat j) :: u8) = of_nat m"
        using w(2) r Cons.prems by (simp add: of_nat_add ucast_of_nat32)
      have rm: "(of_nat r :: u8) - of_nat m = of_nat r'" using r by (simp add: of_nat_add)
      have put: "put_at ?buf (5 + d - r') ys = put_at buf (5 + d - r) (?D @ ys)" for ys
        using put_at_append [of "5 + d - r" ?D buf ys] D r Cons.prems by simp
      have mk': "mark (j + (m + ?k)) (n # ns) = n\<lparr>sent_payload_len := payload_len n\<rparr> # mark ?k ns"
        using m w by simp
      have k: "min r (m + ?S) = m + ?k" using r by simp
      have "send_nodes fw (of_nat d) (of_nat b) (of_nat pos) (of_nat r) buf (mark j (n # ns)) =
          Some (True, of_nat (pos + (m + ?k)), of_nat (r' - ?k), put_at buf (5 + d - r) (?D @ take ?k (fw_bytes fw ns)),
            mark (j + (m + ?k)) (n # ns))"
        unfolding mk mk' put [symmetric] using False less full tot w snd rm IH add [of m pos] add [of m j] cp [of m] u8 [of m] r m pos D
        by (simp add: Let_def add.assoc)
      then show ?thesis unfolding pos using k r m D by (simp add: Let_def add.assoc)
    qed
  qed
qed

lemma mark_min: "mark (min p (sum_list (map plen ns))) ns = mark p ns"
proof (induction ns arbitrary: p)
  case (Cons n ns)
  have "min p (plen n + sum_list (map plen ns)) - plen n = min (p - plen n) (sum_list (map plen ns))" by simp
  moreover have "min (min p (plen n + sum_list (map plen ns))) (plen n) = min p (plen n)" by simp
  ultimately show ?case using Cons.IH [of "p - plen n"] by simp
qed simp

lemma take_drop_append:
  "take d (drop p (xs @ ys)) = take (min d (length xs - min p (length xs))) (drop (min p (length xs)) xs) @
     take (d - min d (length xs - min p (length xs))) (drop (p - length xs) ys)"
  by (cases "p \<le> length xs") (simp_all add: min_def)

definition index_byte :: "u16 \<Rightarrow> bool \<Rightarrow> u8" where
  "index_byte i final = (if final then frag_index i OR 0x80 else frag_index i)"

text \<open>The queue, the configuration and the counters after \<open>p\<close> bytes of the stream.\<close>

definition sent_upto :: "nat \<Rightarrow> PATCH_NODE list \<Rightarrow> bytes \<Rightarrow> PATCH_INFO \<Rightarrow> bool" where
  "sent_upto p ns cfg info \<longleftrightarrow>
     sent_fw_len info = of_nat (min p (sum_list (map plen ns))) \<and>
     sent_config_len info = of_nat (p - sum_list (map plen ns)) \<and> head_node info = mark p ns \<and>
     pf_len info = of_nat (sum_list (map plen ns)) \<and> pc_len info = of_nat (length cfg)"

lemma cmd_buf_eval:
  assumes "send_nodes fw (cmd_len - 1) 0 (sent_fw_len info) (cmd_len - 1)
      (buf[4 := index_byte (cur_index info) (cur_index info = end_index info)]) (head_node info) = Some (True, sent, rm, buf1, nodes)"
    and "if rm > 0 then pf_len info = sent \<and> sc = sent_config_len info + ucast rm \<and>
        frag_copy cfg (unat (sent_config_len info)) (cmd_len - 1) rm (unat rm) buf1 = Some buf2
      else buf2 = buf1 \<and> sc = sent_config_len info"
    and "cur_index info = end_index info \<longrightarrow> pc_len info = sc"
  shows "hci_get_patch_cmd_buf fw cfg info cmd_len buf = Some (HCI_SUCCESS, info\<lparr>sent_fw_len := sent, head_node := nodes,
    sent_config_len := sc, cur_index := (if cur_index info = end_index info then cur_index info else cur_index info + 1)\<rparr>, buf2)"
  using assms by (auto simp: hci_get_patch_cmd_buf_def Let_def index_byte_def split: if_splits)

lemma cmd_buf_chunk:
  assumes ok: "list_all (in_file fw) ns" "sum_list (map plen ns) + length cfg < 2 ^ 31" "length cfg < 65536"
    and d: "0 < d" "d \<le> 252" "p + d \<le> sum_list (map plen ns) + length cfg" "length buf = 257"
    and info: "sent_upto p ns cfg info"
    and fin: "cur_index info = end_index info \<longrightarrow> p + d = sum_list (map plen ns) + length cfg"
  shows "\<exists>info'. hci_get_patch_cmd_buf fw cfg info (of_nat (d + 1)) buf = Some (HCI_SUCCESS, info',
      put_at (buf[4 := index_byte (cur_index info) (cur_index info = end_index info)]) 5
        (take d (drop p (fw_bytes fw ns @ cfg)))) \<and>
    sent_upto (p + d) ns cfg info' \<and> end_index info' = end_index info \<and> last_pkt info' = last_pkt info \<and>
    cur_index info' = (if cur_index info = end_index info then cur_index info else cur_index info + 1)"
proof -
  note of_nat_add [simp del] of_nat_diff [simp del]
  let ?F = "sum_list (map plen ns)" and ?final = "cur_index info = end_index info"
  let ?b = "buf[4 := index_byte (cur_index info) ?final]" and ?pf = "min p ?F"
  let ?k = "min d (?F - ?pf)"
  have dl: "(of_nat (d + 1) :: u8) - 1 = of_nat d" by (simp add: of_nat_add)
  have FB: "length (fw_bytes fw ns) = ?F" using ok by (simp add: length_fw_bytes)
  let ?b1 = "put_at ?b 5 (take ?k (drop ?pf (fw_bytes fw ns)))"
  have snd: "send_nodes fw (of_nat d) 0 (of_nat ?pf) (of_nat d) ?b (mark p ns) =
      Some (True, of_nat (min (p + d) ?F), of_nat (d - ?k), ?b1, mark (p + d) ns)"
  proof -
    have e: "?pf + ?k = min (p + d) ?F" by linarith
    have "send_nodes fw (of_nat d) (of_nat 0) (of_nat ?pf) (of_nat d) ?b (mark (?pf - 0) ns) =
      (let k = min d (0 + ?F - ?pf)
       in Some (True, of_nat (?pf + k), of_nat (d - k), put_at ?b (5 + d - d) (take k (drop (?pf - 0) (fw_bytes fw ns))),
            mark (?pf + k - 0) ns))"
      by (rule send_nodes_stream) (use ok d in auto)
    then show ?thesis unfolding Let_def by (simp only: diff_zero add_0 e mark_min add_diff_cancel_right') simp
  qed
  have rem: "(of_nat (d - ?k) :: u8) > 0 \<longleftrightarrow> ?k < d" "unat (of_nat (d - ?k) :: u8) = d - ?k"
    using d by (auto simp: word_less_nat_alt unat_of_nat)
  have dat: "take d (drop p (fw_bytes fw ns @ cfg)) =
      take ?k (drop ?pf (fw_bytes fw ns)) @ take (d - ?k) (drop (p - ?F) cfg)"
    using take_drop_append [of d p "fw_bytes fw ns" cfg] unfolding FB .
  have cp: "frag_copy cfg (unat (of_nat (p - ?F) :: u16)) (of_nat d) (of_nat (d - ?k)) (d - ?k) ?b1 =
      Some (put_at ?b 5 (take d (drop p (fw_bytes fw ns @ cfg))))" if "?k < d"
  proof -
    let ?A = "take ?k (drop ?pf (fw_bytes fw ns))" and ?X = "take (d - ?k) (drop (p - ?F) cfg)"
    have u: "unat (of_nat (p - ?F) :: u16) = p - ?F" using ok d by (simp add: unat_of_nat)
    have "length ?b1 = 257" using d FB by (subst length_put_at) auto
    moreover have "p - ?F + (d - ?k) \<le> length cfg" using d that by linarith
    ultimately have "frag_copy cfg (p - ?F) (of_nat d) (of_nat (d - ?k)) (d - ?k) ?b1 = Some (put_at ?b1 (5 + d - (d - ?k)) ?X)"
      using d by (intro frag_copy_ok) auto
    moreover have "put_at ?b1 (5 + d - (d - ?k)) ?X = put_at ?b 5 (?A @ ?X)"
    proof -
      have "5 + d - (d - ?k) = 5 + length ?A" using FB by auto
      then show ?thesis using put_at_append [of 5 ?A ?b ?X] d FB by simp
    qed
    ultimately show ?thesis unfolding u dat by simp
  qed
  have len16: "(of_nat (p - ?F) :: u16) + ucast (of_nat (d - ?k) :: u8) = of_nat (p + d - ?F)" if "?k < d"
  proof -
    have "(ucast (of_nat (d - ?k) :: u8) :: u16) = of_nat (d - ?k)"
      using d by (simp add: word_unat_eq_iff unat_of_nat unsigned_ucast_eq take_bit_nat_eq_self)
    moreover have "p - ?F + (d - ?k) = p + d - ?F" using that by linarith
    ultimately show ?thesis by (simp only: of_nat_add [symmetric])
  qed
  have short: "p + d - ?F = 0 \<and> p - ?F = 0 \<and> take d (drop p (fw_bytes fw ns @ cfg)) = take ?k (drop ?pf (fw_bytes fw ns))" if "\<not> ?k < d"
  proof -
    have le: "p + d \<le> ?F" using that d(1) by linarith
    then have "d - ?k = 0" by simp
    then have "take d (drop p (fw_bytes fw ns @ cfg)) = take ?k (drop ?pf (fw_bytes fw ns))" unfolding dat by (simp only: take_0 append_Nil2)
    with le show ?thesis by (intro conjI) (simp_all only: diff_is_0_eq)
  qed
  have whole: "min (p + d) ?F = ?F" if "?k < d" using that by linarith
  let ?rm = "of_nat (d - ?k) :: u8" and ?b2 = "put_at ?b 5 (take d (drop p (fw_bytes fw ns @ cfg)))"
  have i: "pf_len info = of_nat ?F" "sent_config_len info = of_nat (p - ?F)" "sent_fw_len info = of_nat ?pf"
      "head_node info = mark p ns" "pc_len info = of_nat (length cfg)" using info unfolding sent_upto_def by blast+
  have c: "if ?rm > 0 then pf_len info = of_nat (min (p + d) ?F) \<and> of_nat (p + d - ?F) = sent_config_len info + ucast ?rm \<and>
        frag_copy cfg (unat (sent_config_len info)) (of_nat (d + 1) - 1) ?rm (unat ?rm) ?b1 = Some ?b2
      else ?b2 = ?b1 \<and> of_nat (p + d - ?F) = sent_config_len info"
  proof (cases "?k < d")
    case True
    with rem(1) have "?rm > 0" by (rule iffD2)
    then show ?thesis unfolding if_P [OF \<open>?rm > 0\<close>] i whole [OF True] dl rem(2)
      by (intro conjI refl len16 [OF True, symmetric] cp [OF True])
  next
    case False
    with rem(1) have "\<not> ?rm > 0" by blast
    from short [OF False] have e: "p + d - ?F = 0" "p - ?F = 0"
        "take d (drop p (fw_bytes fw ns @ cfg)) = take ?k (drop ?pf (fw_bytes fw ns))" by blast+
    show ?thesis unfolding if_not_P [OF \<open>\<not> ?rm > 0\<close>] i e by (intro conjI refl)
  qed
  have n: "send_nodes fw (of_nat (d + 1) - 1) 0 (sent_fw_len info) (of_nat (d + 1) - 1) ?b (head_node info) =
      Some (True, of_nat (min (p + d) ?F), ?rm, ?b1, mark (p + d) ns)"
    unfolding dl i by (rule snd)
  have f: "?final \<longrightarrow> pc_len info = of_nat (p + d - ?F)" using i fin by simp
  show ?thesis by (intro exI conjI, rule cmd_buf_eval [OF n c f]) (simp_all add: sent_upto_def i)
qed

section \<open>Parsing and the queue\<close>

text \<open>What is parsed is accounted for: the length is that of the queue, nothing of which was sent.\<close>

definition fresh :: "PATCH_NODE list \<Rightarrow> bool" where
  "fresh ns \<longleftrightarrow> list_all (\<lambda>n. sent_payload_len n = 0) ns"

definition acc_ok :: "parse_acc \<Rightarrow> bool" where
  "acc_ok acc \<longleftrightarrow> (case acc of (fw_len, found, ns) \<Rightarrow> fw_len = of_nat (sum_list (map plen ns)) \<and> fresh ns)"

lemma insert_acc:
  "acc_ok (fw_len, found, ns) \<Longrightarrow> sent_payload_len p = 0 \<Longrightarrow>
   acc_ok (fw_len + payload_len p, found', insert_patch_queue p ns)"
proof -
  have "sum_list (map plen (insert_patch_queue p ns)) = plen p + sum_list (map plen ns)"
    by (induction ns) auto
  moreover have "fresh ns \<Longrightarrow> sent_payload_len p = 0 \<Longrightarrow> fresh (insert_patch_queue p ns)"
    by (induction ns) (auto simp: fresh_def)
  ultimately show "acc_ok (fw_len, found, ns) \<Longrightarrow> sent_payload_len p = 0 \<Longrightarrow>
      acc_ok (fw_len + payload_len p, found', insert_patch_queue p ns)"
    by (simp add: acc_ok_def plen_def)
qed

lemma parse_entry_acc: "parse_entry buf chip key opcode pos acc = Some (pos', acc') \<Longrightarrow> acc_ok acc \<Longrightarrow> acc_ok acc'"
proof (cases acc)
  case (fields fw_len found ns)
  moreover assume "parse_entry buf chip key opcode pos acc = Some (pos', acc')" "acc_ok acc"
  ultimately show "acc_ok acc'"
    by (auto simp: parse_entry_def Let_def split: option.splits if_splits intro!: insert_acc [where p = "PATCH_NODE.make _ _ _ _ _ _", unfolded PATCH_NODE.make_def, simplified])
qed

lemma parse_entries_acc: "parse_entries buf chip key opcode n pos acc = Some acc' \<Longrightarrow> acc_ok acc \<Longrightarrow> acc_ok acc'"
  by (induction n arbitrary: pos acc) (auto split: option.splits dest: parse_entry_acc)

lemma walk_acc: "walk_sections buf chip key use n p acc = Some acc' \<Longrightarrow> acc_ok acc \<Longrightarrow> acc_ok acc'"
proof (induction n arbitrary: p acc)
  case (Suc n)
  then show ?case
    by (auto simp: Let_def parse_patch_section_def split: option.splits if_splits dest: parse_entries_acc)
qed simp

lemma parse_patch_acc:
  "parse_patch buf chip key p [] = Some (fw_len, ns) \<Longrightarrow> fw_len = of_nat (sum_list (map plen ns)) \<and> fresh ns"
  by (auto simp: parse_patch_def Let_def acc_ok_def fresh_def split: option.splits if_splits prod.splits dest!: walk_acc)

lemma mark_fresh: "fresh ns \<Longrightarrow> mark 0 ns = ns"
  by (induction ns) (simp_all add: fresh_def)

section \<open>The frames of a download\<close>

text \<open>Fragment \<open>i\<close> of a stream: the command header, the index byte, and 252 bytes or the rest.\<close>

definition v2_frame :: "bytes \<Rightarrow> nat \<Rightarrow> bytes" where
  "v2_frame stream i = (let chunk = take 252 (drop (252 * i) stream)
     in [0x01, 0x20, 0xfc, of_nat (length chunk + 1), index_byte (of_nat i) (length stream \<le> 252 * (i + 1))] @ chunk)"

definition v2_frames :: "bytes \<Rightarrow> bytes" where
  "v2_frames stream = concat (map (v2_frame stream) [0..<(length stream + 251) div 252])"

lemma take_chunks: "concat (map (\<lambda>i. take n (drop (n * i) xs)) [0..<k]) = take (n * k) xs"
  by (induction k) (simp_all add: take_add [symmetric] add.commute)

text \<open>
  What a download of several fragments starts from: payloads in the file, and a stream
  whose number of fragments fits the index.
\<close>

definition v2_ok :: "bytes \<Rightarrow> bytes \<Rightarrow> PATCH_NODE list \<Rightarrow> bool" where
  "v2_ok fw cfg ns \<longleftrightarrow> list_all (in_file fw) ns \<and> length cfg < 65536 \<and>
     252 < sum_list (map plen ns) + length cfg \<and> sum_list (map plen ns) + length cfg \<le> 252 * 65536"

definition v2_last :: "bytes \<Rightarrow> nat" where
  "v2_last stream = (length stream - 1) div 252"

text \<open>The state of the download with fragment \<open>i\<close> to be sent next.\<close>

definition info_at :: "bytes \<Rightarrow> bytes \<Rightarrow> PATCH_NODE list \<Rightarrow> nat \<Rightarrow> PATCH_INFO \<Rightarrow> bool" where
  "info_at fw cfg ns i info \<longleftrightarrow>
     (let stream = fw_bytes fw ns @ cfg; m = v2_last stream
      in sent_upto (min (252 * i) (length stream)) ns cfg info \<and> cur_index info = of_nat (min i m) \<and>
         end_index info = of_nat m \<and> last_pkt info = of_nat (length stream - 252 * m))"

lemma v2_size:
  assumes "v2_ok fw cfg ns"
  defines "N \<equiv> sum_list (map plen ns) + length cfg" and "m \<equiv> v2_last (fw_bytes fw ns @ cfg)"
  shows "length (fw_bytes fw ns @ cfg) = N" "0 < m" "m < 65536" "252 * m < N" "N \<le> 252 * (m + 1)"
proof -
  show len: "length (fw_bytes fw ns @ cfg) = N" using assms(1) by (simp add: N_def v2_ok_def length_fw_bytes)
  have "m = (N - 1) div 252" unfolding m_def v2_last_def len ..
  then obtain r where "N - 1 = 252 * m + r" "r < 252" by (metis mod_less_divisor mult_div_mod_eq zero_less_numeral)
  moreover have "252 < N" "N \<le> 252 * 65536" using assms(1) by (simp_all add: N_def v2_ok_def)
  ultimately have "N = 252 * m + r + 1" "r < 252" "252 < N" "N \<le> 252 * 65536" by simp_all
  then show "0 < m" "m < 65536" "252 * m < N" "N \<le> 252 * (m + 1)" by auto
qed

lemma of_nat16_eq: "i < 65536 \<Longrightarrow> j < 65536 \<Longrightarrow> (of_nat i :: u16) = of_nat j \<longleftrightarrow> i = j"
  by (simp add: word_unat_eq_iff unat_of_nat)

lemma cmd_len_at:
  assumes ok: "v2_ok fw cfg ns" and i: "0 < i" "info_at fw cfg ns i info"
  defines "N \<equiv> length (fw_bytes fw ns @ cfg)" and "m \<equiv> v2_last (fw_bytes fw ns @ cfg)"
  shows "hci_get_patch_cmd_len fw cfg chip key info = Some (HCI_SUCCESS, of_nat (min 252 (N - 252 * min i m) + 1), info)"
proof -
  note v = v2_size [OF ok, folded m_def]
  have "cur_index info \<noteq> 0" "cur_index info = end_index info \<longleftrightarrow> m \<le> i"
    using i v of_nat16_eq [of "min i m" 0] of_nat16_eq [of "min i m" m] by (auto simp: info_at_def Let_def m_def)
  moreover have "m \<le> i \<Longrightarrow> min 252 (N - 252 * min i m) = N - 252 * m" "\<not> m \<le> i \<Longrightarrow> min 252 (N - 252 * min i m) = 252"
    using v by (auto simp: N_def)
  moreover have "last_pkt info + 1 = of_nat (N - 252 * m + 1)" using i by (simp add: info_at_def Let_def m_def N_def)
  ultimately show ?thesis by (auto simp: hci_get_patch_cmd_len_def)
qed

lemma frag_packet:
  fixes x :: u8
  assumes "d \<le> 252" "length chunk = d"
  defines "buf \<equiv> put_at ((frag_header[3 := of_nat (d + 1)])[4 := x]) 5 chunk"
  shows "take (unat (buf ! 3) + 4) buf = [0x01, 0x20, 0xfc, of_nat (d + 1), x] @ chunk"
proof -
  have "unat (of_nat (d + 1) :: u8) = d + 1" using assms by (subst unat_of_nat) simp
  then show ?thesis using assms by (simp add: put_at_def frag_header_def eval_nat_numeral)
qed

lemma cmd_buf_at:
  assumes ok: "v2_ok fw cfg ns" and i: "i \<le> m" "info_at fw cfg ns i info"
    and N: "N = length (fw_bytes fw ns @ cfg)" and m: "m = v2_last (fw_bytes fw ns @ cfg)"
    and d: "d = min 252 (N - 252 * i)"
  obtains info' buf where "hci_get_patch_cmd_buf fw cfg info (of_nat (d + 1)) (frag_header[3 := of_nat (d + 1)]) = Some (HCI_SUCCESS, info', buf)"
    "info_at fw cfg ns (i + 1) info'" "take (unat (buf ! 3) + 4) buf = v2_frame (fw_bytes fw ns @ cfg) i"
proof -
  note v = v2_size [OF ok, folded m]
  have at: "info_at fw cfg ns j inf \<longleftrightarrow> sent_upto (min (252 * j) N) ns cfg inf \<and> cur_index inf = of_nat (min j m) \<and>
      end_index inf = of_nat m \<and> last_pkt inf = of_nat (N - 252 * m)" for j inf
    unfolding info_at_def Let_def N m ..
  have N': "N = sum_list (map plen ns) + length cfg" using v(1) N by simp
  have fin: "cur_index info = end_index info \<longleftrightarrow> i = m"
    using i v of_nat16_eq [of i m] by (auto simp: at min_def)
  have cur: "cur_index info = of_nat i" using i by (simp add: at)
  let ?x = "index_byte (of_nat i) (i = m)" and ?chunk = "take d (drop (252 * i) (fw_bytes fw ns @ cfg))"
  have b: "252 * i < N" "i = m \<longrightarrow> 252 * i + d = N" "i \<noteq> m \<longrightarrow> d = 252 \<and> 252 * i + 252 < N" "i = m \<longleftrightarrow> N \<le> 252 * (i + 1)"
    using i(1) v N d by auto
  have up: "sent_upto (252 * i) ns cfg info" using i(2) b(1) by (simp add: at min_def)
  obtain info' where r: "hci_get_patch_cmd_buf fw cfg info (of_nat (d + 1)) (frag_header[3 := of_nat (d + 1)]) =
      Some (HCI_SUCCESS, info', put_at ((frag_header[3 := of_nat (d + 1)])[4 := ?x]) 5 ?chunk)"
    "sent_upto (252 * i + d) ns cfg info'" "end_index info' = end_index info" "last_pkt info' = last_pkt info"
    "cur_index info' = (if i = m then of_nat i else of_nat i + 1)"
  proof -
    have p: "list_all (in_file fw) ns" "sum_list (map plen ns) + length cfg < 2 ^ 31" "length cfg < 65536" "0 < d" "d \<le> 252"
        "252 * i + d \<le> sum_list (map plen ns) + length cfg" "length (frag_header[3 := of_nat (d + 1)]) = 257"
      using ok b(1) d N' by (simp_all add: v2_ok_def frag_header_def)
    have f: "cur_index info = end_index info \<longrightarrow> 252 * i + d = sum_list (map plen ns) + length cfg"
      unfolding fin using b(2) N' by simp
    from cmd_buf_chunk [OF p up f] show thesis unfolding cur fin [unfolded cur] using that by blast
  qed
  have ch: "?chunk = take 252 (drop (252 * i) (fw_bytes fw ns @ cfg))"
    unfolding d by (cases "252 \<le> N - 252 * i") (simp_all add: N min_absorb2 del: length_append take_append drop_append)
  have "length ?chunk = d" unfolding length_take length_drop N [symmetric] d by simp
  then have fr: "v2_frame (fw_bytes fw ns @ cfg) i = [0x01, 0x20, 0xfc, of_nat (d + 1), ?x] @ ?chunk"
    unfolding v2_frame_def Let_def ch [symmetric] N [symmetric] using b(4) by simp
  have at': "info_at fw cfg ns (i + 1) info'"
  proof -
    have "min (252 * (i + 1)) N = 252 * i + d" "min (i + 1) m = (if i = m then i else i + 1)" using b i(1) d by auto
    then show ?thesis using r(2-5) i(2) cur by (simp add: at)
  qed
  have "d \<le> 252" unfolding d by (rule min.cobounded1)
  from that [OF r(1) at'] show thesis unfolding fr frag_packet [OF \<open>d \<le> 252\<close> \<open>length ?chunk = d\<close>] by blast
qed

text \<open>Behind the last fragment the configuration has no more bytes.\<close>

lemma cmd_buf_over:
  assumes ok: "v2_ok fw cfg ns" and i: "info_at fw cfg ns (m + 1) info"
    and N: "N = length (fw_bytes fw ns @ cfg)" and m: "m = v2_last (fw_bytes fw ns @ cfg)"
    and d: "0 < d" "d \<le> 252" "length buf = 257"
  shows "hci_get_patch_cmd_buf fw cfg info (of_nat (d + 1)) buf = None"
proof -
  note of_nat_add [simp del] of_nat_diff [simp del]
  note v = v2_size [OF ok, folded m]
  let ?F = "sum_list (map plen ns)"
  have N': "N = ?F + length cfg" using v(1) N by simp
  have "min (252 * (m + 1)) N = N" using v N by simp
  then have up: "sent_upto N ns cfg info" using i unfolding info_at_def Let_def N [symmetric] by metis
  then have i: "pf_len info = of_nat ?F" "sent_config_len info = of_nat (length cfg)" "sent_fw_len info = of_nat ?F"
      "head_node info = mark N ns" using N' by (simp_all add: sent_upto_def)
  have f: "list_all (in_file fw) ns" "?F < 2 ^ 31" "length cfg < 65536" using ok by (simp_all add: v2_ok_def)
  have nodes: "send_nodes fw (of_nat d) 0 (of_nat ?F) (of_nat d) b (mark N ns) = Some (True, of_nat ?F, of_nat d, b, mark ?F ns)"
    if "length b = 257" for b
  proof -
    have "mark N ns = mark ?F ns" using mark_min [of N ns] N' by simp
    then show ?thesis using send_nodes_stream [of fw ns 0 ?F d d b] f d that by (simp add: put_at_def)
  qed
  have w: "(of_nat (d + 1) :: u8) - 1 = of_nat d" "(of_nat d :: u8) > 0" "unat (of_nat d :: u8) = d" "unat (of_nat (length cfg) :: u16) = length cfg"
    using d f by (simp_all add: of_nat_add word_less_nat_alt unat_of_nat)
  show ?thesis unfolding hci_get_patch_cmd_buf_def Let_def w(1) i
    using nodes [of "buf[4 := _]"] d w(2-4) by (simp add: frag_copy_def slice_def i)
qed

lemma frag_words:
  assumes N: "0 < N" "N < 2 ^ 32"
  shows "ucast (((of_nat N :: u32) - 1) div 252) = (of_nat ((N - 1) div 252) :: u16)"
    and "(let last = ucast ((of_nat N :: u32) mod 252) in if last = 0 then 252 else last) = (of_nat (N - 252 * ((N - 1) div 252)) :: u8)"
proof -
  note of_nat_diff [simp del]
  have "(of_nat N :: u32) - 1 = of_nat (N - 1)" using N(1) by (simp add: of_nat_diff)
  moreover have "(of_nat (N - 1) :: u32) div 252 = of_nat ((N - 1) div 252)"
    using N by (simp add: word_unat_eq_iff unat_div unat_of_nat)
  ultimately have e: "((of_nat N :: u32) - 1) div 252 = of_nat ((N - 1) div 252)" by metis
  have "ucast (of_nat k :: u32) = (of_nat k :: u16)" for k
    by (simp add: word_unat_eq_iff unat_of_nat unsigned_ucast_eq take_bit_eq_mod mod_mod_cancel)
  then show "ucast (((of_nat N :: u32) - 1) div 252) = (of_nat ((N - 1) div 252) :: u16)" unfolding e .
  have "(of_nat N :: u32) mod 252 = of_nat (N mod 252)" using N by (simp add: word_unat_eq_iff unat_mod unat_of_nat)
  moreover have "N mod 252 < 256" by (rule less_trans [of _ 252]) simp_all
  ultimately have "ucast ((of_nat N :: u32) mod 252) = (of_nat (N mod 252) :: u8)" by (simp only: ucast_of_nat32)
  moreover have "(of_nat (N mod 252) :: u8) = 0 \<longleftrightarrow> N mod 252 = 0"
    using \<open>N mod 252 < 256\<close> by (simp add: word_unat_eq_iff unat_of_nat)
  moreover have "N - 252 * ((N - 1) div 252) = (if N mod 252 = 0 then 252 else N mod 252)"
  proof -
    obtain q r where q: "N - 1 = 252 * q + r" "r < 252" by (metis mod_less_divisor mult_div_mod_eq zero_less_numeral)
    then have "N = 252 * q + (r + 1)" "(252 * q + r) div 252 = q" using N(1) by simp_all
    then show ?thesis using q by (cases "r = 251") simp_all
  qed
  ultimately show "(let last = ucast ((of_nat N :: u32) mod 252) in if last = 0 then 252 else last) = (of_nat (N - 252 * ((N - 1) div 252)) :: u8)"
    by (simp add: Let_def)
qed

text \<open>\<open>get_patch_info\<close> starts the download off.\<close>

lemma info_start:
  assumes "get_patch_info fw cfg chip key hci_patch_downlod_init = Some (HCI_SUCCESS, info)" "v2_ok fw cfg (head_node info)"
  shows "info_at fw cfg (head_node info) 0 info"
proof -
  note of_nat_add [simp del] of_nat_diff [simp del]
  let ?ns = "head_node info" and ?N = "length (fw_bytes fw (head_node info) @ cfg)"
  note v = v2_size [OF assms(2)]
  obtain fw_len where p: "parse_patch fw chip key 16 [] = Some (fw_len, ?ns)" "pf_len info = fw_len" "sent_fw_len info = 0"
      "pc_len info = of_nat (length cfg)" "sent_config_len info = 0" "cur_index info = 0"
      "end_index info = ucast ((fw_len + ucast (of_nat (length cfg) :: u16) - 1) div 252)"
      "last_pkt info = (let last = ucast ((fw_len + ucast (of_nat (length cfg) :: u16)) mod 252) in if last = 0 then 252 else last)"
    using assms(1) by (auto simp: get_patch_info_def hci_patch_downlod_init_def Let_def split: if_splits option.splits)
  note len = parse_patch_acc [OF p(1)]
  have c: "(ucast (of_nat (length cfg) :: u16) :: u32) = of_nat (length cfg)"
    using assms(2) by (simp add: v2_ok_def word_unat_eq_iff unat_of_nat unsigned_ucast_eq take_bit_nat_eq_self)
  have N: "fw_len + ucast (of_nat (length cfg) :: u16) = of_nat ?N" unfolding c v(1) using len by (simp add: of_nat_add)
  have b: "0 < ?N" "?N < 2 ^ 32" unfolding v(1) using assms(2) by (auto simp: v2_ok_def)
  have e: "end_index info = of_nat (v2_last (fw_bytes fw ?ns @ cfg))" "last_pkt info = of_nat (?N - 252 * v2_last (fw_bytes fw ?ns @ cfg))"
    unfolding p(7,8) N v2_last_def using frag_words [OF b] by blast+
  show ?thesis unfolding info_at_def Let_def sent_upto_def using p e len mark_fresh by auto
qed

section \<open>The download\<close>

text \<open>The line has the first \<open>i\<close> frames; on leaving, a prefix of all.\<close>

definition v2_sent :: "bytes \<Rightarrow> bytes \<Rightarrow> nat \<Rightarrow> bytes" where
  "v2_sent out stream i = out @ concat (map (v2_frame stream) [0..<i])"

definition v2_at :: "bytes \<Rightarrow> bytes \<Rightarrow> bytes \<Rightarrow> PATCH_NODE list \<Rightarrow> nat \<Rightarrow> 'z bt2_globals_scheme \<Rightarrow> bool" where
  "v2_at out fw cfg ns i s \<longleftrightarrow> fw_buf (rtb_cfg s) = fw \<and> config_buf (rtb_cfg s) = cfg \<and>
     hci_out s = v2_sent out (fw_bytes fw ns @ cfg) i \<and> info_at fw cfg ns i (patch s)"

definition v2_pre :: "bytes \<Rightarrow> bytes \<Rightarrow> 'z bt_globals_scheme \<Rightarrow> bool" where
  "v2_pre out stream s \<longleftrightarrow> prefix (hci_out s) (out @ v2_frames stream)"

lemma v2_sent_pre:
  assumes "prefix xs (v2_sent out stream i)" "i \<le> v2_last stream + 1" "0 < length stream"
  shows "prefix xs (out @ v2_frames stream)"
proof -
  have "(length stream + 251) div 252 = v2_last stream + 1" using assms(3) by (cases "length stream") (simp_all add: v2_last_def)
  then have "v2_frames stream = concat (map (v2_frame stream) [0..<i + (v2_last stream + 1 - i)])"
    using assms(2) by (simp add: v2_frames_def)
  then have "v2_frames stream = concat (map (v2_frame stream) [0..<i]) @ concat (map (v2_frame stream) [i..<i + (v2_last stream + 1 - i)])"
    by (subst (asm) upt_add_eq_append) simp_all
  then have "prefix (v2_sent out stream i) (out @ v2_frames stream)" by (simp add: v2_sent_def)
  with assms(1) show ?thesis by (rule prefix_order.trans)
qed

lemma more_patch: "bt_globals.more s = bt_globals.more t \<Longrightarrow> patch s = patch t"
  by (cases s rule: bt2_globals.cases_scheme; cases t rule: bt2_globals.cases_scheme) simp

text \<open>A fragment goes out and either the download ends, or it goes on with all of the fragment sent.\<close>

lemma v2_send_triple:
  assumes "\<And>n. wtriple (\<lambda>s. bt_core s = (out @ take (unat (buf ! 3) + 4) buf, c)) (next n) (\<lambda>_. P) P"
    and "\<And>t. prefix (hci_out t) (out @ take (unat (buf ! 3) + 4) buf) \<Longrightarrow> P t"
  shows "wtriple (\<lambda>s. bt_core s = (out, c)) (v2_send buf rlen next) (\<lambda>_. P) P"
proof -
  let ?pkt = "take (unat (buf ! 3) + 4) buf"
  have fl: "wtriple (\<lambda>s. bt_core s = (out, c)) (if bit (buf ! 4) 7 then last_frag_flow else retC True) (\<lambda>_ s. bt_core s = (out, c)) P"
  proof (rule triple_conseq [OF steps_same_triple [where x = "(out, c)" and f = bt_core]])
    show "steps (same bt_core) (if bit (buf ! 4) 7 then last_frag_flow else retC True)"
      unfolding last_frag_flow_def by (intro same.steps_rules bt_call_core)
  qed (auto simp: bt_core_def intro!: assms(2))
  show ?thesis unfolding v2_send_def
  proof (rule triple_bindC [OF fl], rule triple_if, goal_cases)
    case (1 ok)
    show ?case by (rule triple_retC) (auto simp: bt_core_def intro!: assms(2))
  next
    case (2 ok)
    have x: "wtriple (\<lambda>s. bt_core s = (out, c)) (start_xfer_wait ?pkt 0 rlen)
        (\<lambda>r t. prefix (hci_out t) (out @ ?pkt) \<and> (r \<noteq> None \<longrightarrow> bt_core t = (out @ ?pkt, c))) P"
      by (rule triple_conseq [OF start_xfer_wait_sends]) (auto simp: bt_core_def take_is_prefix simp del: take_take intro: assms(2))
    show ?case
    proof (rule triple_bindC [OF x], goal_cases)
      case (1 r)
      show ?case
      proof (cases r)
        case None
        then show ?thesis by (auto simp: put_at_def gtriple_def retC_def assms(2))
      next
        case (Some bs)
        then show ?thesis unfolding Let_def
          by (auto intro!: triple_if triple_retC assms(2) triple_pre [OF assms(1)])
      qed
    qed
  qed
qed

lemma v2_turn_eval:
  assumes "hci_get_patch_cmd_len (fw_buf (rtb_cfg s)) (config_buf (rtb_cfg s)) (chipid s) (patch_key_id s) (patch s) = Some (HCI_SUCCESS, len, info)"
  shows "hci_get_patch_cmd_buf (fw_buf (rtb_cfg s)) (config_buf (rtb_cfg s)) info len (frag_header[3 := len]) = None \<Longrightarrow>
      v2_turn rlen next s = Fault"
    and "hci_get_patch_cmd_buf (fw_buf (rtb_cfg s)) (config_buf (rtb_cfg s)) info len (frag_header[3 := len]) = Some (HCI_SUCCESS, info', buf) \<Longrightarrow>
      v2_turn rlen next s = v2_send buf rlen next (s\<lparr>patch := info'\<rparr>)"
  using assms by (auto simp: v2_turn_def cmd_defs)

text \<open>
  A turn from a state in which the command length says fragment \<open>i\<close>: at the start it is that of
  the state that \<open>get_patch_info\<close> makes.
\<close>

lemma v2_turn_triple:
  fixes k :: "nat \<Rightarrow> ('z bt2_globals_scheme, u8) cmd"
  assumes ok: "v2_ok fw cfg ns" and i: "i \<le> m"
    and N: "N = length (fw_bytes fw ns @ cfg)" and m: "m = v2_last (fw_bytes fw ns @ cfg)"
    and k: "\<And>n. wtriple (v2_at out fw cfg ns (i + 1)) (k n) (\<lambda>_. v2_pre out (fw_bytes fw ns @ cfg)) (v2_pre out (fw_bytes fw ns @ cfg))"
  shows "wtriple (\<lambda>s. fw_buf (rtb_cfg s) = fw \<and> config_buf (rtb_cfg s) = cfg \<and> hci_out s = v2_sent out (fw_bytes fw ns @ cfg) i \<and>
      (\<exists>info. hci_get_patch_cmd_len fw cfg (chipid s) (patch_key_id s) (patch s) =
        Some (HCI_SUCCESS, of_nat (min 252 (N - 252 * i) + 1), info) \<and> info_at fw cfg ns i info))
    (v2_turn rlen k) (\<lambda>_. v2_pre out (fw_bytes fw ns @ cfg)) (v2_pre out (fw_bytes fw ns @ cfg))"
proof -
  let ?st = "fw_bytes fw ns @ cfg"
  let ?P = "v2_pre out ?st :: 'z bt2_globals_scheme \<Rightarrow> bool"
  have "case v2_turn rlen k s of Ret r t \<Rightarrow> ?P t | Exit n t \<Rightarrow> ?P t | Blocked t \<Rightarrow> ?P t | Fault \<Rightarrow> True"
    if s: "fw_buf (rtb_cfg s) = fw" "config_buf (rtb_cfg s) = cfg" "hci_out s = v2_sent out ?st i"
      "hci_get_patch_cmd_len fw cfg (chipid s) (patch_key_id s) (patch s) =
        Some (HCI_SUCCESS, of_nat (min 252 (N - 252 * i) + 1), info)" "info_at fw cfg ns i info" for s info
  proof -
    obtain info' buf where b: "hci_get_patch_cmd_buf fw cfg info (of_nat (min 252 (N - 252 * i) + 1))
          (frag_header[3 := of_nat (min 252 (N - 252 * i) + 1)]) = Some (HCI_SUCCESS, info', buf)"
        "info_at fw cfg ns (i + 1) info'" "take (unat (buf ! 3) + 4) buf = v2_frame ?st i"
      using cmd_buf_at [OF ok i s(5) N m refl] .
    let ?s = "s\<lparr>patch := info'\<rparr>"
    have sent: "v2_sent out ?st i @ take (unat (buf ! 3) + 4) buf = v2_sent out ?st (i + 1)" by (simp add: b(3) v2_sent_def)
    have "wtriple (\<lambda>u. bt_core u = (v2_sent out ?st i, rtb_cfg ?s, bt_globals.more ?s)) (v2_send buf rlen k) (\<lambda>_. ?P) ?P"
    proof (rule v2_send_triple; unfold sent)
      show "wtriple (\<lambda>u. bt_core u = (v2_sent out ?st (i + 1), rtb_cfg ?s, bt_globals.more ?s)) (k n) (\<lambda>_. ?P) ?P" for n
        by (rule triple_pre [OF k]) (use s b(2) in \<open>auto simp: v2_at_def bt_core_def dest: more_patch\<close>)
      show "?P t" if "prefix (hci_out t) (v2_sent out ?st (i + 1))" for t
        using that i m N v2_size(1) [OF ok] ok unfolding v2_pre_def by (intro v2_sent_pre) (auto simp: v2_ok_def)
    qed
    then show ?thesis unfolding v2_turn_eval(2) [OF s(4) [folded s(1,2)] b(1) [folded s(1,2)]]
      by (auto simp: gtriple_def bt_core_def s(3) split: outcome.split)
  qed
  then show ?thesis by (fastforce simp: gtriple_def split: outcome.splits)
qed

lemma v2_at_pre: "v2_ok fw cfg ns \<Longrightarrow> v2_at out fw cfg ns i s \<Longrightarrow> i \<le> v2_last (fw_bytes fw ns @ cfg) + 1 \<Longrightarrow>
  v2_pre out (fw_bytes fw ns @ cfg) s"
  unfolding v2_pre_def using v2_size(2,4) [of fw cfg ns] v2_size(1) [of fw cfg ns]
  by (intro v2_sent_pre [of _ _ _ i]) (auto simp: v2_at_def)

lemma v2_loop_triple:
  fixes q :: "write_ans list"
  assumes ok: "v2_ok fw cfg ns" and m: "m = v2_last (fw_bytes fw ns @ cfg)"
  shows "0 < i \<Longrightarrow> i \<le> m + 1 \<Longrightarrow> wtriple (v2_at out fw cfg ns i :: 'z bt2_globals_scheme \<Rightarrow> bool) (v2_loop rlen q)
    (\<lambda>_. v2_pre out (fw_bytes fw ns @ cfg)) (v2_pre out (fw_bytes fw ns @ cfg))"
proof (induction q arbitrary: i rlen)
  let ?P = "v2_pre out (fw_bytes fw ns @ cfg) :: 'z bt2_globals_scheme \<Rightarrow> bool"
  have turn: "wtriple (v2_at out fw cfg ns i :: 'z bt2_globals_scheme \<Rightarrow> bool) (v2_turn rlen k) (\<lambda>_. ?P) ?P"
    if i: "0 < i" "i \<le> m + 1" and k: "\<And>n. i \<le> m \<Longrightarrow> wtriple (v2_at out fw cfg ns (i + 1)) (k n) (\<lambda>_. ?P) ?P" for i rlen k
  proof (cases "i \<le> m")
    case True
    then show ?thesis using cmd_len_at [OF ok i(1)]
      by (intro triple_pre [OF v2_turn_triple [OF ok True refl m k]]) (auto simp: v2_at_def m min_def)
  next
    case False
    have "v2_turn rlen k s = Fault" if s: "v2_at out fw cfg ns i s" for s
    proof -
      have "i = m + 1" using False i by simp
      then have a: "info_at fw cfg ns (m + 1) (patch s)" "i = m + 1" using s by (simp_all add: v2_at_def)
      let ?N = "length (fw_bytes fw ns @ cfg)"
      let ?d = "min 252 (?N - 252 * min i m)"
      have "0 < ?d" using v2_size [OF ok] m a(2) by simp
      then show ?thesis
        using s cmd_len_at [OF ok i(1), of "patch s"] cmd_buf_over [OF ok a(1) refl m, of ?d] m
        by (intro v2_turn_eval(1)) (auto simp: v2_at_def frag_header_def)
    qed
    then show ?thesis by (simp add: gtriple_def)
  qed
  {
    case Nil
    show ?case unfolding v2_loop.simps
      by (rule turn) (use Nil v2_at_pre [OF ok] m in \<open>auto simp: gtriple_def\<close>)
  next
    case (Cons a q)
    show ?case unfolding v2_loop.simps by (rule turn) (use Cons in auto)
  }
qed

text \<open>
  C3: A download in the second format sends the right bytes. Let the firmware file yield a queue of
  patches for this chip, with every payload inside the file, and let the stream, which is the
  payloads in the order of the queue and then the configuration, need more than one fragment
  and at most 65536. However the download ends, short of an access outside of the buffers, the
  serial line has got a prefix of the frames of that stream: fragment after fragment of 252
  bytes, each with its command header, its length and its index byte, the last one marked. No
  payload byte is lost, doubled or out of order, wherever the borders of payloads fall.
\<close>

theorem hci_download_patch_v2_stream:
  assumes "get_patch_info (fw_buf (rtb_cfg s)) (config_buf (rtb_cfg s)) (eversion (rtb_cfg s) + 1) (patch_key_id s)
      hci_patch_downlod_init = Some (HCI_SUCCESS, info)"
    and "v2_ok (fw_buf (rtb_cfg s)) (config_buf (rtb_cfg s)) (head_node info)"
    and "hci_download_patch_v2 s = Ret r t \<or> hci_download_patch_v2 s = Exit n t \<or> hci_download_patch_v2 s = Blocked t"
  shows "prefix (hci_out t) (hci_out s @ v2_frames (fw_bytes (fw_buf (rtb_cfg s)) (head_node info) @ config_buf (rtb_cfg s)))"
proof -
  let ?fw = "fw_buf (rtb_cfg s)" and ?cfg = "config_buf (rtb_cfg s)" and ?ns = "head_node info"
  let ?P = "v2_pre (hci_out s) (fw_bytes ?fw ?ns @ ?cfg)"
  let ?s = "s\<lparr>chipid := eversion (rtb_cfg s) + 1, patch := hci_patch_downlod_init\<rparr>"
  note at = info_start [OF assms(1,2)] and v = v2_size [OF assms(2)]
  have "(of_nat (v2_last (fw_bytes ?fw ?ns @ ?cfg)) :: u16) \<noteq> 0"
    using v of_nat16_eq [of "v2_last (fw_bytes ?fw ?ns @ ?cfg)" 0] by simp
  then have len: "hci_get_patch_cmd_len ?fw ?cfg (eversion (rtb_cfg s) + 1) (patch_key_id s) hci_patch_downlod_init =
      Some (HCI_SUCCESS, 253, info)"
    using assms(1) at by (auto simp: hci_get_patch_cmd_len_def hci_patch_downlod_init_def info_at_def Let_def)
  have k: "min 252 (length (fw_bytes ?fw ?ns @ ?cfg) - 252 * 0) + 1 = 253" unfolding v(1) using assms(2) by (simp add: v2_ok_def)
  have turn: "wtriple (\<lambda>u. u = ?s) (v2_turn 8 (\<lambda>n. c n)) (\<lambda>_. ?P) ?P"
    if "\<And>n. wtriple (v2_at (hci_out s) ?fw ?cfg ?ns (0 + 1)) (c n) (\<lambda>_. ?P) ?P" for c
    by (rule triple_pre [OF v2_turn_triple [OF assms(2) le0 refl refl that]])
      (use at in \<open>auto simp: v2_sent_def len k [simplified]\<close>)
  have blk: "wtriple (v2_at (hci_out s) ?fw ?cfg ?ns (0 + 1)) Blocked (\<lambda>_. ?P) ?P"
    using v2_at_pre [OF assms(2)] by (auto simp: gtriple_def)
  have "wtriple (\<lambda>u. u = ?s) (v2_loop 8 (q_wr s)) (\<lambda>_. ?P) ?P"
    by (cases "q_wr s") (auto intro!: turn blk v2_loop_triple [OF assms(2) refl])
  moreover have "hci_download_patch_v2 s = v2_loop 8 (q_wr s) ?s" by (simp add: hci_download_patch_v2_def cmd_defs)
  ultimately show ?thesis using assms(3) by (auto simp: gtriple_def v2_pre_def split: outcome.splits)
qed

text \<open>A file with one patch of 300 bytes for chip 1, and a controller that takes both fragments.\<close>

definition demo_fw :: bytes where
  "demo_fw = [0, 0, 0, 0, 0, 0, 0, 0, 0, 0, 0, 0, 0, 0, 0, 0, 1, 0, 0, 0, 1, 0, 0, 0, 0x38, 1, 0, 0, 1, 0, 0, 0,
     1, 0, 0, 0, 0x2c, 1, 0, 0] @ replicate 300 7"

definition demo_cfg :: bytes where "demo_cfg = [0x55, 0xab, 0x23, 0x87, 0, 0]"

definition demo_info :: "nat \<Rightarrow> PATCH_INFO" where
  "demo_info i = \<lparr>pf_len = 300, sent_fw_len = (if i = 0 then 0 else if i = 1 then 252 else 300), pc_len = 6,
     sent_config_len = (if i < 2 then 0 else 6), cur_index = (if i = 0 then 0 else 1),
     end_index = 1, last_pkt = 54, head_node = [\<lparr>eco = 1, priority = 0, key_id = 0, payload_len = 300, payload = 40,
       sent_payload_len = (if i = 0 then 0 else if i = 1 then 252 else 300)\<rparr>]\<rparr>"

lemma demo_start: "get_patch_info demo_fw demo_cfg 1 0 hci_patch_downlod_init = Some (HCI_SUCCESS, demo_info 0)"
  by (simp add: get_patch_info_def demo_fw_def demo_cfg_def parse_patch_def slice_def hci_patch_downlod_init_def
    parse_patch_section_def parse_entry_def opcode_defs Let_def demo_info_def)

definition demo_pkt :: "nat \<Rightarrow> bytes" where
  "demo_pkt i = (if i = 0 then [0x01, 0x20, 0xfc, 253, 0] @ replicate 252 7
     else [0x01, 0x20, 0xfc, 55, 0x81] @ replicate 48 7 @ demo_cfg)"

lemma demo_header: "frag_header[3 := x] = [0x01, 0x20, 0xfc, x, 0] @ replicate 252 0"
proof -
  have "replicate 254 (0 :: u8) = 0 # 0 # replicate 252 0" by (simp add: numeral_eq_Suc)
  then show ?thesis by (simp add: frag_header_def numeral_3_eq_3)
qed

lemma demo_frag:
  "hci_get_patch_cmd_buf demo_fw demo_cfg (demo_info 0) 253 (frag_header[3 := 253]) = Some (HCI_SUCCESS, demo_info (Suc 0), demo_pkt 0)"
  "hci_get_patch_cmd_buf demo_fw demo_cfg (demo_info (Suc 0)) 55 (frag_header[3 := 55]) =
     Some (HCI_SUCCESS, demo_info 2, demo_pkt (Suc 0) @ replicate 198 0)"
  unfolding demo_header
  by (simp_all add: hci_get_patch_cmd_buf_def demo_fw_def demo_cfg_def demo_info_def demo_pkt_def Let_def frag_index_def
    frag_copy_def slice_def put_at_def word_le_nat_alt)

lemma demo_len:
  "hci_get_patch_cmd_len demo_fw demo_cfg 1 0 hci_patch_downlod_init = Some (HCI_SUCCESS, 253, demo_info 0)"
  "hci_get_patch_cmd_len demo_fw demo_cfg 1 0 (demo_info (Suc 0)) = Some (HCI_SUCCESS, 55, demo_info (Suc 0))"
  by (simp_all add: hci_get_patch_cmd_len_def demo_start hci_patch_downlod_init_def [THEN arg_cong, of cur_index])
    (simp_all add: demo_info_def)

lemma xfer_ok:
  assumes "q_wr s = WrDone (length pkt) # ws" "q_poll s = [PollReady False, PollReady False, PollReady False] @ ps"
    and "q_rd s = [RdData [4], RdData [0x0e, 5], RdData [1, 0x20, 0xfc, 0, b]] @ rs" "pkt = [0x01, 0x20, 0xfc, n] @ data"
  shows "start_xfer_wait pkt 0 8 s = Ret (Some [4, 0x0e, 5, 1, 0x20, 0xfc, 0, b]) (s\<lparr>q_wr := ws, q_poll := ps, q_rd := rs,
    hci_in := hci_in s @ [4, 0x0e, 5, 1, 0x20, 0xfc, 0, b], hci_out := hci_out s @ pkt\<rparr>)"
proof -
  have "(0xfc20 :: u16) = push_bit 8 (ucast (0xfc :: u8)) + ucast (0x20 :: u8)" by simp
  then show ?thesis using assms
    by (simp add: start_xfer_wait_def cmd_defs bt_defs xfer_init_def recv_step_def read_exact_def Let_def put_at_def xfer_verdict_def)
qed

definition v2_demo :: bt2_globals where
  "v2_demo = \<lparr>q_poll = [PollReady False, PollReady False, PollReady False] @ [PollReady False, PollReady False, PollReady False],
     q_rd = [RdData [4], RdData [0x0e, 5], RdData [1, 0x20, 0xfc, 0, 0], RdData [4], RdData [0x0e, 5], RdData [1, 0x20, 0xfc, 0, 0x80]],
     q_wr = [WrDone 257, WrDone 59], q_tcset = [True], q_devopen = [], q_devioctl = [], hci_out = [], hci_in = [], host_flow = False,
     host_speed = 115200, rtb_cfg = rtb_zero\<lparr>fw_buf := demo_fw, config_buf := demo_cfg\<rparr>, chipid = 0, patch_key_id = 0,
     patch = hci_patch_downlod_init\<rparr>"

lemma Suc8: "Suc (Suc (Suc (Suc (Suc (Suc (Suc (Suc 0))))))) = 8"
  by simp

lemma demo_send:
  assumes "q_wr s = WrDone (length pkt) # ws" "q_poll s = [PollReady False, PollReady False, PollReady False] @ ps"
    and "q_rd s = [RdData [4], RdData [0x0e, 5], RdData [1, 0x20, 0xfc, 0, b]] @ rs"
    and "take (unat (buf ! 3) + 4) buf = pkt" "pkt = [0x01, 0x20, 0xfc, n] @ data"
  defines "t \<equiv> s\<lparr>q_wr := ws, q_poll := ps, q_rd := rs, hci_in := hci_in s @ [4, 0x0e, 5, 1, 0x20, 0xfc, 0, b], hci_out := hci_out s @ pkt\<rparr>"
  shows "\<not> bit (buf ! 4) 7 \<Longrightarrow> \<not> bit b 7 \<Longrightarrow> v2_send buf 8 next s = next 8 t"
    and "bit (buf ! 4) 7 \<Longrightarrow> q_tcset s = True # ts \<Longrightarrow> bit b 7 \<Longrightarrow>
      v2_send buf 8 next s = Ret 0 (t\<lparr>q_tcset := ts, host_flow := uart_flow_ctrl (rtb_cfg s) \<noteq> 0\<rparr>)"
  unfolding v2_send_def assms(4) t_def
  using xfer_ok [OF assms(1-3,5)] xfer_ok [of "s\<lparr>q_tcset := ts, host_flow := uart_flow_ctrl (rtb_cfg s) \<noteq> 0\<rparr>" pkt ws ps b rs, OF _ _ _ assms(5)] assms(1-3)
  by (simp_all add: cmd_defs put_at_def last_frag_flow_def bt_tcsetattr_def Suc8)

lemma demo_run: "\<exists>t. hci_download_patch_v2 v2_demo = Ret 0 t \<and> hci_out t = demo_pkt 0 @ demo_pkt (Suc 0)"
proof -
  let ?s = "v2_demo\<lparr>chipid := 1, patch := demo_info (Suc 0)\<rparr>"
  let ?t = "?s\<lparr>q_wr := [WrDone 59], q_poll := [PollReady False, PollReady False, PollReady False], q_rd := drop 3 (q_rd v2_demo),
    hci_in := [4, 0x0e, 5, 1, 0x20, 0xfc, 0, 0], hci_out := demo_pkt 0\<rparr>"
  have "hci_download_patch_v2 v2_demo = v2_send (demo_pkt 0) 8 (\<lambda>n. v2_loop n [WrDone 59]) ?s"
    using v2_turn_eval(2) [of "v2_demo\<lparr>chipid := 1, patch := hci_patch_downlod_init\<rparr>", OF _ _, of 253 "demo_info 0" "demo_info (Suc 0)" "demo_pkt 0"]
    by (simp add: hci_download_patch_v2_def cmd_defs v2_demo_def rtb_zero_def demo_len demo_frag)
  also have "\<dots> = v2_loop 8 [WrDone 59] ?t"
    by (subst demo_send(1) [where pkt = "demo_pkt 0" and b = 0 and ps = "[PollReady False, PollReady False, PollReady False]" and ws = "[WrDone 59]" and n = 253 and
        data = "0 # replicate 252 7" and rs = "drop 3 (q_rd v2_demo)"])
      (simp_all add: v2_demo_def demo_pkt_def)
  also have "\<dots> = v2_send (demo_pkt (Suc 0) @ replicate 198 0) 8 (\<lambda>n. v2_loop n []) (?t\<lparr>patch := demo_info 2\<rparr>)"
    using v2_turn_eval(2) [of ?t, OF _ _, of 55 "demo_info (Suc 0)" "demo_info 2" "demo_pkt (Suc 0) @ replicate 198 0"]
    by (simp add: v2_demo_def rtb_zero_def demo_len demo_frag)
  finally show ?thesis
    by (subst (asm) demo_send(2) [where pkt = "demo_pkt (Suc 0)" and b = 128 and ps = "[]" and ws = "[]" and n = 55 and ts = "[]" and
        data = "0x81 # replicate 48 7 @ demo_cfg" and rs = "[]"])
      (simp_all add: v2_demo_def demo_pkt_def demo_cfg_def)
qed

theorem hci_download_patch_v2_stream_witness:
  "\<exists>t. get_patch_info (fw_buf (rtb_cfg v2_demo)) (config_buf (rtb_cfg v2_demo)) (eversion (rtb_cfg v2_demo) + 1)
      (patch_key_id v2_demo) hci_patch_downlod_init = Some (HCI_SUCCESS, demo_info 0) \<and>
    hci_download_patch_v2 v2_demo = Ret 0 t \<and> hci_out t = demo_pkt 0 @ demo_pkt (Suc 0) \<and>
    prefix (hci_out t) (v2_frames (fw_bytes demo_fw (head_node (demo_info 0)) @ demo_cfg))"
proof -
  obtain t where t: "hci_download_patch_v2 v2_demo = Ret 0 t" "hci_out t = demo_pkt 0 @ demo_pkt (Suc 0)" using demo_run by blast
  have i: "get_patch_info (fw_buf (rtb_cfg v2_demo)) (config_buf (rtb_cfg v2_demo)) (eversion (rtb_cfg v2_demo) + 1)
      (patch_key_id v2_demo) hci_patch_downlod_init = Some (HCI_SUCCESS, demo_info 0)"
    using demo_start by (simp add: v2_demo_def rtb_zero_def)
  have ok: "v2_ok (fw_buf (rtb_cfg v2_demo)) (config_buf (rtb_cfg v2_demo)) (head_node (demo_info 0))"
    by (simp add: v2_demo_def v2_ok_def in_file_def demo_info_def plen_def demo_fw_def demo_cfg_def)
  from hci_download_patch_v2_stream [OF i ok disjI1 [OF t(1)]] i t show ?thesis by (simp add: v2_demo_def)
qed

end
