(* ===== verification/BtConfig.thy ===== *)
theory BtConfig
  imports BtPatch2
begin

text \<open>
  The configuration of the Bluetooth controller, \<^verbatim>\<open>rtb_fwc.c\<close>: the table of chips, the configuration
  file with its items, the changes that the values of the efuse make in it, and the firmware file. A
  buffer is a byte list, and an access outside of it is \<open>None\<close> in the pure functions.
\<close>

unbundle bit_operations_syntax

section \<open>The table of chips\<close>

definition CHIP_8730 :: u8 where "CHIP_8730 = 1"
definition CHIP_8735 :: u8 where "CHIP_8735 = 2"

definition h4_patch_table :: "patch_info list" where
  "h4_patch_table =
     [\<lparr>match_flags = 1, pi_chip_type = CHIP_8730, pi_lmp_subver = 0x8730, pi_hci_ver = 0, pi_hci_rev = 0x000a,
        patch_file = ''rtl8730_fw'', config_file = ''rtl8730_config_s0''\<rparr>,
      \<lparr>match_flags = 1, pi_chip_type = CHIP_8735, pi_lmp_subver = 0x8735, pi_hci_ver = 0, pi_hci_rev = 0x000a,
        patch_file = ''rtl8735_fw'', config_file = ''rtl8735_config_s0''\<rparr>,
      \<lparr>match_flags = 0, pi_chip_type = 0, pi_lmp_subver = 0, pi_hci_ver = 0, pi_hci_rev = 0,
        patch_file = ''rtl_none_fw'', config_file = ''rtl_none_config''\<rparr>]"

definition entry_matches :: "rtb_struct \<Rightarrow> patch_info \<Rightarrow> bool" where
  "entry_matches btrtl n \<longleftrightarrow>
     \<not> (bit (match_flags n) 0 \<and> pi_chip_type n \<noteq> chip_type btrtl) \<and>
     \<not> (bit (match_flags n) 1 \<and> pi_hci_ver n \<noteq> hci_ver btrtl) \<and>
     \<not> (bit (match_flags n) 2 \<and> pi_hci_rev n \<noteq> hci_rev btrtl) \<and>
     pi_lmp_subver n = lmp_subver btrtl"

text \<open>The loop ends at an entry with \<open>lmp_subver\<close> 0; a table without one is read past its end.\<close>

fun search_entry :: "rtb_struct \<Rightarrow> patch_info list \<Rightarrow> patch_info option" where
  "search_entry btrtl [] = None"
| "search_entry btrtl (n # rest) =
     (if pi_lmp_subver n = 0 \<or> entry_matches btrtl n then Some n else search_entry btrtl rest)"

definition get_patch_entry :: "rtb_struct \<Rightarrow> patch_info option" where
  "get_patch_entry btrtl = search_entry btrtl h4_patch_table"

definition is_mac :: "u8 \<Rightarrow> u16 \<Rightarrow> bool" where
  "is_mac chip off \<longleftrightarrow> chip = CHIP_8730 \<and> off = 0x0030"

definition get_mac_offset :: "u8 \<Rightarrow> u16" where
  "get_mac_offset chip = (if chip = CHIP_8730 then 0x0030 else 0x003c)"

section \<open>Items\<close>

text \<open>The length of an item is that of its data.\<close>

record cfg_list_item =
  cfg_offset :: u16
  cfg_data :: bytes

definition cfg_magic :: bytes where "cfg_magic = [0x55, 0xab, 0x23, 0x87]"

definition RTB_CFG_HDR_LEN :: nat where "RTB_CFG_HDR_LEN = 6"

text \<open>The efuse value at an address of the logical map, which starts at \<open>0x1B0\<close>.\<close>

definition lefuse :: "bytes \<Rightarrow> nat \<Rightarrow> u8 option" where
  "lefuse efuse a = (if a - 0x1B0 < length efuse then Some (efuse ! (a - 0x1B0)) else None)"

text \<open>
  What the entry at an offset gets from the efuse: positions behind \<open>p\<close> and their values, where a value
  \<open>None\<close> is a read outside of the efuse. \<open>p0\<close> is the byte at \<open>p\<close>.
\<close>

definition unless_ff :: "bytes \<Rightarrow> nat \<Rightarrow> nat \<Rightarrow> (nat \<times> u8 option) list" where
  "unless_ff efuse a i = (case lefuse efuse (a + i) of
     None \<Rightarrow> [(i, None)]
   | Some b \<Rightarrow> if b \<noteq> 0xff then [(i, Some b)] else [])"

definition efuse_writes :: "bool \<Rightarrow> bytes \<Rightarrow> u16 \<Rightarrow> nat \<Rightarrow> u8 option \<Rightarrow> (nat \<times> u8 option) list" where
  "efuse_writes mp efuse off entry_len p0 =
     (if off = 0x0018 then (if mp then [(0, map_option (\<lambda>b. b AND NOT 4) p0)] else [])
      else if off = 0x0030
      then (if list_ex (\<lambda>i. lefuse efuse (0x1B0 + i) \<noteq> Some 0xff) [4..<10]
            then map (\<lambda>i. (i, lefuse efuse (0x1B0 + 4 + 6 - 1 - i))) [0..<6] else [])
      else if off = 0x0278
      then (case lefuse efuse 0x1be of
          None \<Rightarrow> [(0, None)]
        | Some m \<Rightarrow>
            if m = 0xff then []
            else [(0, Some m)] @
              (if bit m 1 then [(1, lefuse efuse 0x1bf)] else []) @
              (if bit m 2 then [(2, lefuse efuse 0x1c0), (3, lefuse efuse 0x1c1), (4, lefuse efuse 0x1c2), (5, lefuse efuse 0x1c3)] else []) @
              (if bit m 5 then [(6, lefuse efuse 0x1c4), (7, lefuse efuse 0x1c5)] else []))
      else if off = 0x0282 then concat (map (unless_ff efuse 0x1c8) [0..<entry_len])
      else if off = 0x028a then concat (map (unless_ff efuse 0x1d0) [0..<entry_len])
      else [])"

fun poke_all :: "(nat \<times> u8 option) list \<Rightarrow> nat \<Rightarrow> bytes \<Rightarrow> bytes option" where
  "poke_all [] p buf = Some buf"
| "poke_all ((k, v) # ws) p buf = (case v of
     None \<Rightarrow> None
   | Some b \<Rightarrow> if p + k < length buf then poke_all ws p (buf[p + k := b]) else None)"

text \<open>The address is logged in the case \<open>0x0030\<close>: six bytes are read there in any case.\<close>

function rtb_read_config_from_efuse :: "bool \<Rightarrow> bytes \<Rightarrow> nat \<Rightarrow> nat \<Rightarrow> bytes \<Rightarrow> bytes option" where
  "rtb_read_config_from_efuse mp efuse config_buf_len p buf =
     (if p < config_buf_len
      then (case slice buf p 3 of
          None \<Rightarrow> None
        | Some h \<Rightarrow>
            let off = le_word (take 2 h); entry_len = unat (h ! 2); p = p + 3;
                p0 = (if p < length buf then Some (buf ! p) else None)
            in if off = 0x0030 \<and> length buf < p + 6 then None
               else case poke_all (efuse_writes mp efuse off entry_len p0) p buf of
                   None \<Rightarrow> None
                 | Some buf \<Rightarrow> rtb_read_config_from_efuse mp efuse config_buf_len (p + entry_len) buf)
      else Some buf)"
  by pat_completeness auto
termination by (relation "measure (\<lambda>(mp, efuse, n, p, buf). n - p)") auto

text \<open>The loop over the entries: \<open>i\<close> has 16 bits, the position of the entry is \<open>pos\<close>.\<close>

function config_entries :: "u16 \<Rightarrow> u16 \<Rightarrow> nat \<Rightarrow> bytes \<Rightarrow> cfg_list_item list option" where
  "config_entries cfg_len i pos buf =
     (if i < cfg_len
      then (case slice buf pos 3 of
          None \<Rightarrow> None
        | Some h \<Rightarrow> (case slice buf (pos + 3) (unat (h ! 2)) of
            None \<Rightarrow> None
          | Some dat \<Rightarrow> map_option (\<lambda>items. \<lparr>cfg_offset = le_word (take 2 h), cfg_data = dat\<rparr> # items)
              (config_entries cfg_len (i + (ucast (h ! 2) + 3)) (pos + (unat (h ! 2) + 3)) buf)))
      else Some [])"
  by pat_completeness auto
termination by (relation "measure (\<lambda>(n, i, pos, buf). length buf - pos)") (auto simp: slice_def split: if_splits)

text \<open>The result, the buffer and the items; \<open>False\<close> stands for -1.\<close>

definition rtb_parse_config :: "bool \<Rightarrow> bytes \<Rightarrow> bytes option \<Rightarrow> (bool \<times> bytes \<times> cfg_list_item list) option" where
  "rtb_parse_config mp cfg_buf efuse =
     (let len = length cfg_buf
      in if len = 0 then Some (False, cfg_buf, [])
         else if len < 4 then None
         else if take 4 cfg_buf \<noteq> cfg_magic then Some (False, cfg_buf, [])
         else if len < RTB_CFG_HDR_LEN then None
         else
           let cfg_buf = cfg_buf[4 := of_nat (len - RTB_CFG_HDR_LEN)];
               cfg_len = push_bit 8 (ucast (cfg_buf ! 5)) + ucast (cfg_buf ! 4)
           in if unat (cfg_len :: u16) \<noteq> len - RTB_CFG_HDR_LEN then Some (False, cfg_buf, [])
              else (case (case efuse of
                        None \<Rightarrow> Some cfg_buf
                      | Some ef \<Rightarrow> rtb_read_config_from_efuse mp ef len RTB_CFG_HDR_LEN cfg_buf) of
                  None \<Rightarrow> None
                | Some cfg_buf \<Rightarrow> map_option (\<lambda>items. (True, cfg_buf, items)) (config_entries cfg_len 0 6 cfg_buf)))"

section \<open>The configuration of a run\<close>

definition HCI_UART_H4 :: int where "HCI_UART_H4 = 0"

text \<open>What an item sets in \<open>rtb_cfg\<close>.\<close>

definition item_effect :: "cfg_list_item \<Rightarrow> rtb_struct \<Rightarrow> rtb_struct option" where
  "item_effect n cfg =
     (if cfg_offset n = 0x000c
      then (case slice (cfg_data n) 0 4 of
          None \<Rightarrow> None
        | Some d \<Rightarrow>
            let cfg = cfg\<lparr>vendor_baud := le_word d\<rparr>
            in Some (if length (cfg_data n) > 12 then cfg\<lparr>uart_flow_ctrl := (if bit (cfg_data n ! 12) 2 then 1 else 0)\<rparr> else cfg))
      else if cfg_offset n = 0x0018 \<and> proto cfg = HCI_UART_H4
      then (case cfg_data n of
          [] \<Rightarrow> None
        | d # _ \<Rightarrow>
            let cfg = (if bit d 2 then cfg\<lparr>uart_flow_ctrl := 1\<rparr> else cfg)
            in Some (if bit d 0 then cfg\<lparr>parenb := 1, pareven := (if bit d 1 then 1 else 0)\<rparr> else cfg))
      else Some cfg)"

fun items_effect :: "cfg_list_item list \<Rightarrow> rtb_struct \<Rightarrow> rtb_struct option" where
  "items_effect [] cfg = Some cfg"
| "items_effect (n # rest) cfg = (case item_effect n cfg of None \<Rightarrow> None | Some cfg \<Rightarrow> items_effect rest cfg)"

definition item_bytes :: "cfg_list_item \<Rightarrow> bytes" where
  "item_bytes n = [ucast (cfg_offset n AND 0xff), ucast (drop_bit 8 (cfg_offset n) AND 0xff), of_nat (length (cfg_data n))] @ cfg_data n"

definition items_size :: "cfg_list_item list \<Rightarrow> nat" where
  "items_size items = sum_list (map (\<lambda>n. 3 + length (cfg_data n)) items)"

text \<open>
  The buffer that is built from the items: \<open>config_len\<close> and \<open>dlen\<close> have 16 bits, and the buffer is
  allocated with \<open>config_len\<close>.
\<close>

definition write_config :: "cfg_list_item list \<Rightarrow> bytes option" where
  "write_config items =
     (let config_len = (of_nat (6 + items_size items) :: u16); dlen = (of_nat (items_size items) :: u16)
      in if unat config_len < 6 + items_size items then None
         else Some (cfg_magic @ [ucast (dlen AND 0xff), ucast (drop_bit 8 dlen AND 0xff)] @ concat (map item_bytes items)))"

text \<open>
  From the parsing on. \<open>result\<close> is a \<open>size_t\<close>, so that the test for a negative result is never true:
  what was parsed is used in any case. There are no extra items in this build, for which
  \<open>merge_configs\<close> returns at once.
\<close>

definition config_of :: "bool \<Rightarrow> bytes \<Rightarrow> bytes option \<Rightarrow> rtb_struct \<Rightarrow> (rtb_struct \<times> bytes) option" where
  "config_of mp buf efuse cfg = (case rtb_parse_config mp buf efuse of
     None \<Rightarrow> None
   | Some (_, _, items) \<Rightarrow>
       (case items_effect items cfg of
          None \<Rightarrow> None
        | Some cfg \<Rightarrow> map_option (\<lambda>out. (cfg, out)) (write_config items)))"

section \<open>Files\<close>

text \<open>
  A file: it cannot be accessed or opened; its size and what a read of that many bytes gives; the read
  fails, and the buffer keeps the bytes that it happens to have.
\<close>

datatype file_ans = FileMissing | FileData nat bytes | FileErr bytes

record btc_globals = bt2_globals +
  bt_files :: "string \<Rightarrow> file_ans"
  mp_mode :: bool

definition file_path :: "string \<Rightarrow> string" where
  "file_path name = take 1023 (''/lib/firmware/rtlbt/'' @ name)"

definition set_bluetooth_mode :: "bool \<Rightarrow> ('z btc_globals_scheme, unit) cmd" where
  "set_bluetooth_mode is_mp = modifyC (\<lambda>s. s\<lparr>mp_mode := is_mp\<rparr>)"

text \<open>
  \<open>None\<close>: a null pointer. The result of the read is unsigned: -1 passes the test for a short read.
\<close>

definition rtb_read_config :: "string \<Rightarrow> bytes option \<Rightarrow> ('z btc_globals_scheme, bytes option) cmd" where
  "rtb_read_config name efuse =
     bindC (getsC (\<lambda>s. (bt_files s (file_path name), mp_mode s, rtb_cfg s))) (\<lambda>(file, mp, cfg).
       let use = (\<lambda>buf. case config_of mp buf efuse cfg of
             None \<Rightarrow> faultC
           | Some (cfg, out) \<Rightarrow> bindC (modifyC (\<lambda>s. s\<lparr>rtb_cfg := cfg\<rparr>)) (\<lambda>_. retC (Some out)))
       in case file of
           FileMissing \<Rightarrow> retC None
         | FileData n bs \<Rightarrow> if length bs < n then retC None else use (take n bs)
         | FileErr bs \<Rightarrow> use bs)"

definition rtb_read_firmware :: "patch_info \<Rightarrow> ('z btc_globals_scheme, bytes option) cmd" where
  "rtb_read_firmware ent =
     bindC (getsC (\<lambda>s. bt_files s (file_path (patch_file ent)))) (\<lambda>file. case file of
       FileMissing \<Rightarrow> retC None
     | FileData n bs \<Rightarrow> if length bs < n then retC None else retC (Some (take n bs))
     | FileErr bs \<Rightarrow> retC None)"

section \<open>Items and their bytes\<close>

text \<open>Reference: the file of a list of items, and what the efuse makes of an item.\<close>

definition item_ok :: "cfg_list_item \<Rightarrow> bool" where
  "item_ok n \<longleftrightarrow> length (cfg_data n) < 256"

definition cfg_file :: "cfg_list_item list \<Rightarrow> bytes" where
  "cfg_file items = cfg_magic @ le_bytes 2 (of_nat (items_size items) :: u16) @ concat (map item_bytes items)"

definition item_writes :: "bool \<Rightarrow> bytes \<Rightarrow> cfg_list_item \<Rightarrow> (nat \<times> u8 option) list" where
  "item_writes mp efuse n = efuse_writes mp efuse (cfg_offset n) (length (cfg_data n)) (Some (cfg_data n ! 0))"

definition efuse_item :: "bool \<Rightarrow> bytes \<Rightarrow> cfg_list_item \<Rightarrow> cfg_list_item" where
  "efuse_item mp efuse n = n\<lparr>cfg_data := fold (\<lambda>(k, v) d. d[k := the v]) (item_writes mp efuse n) (cfg_data n)\<rparr>"

text \<open>An item that has room for what the efuse says of it.\<close>

definition item_room :: "bool \<Rightarrow> bytes \<Rightarrow> cfg_list_item \<Rightarrow> bool" where
  "item_room mp efuse n \<longleftrightarrow> list_all (\<lambda>(k, v). k < length (cfg_data n) \<and> v \<noteq> None) (item_writes mp efuse n) \<and>
     (cfg_offset n = 0x0030 \<longrightarrow> 6 \<le> length (cfg_data n))"

lemma low_byte: "(ucast (w AND 0xff :: u16) :: u8) = ucast w"
  unfolding u16_ff by (rule bit_word_eqI) (auto simp: bit_simps)

lemma le_bytes_2: "le_bytes 2 (w :: u16) = [ucast (w AND 0xff), ucast (drop_bit 8 w AND 0xff)]"
  by (simp add: le_bytes_def numeral_2_eq_2 low_byte)

lemma item_bytes_le: "item_bytes n = le_bytes 2 (cfg_offset n) @ [of_nat (length (cfg_data n))] @ cfg_data n"
  by (simp add: item_bytes_def le_bytes_2)

lemma length_item_bytes: "length (item_bytes n) = 3 + length (cfg_data n)"
  by (simp add: item_bytes_def)

lemma length_items: "length (concat (map item_bytes items)) = items_size items"
  by (induction items) (simp_all add: items_size_def length_item_bytes)

lemma write_config_file:
  assumes "6 + items_size items < 65536"
  shows "write_config items = Some (cfg_file items)"
proof -
  have "unat (of_nat (6 + items_size items) :: u16) = 6 + items_size items"
    using assms by (subst unat_of_nat) simp
  then show ?thesis unfolding write_config_def Let_def cfg_file_def le_bytes_2 by simp
qed

text \<open>Reading the head of an item and its data inside a buffer.\<close>

lemma slice_mid: "length pre = p \<Longrightarrow> length xs = n \<Longrightarrow> slice (pre @ xs @ post) p n = Some xs"
  by (auto simp: slice_def)

lemma slice_item:
  assumes "length pre = p" "item_ok n"
  shows "slice (pre @ item_bytes n @ post) p 3 = Some (le_bytes 2 (cfg_offset n) @ [of_nat (length (cfg_data n))])"
    and "slice (pre @ item_bytes n @ post) (p + 3) (length (cfg_data n)) = Some (cfg_data n)"
    and "unat (of_nat (length (cfg_data n)) :: u8) = length (cfg_data n)"
proof -
  show "slice (pre @ item_bytes n @ post) p 3 = Some (le_bytes 2 (cfg_offset n) @ [of_nat (length (cfg_data n))])"
    using slice_mid [of pre p "le_bytes 2 (cfg_offset n) @ [of_nat (length (cfg_data n))]" 3 "cfg_data n @ post"] assms
    by (simp add: item_bytes_le)
  show "slice (pre @ item_bytes n @ post) (p + 3) (length (cfg_data n)) = Some (cfg_data n)"
    using slice_mid [of "pre @ le_bytes 2 (cfg_offset n) @ [of_nat (length (cfg_data n))]" "p + 3" "cfg_data n" "length (cfg_data n)" post] assms
    by (simp add: item_bytes_le)
  show "unat (of_nat (length (cfg_data n)) :: u8) = length (cfg_data n)"
    using assms by (simp add: item_ok_def unat_of_nat)
qed

lemma offset_bytes: "le_word (take 2 (le_bytes 2 w @ xs)) = (w :: u16)"
  using le_word_le_bytes [of 2 w] by simp

text \<open>Writes of an item, in the buffer, are those in its data.\<close>

lemma poke_mid:
  assumes "length pre = p" "list_all (\<lambda>(k, v). k < length d \<and> v \<noteq> None) ws"
  shows "poke_all ws p (pre @ d @ post) = Some (pre @ fold (\<lambda>(k, v) d. d[k := the v]) ws d @ post)"
  using assms(2)
proof (induction ws arbitrary: d)
  case (Cons w ws)
  obtain k b where w: "w = (k, Some b)" "k < length d" using Cons.prems by (cases w) auto
  have "(pre @ d @ post)[p + k := b] = pre @ d[k := b] @ post" using assms(1) w(2) by (simp add: list_update_append)
  then show ?case using Cons assms(1) w by simp
qed simp

lemma length_efuse_item: "length (cfg_data (efuse_item mp efuse n)) = length (cfg_data n)"
proof -
  have "length (fold (\<lambda>(k, v) d. d[k := the v]) ws d) = length d" for ws and d :: bytes
    by (induction ws arbitrary: d) auto
  then show ?thesis by (simp add: efuse_item_def)
qed

lemma efuse_item_offset: "cfg_offset (efuse_item mp efuse n) = cfg_offset n"
  by (simp add: efuse_item_def)

lemma items_size_efuse: "items_size (map (efuse_item mp efuse) items) = items_size items"
  by (simp add: items_size_def comp_def length_efuse_item)

lemma efuse_step:
  assumes "p < N" "slice buf p 3 = Some h" "le_word (take 2 h) = off" "unat (h ! 2) = n"
    "\<not> (off = 0x0030 \<and> length buf < p + 3 + 6)"
    "poke_all (efuse_writes mp efuse off n (if p + 3 < length buf then Some (buf ! (p + 3)) else None)) (p + 3) buf = Some buf'"
  shows "rtb_read_config_from_efuse mp efuse N p buf = rtb_read_config_from_efuse mp efuse N (p + 3 + n) buf'"
  by (subst rtb_read_config_from_efuse.simps) (simp only: assms if_True if_False option.case Let_def)

lemma entries_step:
  assumes "i < L" "slice buf p 3 = Some h" "le_word (take 2 h) = off" "unat (h ! 2) = n" "slice buf (p + 3) n = Some d"
    "config_entries L (i + (ucast (h ! 2) + 3)) (p + (n + 3)) buf = Some items"
  shows "config_entries L i p buf = Some (\<lparr>cfg_offset = off, cfg_data = d\<rparr> # items)"
  by (subst config_entries.simps) (simp only: assms if_True option.case option.map)

lemma efuse_walk:
  assumes "list_all item_ok items" "list_all (item_room mp efuse) items" "length pre = p"
  shows "rtb_read_config_from_efuse mp efuse (p + items_size items) p (pre @ concat (map item_bytes items)) =
    Some (pre @ concat (map item_bytes (map (efuse_item mp efuse) items)))"
  using assms
proof (induction items arbitrary: pre p)
  case Nil
  then show ?case by (simp add: items_size_def)
next
  case (Cons n items)
  let ?rest = "concat (map item_bytes items)" and ?h = "le_bytes 2 (cfg_offset n) @ [of_nat (length (cfg_data n)) :: u8]"
  let ?buf = "pre @ item_bytes n @ ?rest" and ?n = "efuse_item mp efuse n"
  have n: "item_ok n" "item_room mp efuse n" using Cons.prems by simp_all
  note sl = slice_item(1,2) [OF Cons.prems(3) n(1), of ?rest] slice_item(3) [OF Cons.prems(3) n(1)]
  have lt: "p < p + items_size (n # items)" by (simp add: items_size_def)
  have buf: "?buf = (pre @ ?h) @ cfg_data n @ ?rest" by (simp add: item_bytes_le)
  have p0: "(if p + 3 < length ?buf then Some (?buf ! (p + 3)) else None) = Some (cfg_data n ! 0)" if "cfg_data n \<noteq> []"
    unfolding buf using that Cons.prems(3) by (simp add: nth_append)
  have w: "efuse_writes mp efuse (cfg_offset n) (length (cfg_data n)) (if p + 3 < length ?buf then Some (?buf ! (p + 3)) else None) =
      item_writes mp efuse n"
  proof (cases "cfg_data n = []")
    case True
    then have "\<not> (cfg_offset n = 0x0018 \<and> mp)" using n(2) by (auto simp: item_room_def item_writes_def efuse_writes_def)
    then show ?thesis unfolding item_writes_def by (auto simp: efuse_writes_def)
  next
    case False
    show ?thesis unfolding p0 [OF False] item_writes_def ..
  qed
  have pk: "poke_all (item_writes mp efuse n) (p + 3) ?buf = Some (pre @ item_bytes ?n @ ?rest)"
    unfolding buf using poke_mid [of "pre @ ?h" "p + 3" "cfg_data n" "item_writes mp efuse n" ?rest] n(2) Cons.prems(3)
    by (simp add: item_room_def item_bytes_le efuse_item_offset length_efuse_item) (simp add: efuse_item_def)
  have room: "\<not> (cfg_offset n = 0x0030 \<and> length ?buf < p + 3 + 6)"
    using n(2) Cons.prems(3) by (auto simp: item_room_def length_item_bytes)
  have "rtb_read_config_from_efuse mp efuse (p + items_size (n # items)) p ?buf =
      rtb_read_config_from_efuse mp efuse (p + items_size (n # items)) (p + 3 + length (cfg_data n)) (pre @ item_bytes ?n @ ?rest)"
    using efuse_step [OF lt sl(1) offset_bytes _ room, of "length (cfg_data n)" mp efuse, unfolded w, OF _ pk] sl(3) by (simp add: nth_append)
  also have "\<dots> = Some ((pre @ item_bytes ?n) @ concat (map item_bytes (map (efuse_item mp efuse) items)))"
    using Cons.IH [of "pre @ item_bytes ?n" "p + 3 + length (cfg_data n)"] Cons.prems
    by (simp add: length_item_bytes length_efuse_item items_size_def add.assoc)
  finally show ?case by simp
qed

lemma entries_walk:
  assumes "list_all item_ok items" "length pre = p" "i + items_size items = L" "L < 65536"
  shows "config_entries (of_nat L) (of_nat i) p (pre @ concat (map item_bytes items)) = Some items"
  using assms
proof (induction items arbitrary: pre p i)
  case Nil
  then show ?case by (simp add: items_size_def)
next
  case (Cons n items)
  let ?rest = "concat (map item_bytes items)"
  let ?buf = "pre @ item_bytes n @ ?rest"
  note sl = slice_item(1,2) [OF Cons.prems(2), of n ?rest] slice_item(3) [OF Cons.prems(2), of n]
  have n: "item_ok n" using Cons.prems by simp
  have lt: "(of_nat i :: u16) < of_nat L"
    using Cons.prems by (simp add: items_size_def word_less_nat_alt unat_of_nat)
  have st: "(of_nat i :: u16) + (ucast (of_nat (length (cfg_data n)) :: u8) + 3) = of_nat (i + (length (cfg_data n) + 3))"
  proof -
    have "(ucast (of_nat k :: u8) :: u16) = of_nat k" if "k < 256" for k
      using that by (simp add: word_unat_eq_iff unat_of_nat unsigned_ucast_eq take_bit_nat_eq_self)
    then show ?thesis using n by (simp add: item_ok_def)
  qed
  have "config_entries (of_nat L) (of_nat (i + (length (cfg_data n) + 3))) (p + (length (cfg_data n) + 3)) ?buf = Some items"
    using Cons.IH [of "pre @ item_bytes n" "p + (length (cfg_data n) + 3)" "i + (length (cfg_data n) + 3)"] Cons.prems
    by (simp add: length_item_bytes items_size_def add.assoc del: of_nat_add)
  then have "config_entries (of_nat L) (of_nat i) p ?buf = Some (\<lparr>cfg_offset = cfg_offset n, cfg_data = cfg_data n\<rparr> # items)"
    using st sl(3) [OF n] by (intro entries_step [OF lt sl(1) [OF n] offset_bytes _ sl(2) [OF n]]) (simp_all add: nth_append del: of_nat_add)
  then show ?case by simp
qed

lemma parse_eval:
  assumes "length b = 6 + n" "take 4 b = cfg_magic" "b[4 := of_nat n] = b" "unat L = n"
    and "push_bit 8 (ucast (b ! 5)) + ucast (b ! 4) = L"
    and "(case efuse of None \<Rightarrow> Some b | Some ef \<Rightarrow> rtb_read_config_from_efuse mp ef (6 + n) 6 b) = Some b'"
    and "config_entries L 0 6 b' = Some items"
  shows "rtb_parse_config mp b efuse = Some (True, b', items)"
proof -
  have c: "(6 + n = 0) = False" "(6 + n < 4) = False" "(6 + n < 6) = False" "6 + n - 6 = n" by simp_all
  show ?thesis unfolding rtb_parse_config_def Let_def RTB_CFG_HDR_LEN_def
    by (simp only: assms c if_False simp_thms option.case option.map)
qed

lemma parse_file:
  assumes items: "list_all item_ok items" "items_size items < 65536"
    and room: "case efuse of None \<Rightarrow> True | Some ef \<Rightarrow> list_all (item_room mp ef) items"
  defines "items' \<equiv> (case efuse of None \<Rightarrow> items | Some ef \<Rightarrow> map (efuse_item mp ef) items)"
  shows "\<exists>buf. rtb_parse_config mp (cfg_file items) efuse = Some (True, buf, items')"
proof -
  let ?S = "items_size items"
  let ?pre = "cfg_magic @ le_bytes 2 (of_nat ?S :: u16)"
  have f: "cfg_file its = (cfg_magic @ le_bytes 2 (of_nat (items_size its) :: u16)) @ concat (map item_bytes its)" for its
    by (simp add: cfg_file_def)
  have len: "length (cfg_file items) = 6 + ?S" by (simp add: f cfg_magic_def length_items)
  have low: "(of_nat ?S :: u8) = le_bytes 2 (of_nat ?S :: u16) ! 0"
    by (simp add: le_bytes_def word_unat_eq_iff unat_of_nat unsigned_ucast_eq take_bit_eq_mod mod_mod_cancel)
  have upd: "(cfg_file items)[4 := of_nat ?S] = cfg_file items"
    by (simp add: low cfg_file_def cfg_magic_def le_bytes_def numeral_eq_Suc)
  have cl: "push_bit 8 (ucast (cfg_file items ! 5)) + ucast (cfg_file items ! 4) = (of_nat ?S :: u16)"
  proof -
    have n: "cfg_file items ! 4 = le_bytes 2 (of_nat ?S :: u16) ! 0" "cfg_file items ! 5 = le_bytes 2 (of_nat ?S :: u16) ! 1"
      by (simp_all add: cfg_file_def cfg_magic_def le_bytes_def numeral_eq_Suc)
    show ?thesis unfolding n opcode_le_word using le_word_le_bytes [of 2 "of_nat ?S :: u16"]
      by (simp add: le_bytes_def numeral_2_eq_2)
  qed
  have S: "unat (of_nat ?S :: u16) = ?S" using items(2) by (simp add: unat_of_nat)
  have ok': "list_all item_ok items'" "items_size items' = ?S"
    using items(1) by (auto simp: items'_def item_ok_def length_efuse_item items_size_efuse list_all_iff split: option.split)
  have ef: "(case efuse of None \<Rightarrow> Some (cfg_file items)
      | Some ef \<Rightarrow> rtb_read_config_from_efuse mp ef (6 + ?S) 6 (cfg_file items)) = Some (cfg_file items')"
  proof (cases efuse)
    case (Some ef)
    have "rtb_read_config_from_efuse mp ef (6 + ?S) 6 (cfg_file items) = Some (cfg_file items')"
      unfolding f ok'(2) using efuse_walk [OF items(1) _ , of mp ef ?pre 6] room Some
      by (simp add: items'_def cfg_magic_def)
    then show ?thesis unfolding Some option.case .
  qed (simp add: items'_def)
  have en: "config_entries (of_nat ?S) 0 6 (cfg_file items') = Some items'"
    using entries_walk [of items' "cfg_magic @ le_bytes 2 (of_nat ?S :: u16)" 6 0 ?S] ok' items(2) unfolding f by (simp add: cfg_magic_def)
  have m: "take 4 (cfg_file items) = cfg_magic" by (simp add: cfg_file_def cfg_magic_def)
  show ?thesis by (rule exI, rule parse_eval [OF len m upd S cl ef en])
qed

text \<open>
  C10: For a configuration file of well-formed items, with an efuse image or without, what is handed to
  the controller is the file of the items with the values of the efuse put in, item by item: no
  item is lost, moved or cut, and no write for one item touches another. The settings of the
  program are those of the resulting items.
\<close>

theorem rtb_read_config_items:
  assumes "list_all item_ok items" "6 + items_size items < 65536"
    and "case efuse of None \<Rightarrow> True | Some ef \<Rightarrow> list_all (item_room (mp_mode s) ef) items"
    and "bt_files s (file_path name) = FileData (length (cfg_file items)) (cfg_file items)"
    and "items' = (case efuse of None \<Rightarrow> items | Some ef \<Rightarrow> map (efuse_item (mp_mode s) ef) items)"
    and "items_effect items' (rtb_cfg s) = Some cfg"
  shows "rtb_read_config name efuse s = Ret (Some (cfg_file items')) (s\<lparr>rtb_cfg := cfg\<rparr>)"
proof -
  have "items_size items' = items_size items" unfolding assms(5) by (simp add: items_size_efuse split: option.split)
  then have "write_config items' = Some (cfg_file items')" using assms(2) by (simp add: write_config_file)
  moreover obtain buf where "rtb_parse_config (mp_mode s) (cfg_file items) efuse = Some (True, buf, items')"
    using parse_file [where items = items and efuse = efuse and mp = "mp_mode s"] assms(1-3,5) by auto
  ultimately show ?thesis using assms(4,6) by (simp add: rtb_read_config_def config_of_def cmd_defs Let_def)
qed

definition btc_demo :: "bytes \<Rightarrow> btc_globals" where
  "btc_demo bs = \<lparr>q_poll = [], q_rd = [], q_wr = [], q_tcset = [], q_devopen = [], q_devioctl = [], hci_out = [], hci_in = [],
     host_flow = False, host_speed = 115200, rtb_cfg = rtb_zero, chipid = 0, patch_key_id = 0, patch = hci_patch_downlod_init,
     bt_files = (\<lambda>_. FileData (length bs) bs), mp_mode = False\<rparr>"

definition demo_items :: "bytes \<Rightarrow> cfg_list_item list" where
  "demo_items mac = [\<lparr>cfg_offset = 0x0030, cfg_data = mac\<rparr>, \<lparr>cfg_offset = 0x000c, cfg_data = [1, 0x80, 0x92, 4]\<rparr>,
     \<lparr>cfg_offset = 0x0018, cfg_data = [0x5c]\<rparr>]"

text \<open>The address of the file is replaced by the one of the efuse, the speed and the flow control are taken.\<close>

theorem rtb_read_config_items_witness:
  "rtb_read_config ''rtl8730_config_s0'' (Some [0xff, 0xff, 0xff, 0xff, 1, 2, 3, 4, 5, 6]) (btc_demo (cfg_file (demo_items [7, 7, 7, 7, 7, 7]))) =
     Ret (Some (cfg_file (demo_items [6, 5, 4, 3, 2, 1])))
       ((btc_demo (cfg_file (demo_items [7, 7, 7, 7, 7, 7])))\<lparr>rtb_cfg := rtb_zero\<lparr>vendor_baud := 0x04928001, uart_flow_ctrl := 1\<rparr>\<rparr>)"
proof (rule rtb_read_config_items [of "demo_items [7, 7, 7, 7, 7, 7]"])
  let ?ef = "[0xff, 0xff, 0xff, 0xff, 1, 2, 3, 4, 5, 6] :: bytes"
  have u: "[0..<6] = [0, 1, 2, 3, 4, 5 :: nat]" "[4..<10] = [4, 5, 6, 7, 8, 9 :: nat]" by (simp_all add: upt_rec)
  show "list_all item_ok (demo_items [7, 7, 7, 7, 7, 7])" "6 + items_size (demo_items [7, 7, 7, 7, 7, 7]) < 65536"
    by (simp_all add: demo_items_def item_ok_def items_size_def)
  show "case Some ?ef of None \<Rightarrow> True | Some ef \<Rightarrow> list_all (item_room (mp_mode (btc_demo (cfg_file (demo_items [7, 7, 7, 7, 7, 7])))) ef) (demo_items [7, 7, 7, 7, 7, 7])"
    by (simp add: demo_items_def item_room_def item_writes_def efuse_writes_def btc_demo_def lefuse_def u)
  show "demo_items [6, 5, 4, 3, 2, 1] = (case Some ?ef of None \<Rightarrow> demo_items [7, 7, 7, 7, 7, 7]
      | Some ef \<Rightarrow> map (efuse_item (mp_mode (btc_demo (cfg_file (demo_items [7, 7, 7, 7, 7, 7])))) ef) (demo_items [7, 7, 7, 7, 7, 7]))"
    by (simp add: demo_items_def efuse_item_def item_writes_def efuse_writes_def btc_demo_def lefuse_def u)
qed (simp_all add: btc_demo_def demo_items_def item_effect_def slice_def rtb_zero_def HCI_UART_H4_def)

text \<open>
  C27: A file that is not a configuration is not refused: with the wrong signature, \<open>rtb_read_config\<close>
  returns the header of an empty configuration instead of ending the program, and the settings
  keep their values.
\<close>

theorem rtb_read_config_bad_signature:
  assumes "bt_files s (file_path name) = FileData (length buf) buf" "4 \<le> length buf" "take 4 buf \<noteq> cfg_magic"
  shows "rtb_read_config name efuse s = Ret (Some (cfg_magic @ [0, 0])) s"
proof -
  have "rtb_parse_config (mp_mode s) buf efuse = Some (False, buf, [])"
    using assms(2,3) by (auto simp: rtb_parse_config_def Let_def)
  moreover have "write_config [] = Some (cfg_magic @ [0, 0])" by (simp add: write_config_def items_size_def Let_def)
  ultimately show ?thesis using assms(1) by (simp add: rtb_read_config_def config_of_def cmd_defs)
qed

theorem rtb_read_config_bad_signature_witness:
  "rtb_read_config ''rtl8730_config_s0'' None (btc_demo [1, 2, 3, 4, 5]) = Ret (Some (cfg_magic @ [0, 0])) (btc_demo [1, 2, 3, 4, 5])"
  by (rule rtb_read_config_bad_signature [of _ _ "[1, 2, 3, 4, 5]"]) (simp_all add: btc_demo_def cfg_magic_def)

end
