(* ===== verification/BtPatch3.thy ===== *)
theory BtPatch3
  imports BtConfig
begin

text \<open>
  Download of a firmware patch in the third format, \<^verbatim>\<open>hci_download_v3.c\<close>: sections with an image
  each, queued by priority. The registers of a section are written in front of its first
  fragment, and the start address of the security section in front of the last packet. As in the
  second format a pointer into the file is its offset and a read outside of a buffer is a fault.
\<close>

unbundle bit_operations_syntax

section \<open>Data\<close>

definition HCI_PATCH_IMAGE_INFO_LEN :: nat where "HCI_PATCH_IMAGE_INFO_LEN = 1024"
definition HCI_BT_REG_KEY_ID :: u32 where "HCI_BT_REG_KEY_ID = 0xb000ada4"
definition HCI_PATCH_PROJECT_ID :: u16 where "HCI_PATCH_PROJECT_ID = 0x28"
definition OPCODE_PATCH_IMAGE :: u32 where "OPCODE_PATCH_IMAGE = 1"

text \<open>\<open>reg_addr\<close> and \<open>reg_value\<close> have two elements: the start address of the patch, and the rest of the
  security header buffer.\<close>

record SECTION_NODE =
  new_section_check :: bool
  sn_priority :: u8
  sn_cur_index :: u16
  sn_end_index :: u16
  sn_last_pkt :: u8
  reg_addr :: "u32 list"
  reg_value :: "u32 list"
  image_len :: u32
  image_payload :: nat
  sent_image_len :: u32

text \<open>\<open>security_node\<close> points to a node; its fields that are read through it do not change, and it is a copy here.\<close>

record PATCH_INFO3 =
  p3_fw_len :: u32
  p3_sent_fw_len :: u32
  section_cnt :: u8
  p3_config_len :: u16
  p3_sent_config_len :: u16
  p3_head_node :: "SECTION_NODE list"
  security_node :: "SECTION_NODE option"

record bt3_globals = btc_globals +
  chipid3 :: u8
  patch_key_id3 :: u8
  patch3 :: PATCH_INFO3

section \<open>Registers\<close>

text \<open>\<open>resp\<close> is not initialised: bytes that no reply filled must not be looked at.\<close>

definition hci_vendor_read :: "u32 \<Rightarrow> ('z bt_globals_scheme, u32 option) cmd" where
  "hci_vendor_read addr =
     bindC (start_xfer_wait ([0x01, 0x61, 0xfc, 5, 0x21] @ le_bytes 4 addr) 0 12) (\<lambda>r. case r of
       None \<Rightarrow> retC None
     | Some resp \<Rightarrow>
         if length resp < 7 then faultC
         else if resp ! 4 \<noteq> 0x61 \<or> resp ! 5 \<noteq> 0xfc \<or> resp ! 6 \<noteq> 0 then retC None
         else if length resp < 11 then faultC
         else retC (Some (le_word (take 4 (drop 7 resp)))))"

definition hci_vendor_write :: "u32 \<Rightarrow> u32 \<Rightarrow> ('z bt_globals_scheme, bool) cmd" where
  "hci_vendor_write addr val =
     bindC (start_xfer_wait ([0x01, 0x62, 0xfc, 9, 0x21] @ le_bytes 4 addr @ le_bytes 4 val) 0 8) (\<lambda>r. case r of
       None \<Rightarrow> retC False
     | Some resp \<Rightarrow>
         if length resp < 7 then faultC
         else retC (resp ! 4 = 0x62 \<and> resp ! 5 = 0xfc \<and> resp ! 6 = 0))"

section \<open>Parsing\<close>

fun insert_section_queue :: "SECTION_NODE \<Rightarrow> SECTION_NODE list \<Rightarrow> SECTION_NODE list" where
  "insert_section_queue p [] = [p]"
| "insert_section_queue p (node # rest) =
     (if sn_priority node \<ge> sn_priority p then p # node # rest else node # insert_section_queue p rest)"

definition select_security_section_node :: "SECTION_NODE option \<Rightarrow> SECTION_NODE \<Rightarrow> SECTION_NODE option" where
  "select_security_section_node dest p =
     (if reg_value p ! 1 \<noteq> 0 \<and> reg_addr p ! 1 \<noteq> 0 \<and> reg_addr p ! 1 \<noteq> 0xffffffff \<and>
         (case dest of None \<Rightarrow> True | Some d \<Rightarrow> sn_priority p > sn_priority d)
      then Some p else dest)"

definition image_node :: "bytes \<Rightarrow> nat \<Rightarrow> u32 \<Rightarrow> SECTION_NODE" where
  "image_node h pos total_len =
     (let reg = (\<lambda>off. ucast (le_word (take 8 (drop off h)) :: u64)); last = ucast (total_len mod 252)
      in \<lparr>new_section_check = False, sn_priority = h ! 1023, sn_cur_index = 1, sn_end_index = ucast ((total_len - 1) div 252 + 1),
          sn_last_pkt = (if last = 0 then 252 else last), reg_addr = [reg 991, reg 1007], reg_value = [reg 999, reg 1015],
          image_len = reg 1024, image_payload = pos + 1032, sent_image_len = 0\<rparr>)"

text \<open>The image at \<open>pos\<close>: its length, or 0 if it is not taken, and the new state.\<close>

definition parse_patch_image :: "bytes \<Rightarrow> u8 \<Rightarrow> u8 \<Rightarrow> nat \<Rightarrow> PATCH_INFO3 \<Rightarrow> (u32 \<times> PATCH_INFO3) option" where
  "parse_patch_image buf chip key pos info = (case slice buf pos 5 of
     None \<Rightarrow> None
   | Some i \<Rightarrow>
       if le_word (take 2 i) \<noteq> HCI_PATCH_PROJECT_ID \<or> i ! 2 \<noteq> chip \<or> i ! 3 \<noteq> key \<or> i ! 4 \<noteq> 0 then Some (0, info)
       else if section_cnt info \<ge> 64 then Some (0, info)
       else (case slice buf pos (HCI_PATCH_IMAGE_INFO_LEN + 8) of
           None \<Rightarrow> None
         | Some h \<Rightarrow>
             if (le_word (drop HCI_PATCH_IMAGE_INFO_LEN h) :: u64) = 0 then Some (0, info)
             else
               let cnt = section_cnt info + 1; len = ucast (le_word (take 8 (drop 1024 h)) :: u64);
                   node = image_node h pos (if cnt = 1 then len + ucast (p3_config_len info) else len)
               in Some (image_len node, info\<lparr>section_cnt := cnt, p3_head_node := insert_section_queue node (p3_head_node info),
                    security_node := select_security_section_node (security_node info) node\<rparr>)))"

fun walk_images :: "bytes \<Rightarrow> u8 \<Rightarrow> u8 \<Rightarrow> nat \<Rightarrow> nat \<Rightarrow> u32 \<Rightarrow> PATCH_INFO3 \<Rightarrow> (u32 \<times> PATCH_INFO3) option" where
  "walk_images buf chip key 0 p fw_len info = Some (fw_len, info)"
| "walk_images buf chip key (Suc n) p fw_len info = (case slice buf p 12 of
     None \<Rightarrow> None
   | Some h \<Rightarrow>
       (case (if le_word (take 4 h) = OPCODE_PATCH_IMAGE then parse_patch_image buf chip key (p + 12) info else Some (0, info)) of
          None \<Rightarrow> None
        | Some (len, info) \<Rightarrow>
            walk_images buf chip key n (p + 12 + unat (le_word (drop 4 h) :: u64)) (fw_len + len) info))"

definition parse_sections :: "bytes \<Rightarrow> u8 \<Rightarrow> u8 \<Rightarrow> nat \<Rightarrow> PATCH_INFO3 \<Rightarrow> (u32 \<times> PATCH_INFO3) option" where
  "parse_sections buf chip key p info = (case slice buf p 4 of
     None \<Rightarrow> None
   | Some h \<Rightarrow> walk_images buf chip key (unat (le_word h :: u32)) (p + 4) 0 info)"

definition patch3_zero :: PATCH_INFO3 where
  "patch3_zero = \<lparr>p3_fw_len = 0, p3_sent_fw_len = 0, section_cnt = 0, p3_config_len = 0, p3_sent_config_len = 0,
     p3_head_node = [], security_node = None\<rparr>"

definition get_patch_info3 :: "bytes \<Rightarrow> bytes \<Rightarrow> u8 \<Rightarrow> u8 \<Rightarrow> PATCH_INFO3 \<Rightarrow> (hci_ret \<times> PATCH_INFO3) option" where
  "get_patch_info3 fw cfg chip key info =
     (if length fw < 16 then None
      else case parse_sections fw chip key 20 (info\<lparr>p3_config_len := of_nat (length cfg)\<rparr>) of
          None \<Rightarrow> None
        | Some (fw_len, info) \<Rightarrow>
            if fw_len = 0 then Some (HCI_IGNORE, info) else Some (HCI_SUCCESS, info\<lparr>p3_fw_len := fw_len\<rparr>))"

definition hci_patch_download_init_parse :: "bytes \<Rightarrow> bytes \<Rightarrow> u8 \<Rightarrow> u8 \<Rightarrow> (hci_ret \<times> PATCH_INFO3) option" where
  "hci_patch_download_init_parse fw cfg chip key = get_patch_info3 fw cfg chip key patch3_zero"

section \<open>Packets\<close>

text \<open>The loop up to the first section that is not sent: those in front, the rest, \<open>reg_arr\<close> and \<open>new_section\<close>.\<close>

fun section_scan :: "SECTION_NODE list \<Rightarrow> (u32 \<times> u32) list \<Rightarrow> bool \<Rightarrow>
    SECTION_NODE list \<times> SECTION_NODE list \<times> (u32 \<times> u32) list \<times> bool" where
  "section_scan [] arr new = ([], [], arr, new)"
| "section_scan (n # ns) arr new =
     (let (arr, new) = (if new_section_check n then (arr, new) else (zip (reg_addr n) (reg_value n), True));
          n = n\<lparr>new_section_check := True\<rparr>
      in if sn_cur_index n > sn_end_index n
         then (let (done, rest, arr, new) = section_scan ns arr new in (n # done, rest, arr, new))
         else ([], n # ns, arr, new))"

text \<open>The data of a fragment of \<open>n\<close> bytes at offset \<open>5 + k\<close> of the packet buffer.\<close>

definition frag_put :: "bytes \<Rightarrow> nat \<Rightarrow> nat \<Rightarrow> nat \<Rightarrow> bytes \<Rightarrow> bytes option" where
  "frag_put src from k n buf = (case slice src from n of
     None \<Rightarrow> None
   | Some bs \<Rightarrow> if 5 + k + n \<le> length buf then Some (put_at buf (5 + k) bs) else None)"

definition section_frag ::
  "bytes \<Rightarrow> bytes \<Rightarrow> PATCH_INFO3 \<Rightarrow> SECTION_NODE \<Rightarrow> u8 \<Rightarrow> bytes \<Rightarrow> (hci_ret \<times> PATCH_INFO3 \<times> SECTION_NODE \<times> bytes) option" where
  "section_frag fw cfg info n remain_len buf =
     (let from = image_payload n + unat (sent_image_len n)
      in if sent_image_len n + ucast remain_len \<le> image_len n
         then map_option (\<lambda>buf. (HCI_SUCCESS, info\<lparr>p3_sent_fw_len := p3_sent_fw_len info + ucast remain_len\<rparr>,
             n\<lparr>sent_image_len := sent_image_len n + ucast remain_len\<rparr>, buf)) (frag_put fw from 0 (unat remain_len) buf)
         else
           let sending_len = ucast (image_len n - sent_image_len n); rem = remain_len - sending_len;
               n' = n\<lparr>sent_image_len := sent_image_len n + ucast sending_len\<rparr>
           in case frag_put fw from 0 (unat sending_len) buf of
                None \<Rightarrow> None
              | Some buf \<Rightarrow> (case frag_put cfg (unat (p3_sent_config_len info)) (unat sending_len) (unat rem) buf of
                  None \<Rightarrow> None
                | Some buf \<Rightarrow>
                    Some (if image_len n' = sent_image_len n' then HCI_SUCCESS else HCI_FAIL,
                      info\<lparr>p3_sent_fw_len := p3_sent_fw_len info + ucast sending_len,
                        p3_sent_config_len := p3_sent_config_len info + ucast rem\<rparr>, n', buf)))"

definition hci_patch_get_cmd_buf ::
  "bytes \<Rightarrow> bytes \<Rightarrow> PATCH_INFO3 \<Rightarrow> bytes \<Rightarrow> (hci_ret \<times> (u32 \<times> u32) list \<times> bool \<times> PATCH_INFO3 \<times> bytes) option" where
  "hci_patch_get_cmd_buf fw cfg info buf =
     (if p3_head_node info = [] then None
      else case section_scan (p3_head_node info) [(0, 0), (0, 0)] False of
          (done, [], arr, new) \<Rightarrow>
            Some (if p3_sent_fw_len info \<noteq> p3_fw_len info \<or> p3_sent_config_len info \<noteq> p3_config_len info then HCI_FAIL else HCI_SUCCESS,
              arr, new, info\<lparr>p3_head_node := done\<rparr>, buf[3 := 1, 4 := 0x80])
        | (done, n # ns, arr, new) \<Rightarrow>
            let len = (if sn_cur_index n = sn_end_index n then sn_last_pkt n + 1 else 253);
                buf = buf[3 := len, 4 := frag_index (sn_cur_index n)]
            in case section_frag fw cfg info n (len - 1) buf of
                 None \<Rightarrow> None
               | Some (ret, info, n, buf) \<Rightarrow>
                   let n = (if ret = HCI_SUCCESS then n\<lparr>sn_cur_index := sn_cur_index n + 1\<rparr> else n)
                   in Some (ret, arr, new, info\<lparr>p3_head_node := done @ n # ns\<rparr>, buf))"

definition hci_patch_found_security_section :: "PATCH_INFO3 \<Rightarrow> (u32 \<times> u32) option" where
  "hci_patch_found_security_section info =
     map_option (\<lambda>n. (reg_addr n ! 0, reg_value n ! 0 + image_len n - reg_value n ! 1)) (security_node info)"

section \<open>Download\<close>

fun write_regs :: "(u32 \<times> u32) list \<Rightarrow> ('z bt_globals_scheme, bool) cmd" where
  "write_regs [] = retC True"
| "write_regs ((addr, val) # rest) =
     (if addr \<noteq> 0 \<and> addr \<noteq> 0xffffffff
      then bindC (hci_vendor_write addr val) (\<lambda>ok. if ok then write_regs rest else retC False)
      else write_regs rest)"

text \<open>The transfer of a packet: as in the second format, \<open>ret < 0\<close> is never true.\<close>

definition v3_send :: "bytes \<Rightarrow> nat \<Rightarrow> (nat \<Rightarrow> ('z bt_globals_scheme, u8) cmd) \<Rightarrow> ('z bt_globals_scheme, u8) cmd" where
  "v3_send buf rlen next =
     bindC (if buf ! 4 = 0x80 then last_frag_flow else retC True) (\<lambda>ok.
       if \<not> ok then retC 255
       else
         bindC (start_xfer_wait (take (unat (buf ! 3) + 4) buf) 0 rlen) (\<lambda>r.
           let ret = (if r = None then 255 else 0);
               resp = put_at (replicate 8 0) 0 (case r of None \<Rightarrow> [] | Some bs \<Rightarrow> bs);
               rlen = (case r of None \<Rightarrow> rlen | Some bs \<Rightarrow> length bs)
           in if resp ! 4 \<noteq> 0x20 \<or> resp ! 5 \<noteq> 0xfc \<or> resp ! 6 \<noteq> 0 then retC ret
              else if resp ! 7 = 0x80 then retC ret
              else next rlen))"

definition v3_turn :: "nat \<Rightarrow> (nat \<Rightarrow> ('z bt3_globals_scheme, u8) cmd) \<Rightarrow> ('z bt3_globals_scheme, u8) cmd" where
  "v3_turn rlen next =
     bindC (getsC (\<lambda>s. hci_patch_get_cmd_buf (fw_buf (rtb_cfg s)) (config_buf (rtb_cfg s)) (patch3 s) frag_header)) (\<lambda>r.
       case r of
         None \<Rightarrow> faultC
       | Some (ret, arr, new_section, info, buf) \<Rightarrow>
           bindC (modifyC (\<lambda>s. s\<lparr>patch3 := info\<rparr>)) (\<lambda>_.
             if ret \<noteq> HCI_SUCCESS then retC (hci_code ret)
             else
               bindC (if new_section then write_regs arr else retC True) (\<lambda>ok.
                 if \<not> ok then retC (hci_code HCI_FAIL)
                 else
                   bindC (case (if buf ! 3 = 1 \<and> bit (buf ! 4) 7 then hci_patch_found_security_section info else None) of
                            None \<Rightarrow> retC True
                          | Some (addr, val) \<Rightarrow> hci_vendor_write addr val) (\<lambda>ok.
                     if \<not> ok then retC (hci_code HCI_FAIL) else v3_send buf rlen next))))"

fun v3_loop :: "nat \<Rightarrow> write_ans list \<Rightarrow> ('z bt3_globals_scheme, u8) cmd" where
  "v3_loop rlen [] = v3_turn rlen (\<lambda>_. Blocked)"
| "v3_loop rlen (_ # q) = v3_turn rlen (\<lambda>rlen. v3_loop rlen q)"

definition hci_download_patch_v3 :: "('z bt3_globals_scheme, u8) cmd" where
  "hci_download_patch_v3 =
     bindC (modifyC (\<lambda>s. s\<lparr>chipid3 := eversion (rtb_cfg s) + 1\<rparr>)) (\<lambda>_.
     bindC (hci_vendor_read HCI_BT_REG_KEY_ID) (\<lambda>r.
       if r \<noteq> Some 0 then retC (hci_code HCI_FAIL)
       else
         bindC (modifyC (\<lambda>s. s\<lparr>patch_key_id3 := 0\<rparr>)) (\<lambda>_.
         bindC (getsC (\<lambda>s. hci_patch_download_init_parse (fw_buf (rtb_cfg s)) (config_buf (rtb_cfg s)) (chipid3 s) (patch_key_id3 s))) (\<lambda>r.
           case r of
             None \<Rightarrow> faultC
           | Some (ret, info) \<Rightarrow>
               bindC (modifyC (\<lambda>s. s\<lparr>patch3 := info\<rparr>)) (\<lambda>_.
                 if ret \<noteq> HCI_SUCCESS then retC (hci_code ret)
                 else bindC (getsC q_wr) (\<lambda>q. v3_loop 8 q))))))"

section \<open>The queue of sections\<close>

definition is_security :: "SECTION_NODE \<Rightarrow> bool" where
  "is_security n \<longleftrightarrow> reg_value n ! 1 \<noteq> 0 \<and> reg_addr n ! 1 \<noteq> 0 \<and> reg_addr n ! 1 \<noteq> 0xffffffff"

text \<open>The security section is one of the highest priority among those with a security header.\<close>

definition security_ok :: "SECTION_NODE option \<Rightarrow> SECTION_NODE list \<Rightarrow> bool" where
  "security_ok sec nodes \<longleftrightarrow> (case sec of
     None \<Rightarrow> \<not> (\<exists>n \<in> set nodes. is_security n)
   | Some d \<Rightarrow> d \<in> set nodes \<and> is_security d \<and> (\<forall>n \<in> set nodes. is_security n \<longrightarrow> sn_priority n \<le> sn_priority d))"

definition queue_ok :: "u32 \<Rightarrow> PATCH_INFO3 \<Rightarrow> bool" where
  "queue_ok fw_len info \<longleftrightarrow> sorted (map sn_priority (p3_head_node info)) \<and>
     length (p3_head_node info) = unat (section_cnt info) \<and> section_cnt info \<le> 64 \<and>
     fw_len = sum_list (map image_len (p3_head_node info)) \<and> security_ok (security_node info) (p3_head_node info)"

lemma insert_section_queue_insort: "insert_section_queue p ns = insort_key sn_priority p ns"
  by (induction ns) auto

lemma select_security_ok:
  "security_ok sec nodes \<Longrightarrow> security_ok (select_security_section_node sec n) (insert_section_queue n nodes)"
  by (auto simp: security_ok_def select_security_section_node_def insert_section_queue_insort set_insort_key is_security_def
    split: option.splits)

lemma sum_insort: "sum_list (map f (insort_key k x xs)) = f x + sum_list (map f xs)" for f :: "'a \<Rightarrow> u32"
  by (induction xs) (simp_all add: ac_simps)

lemma insert_queue_ok:
  assumes "queue_ok fw_len info" "\<not> section_cnt info \<ge> 64"
  shows "queue_ok (fw_len + image_len n) (info\<lparr>section_cnt := section_cnt info + 1,
    p3_head_node := insert_section_queue n (p3_head_node info), security_node := select_security_section_node (security_node info) n\<rparr>)"
proof -
  have "unat (section_cnt info + 1) = unat (section_cnt info) + 1 \<and> section_cnt info + 1 \<le> 64"
    using assms(2) by (auto simp: word_le_nat_alt unat_word_ariths word_less_nat_alt not_le)
  moreover have "security_ok (select_security_section_node (security_node info) n) (insert_section_queue n (p3_head_node info))"
    using assms(1) by (intro select_security_ok) (simp add: queue_ok_def)
  ultimately show ?thesis using assms(1)
    by (simp add: queue_ok_def insert_section_queue_insort sorted_insort_key sum_insort)
qed

lemma image_queue_ok:
  assumes "parse_patch_image buf chip key pos info = Some (len, info')" "queue_ok fw_len info"
  shows "queue_ok (fw_len + len) info'"
proof -
  obtain i where i: "slice buf pos 5 = Some i" using assms(1) by (cases "slice buf pos 5") (simp_all add: parse_patch_image_def)
  let ?skip = "le_word (take 2 i) \<noteq> HCI_PATCH_PROJECT_ID \<or> i ! 2 \<noteq> chip \<or> i ! 3 \<noteq> key \<or> i ! 4 \<noteq> 0"
  show ?thesis
  proof (cases "?skip \<or> section_cnt info \<ge> 64")
    case True
    then have "parse_patch_image buf chip key pos info = Some (0, info)" using i by (auto simp: parse_patch_image_def)
    then show ?thesis using assms by simp
  next
    case False
    obtain h where h: "slice buf pos (HCI_PATCH_IMAGE_INFO_LEN + 8) = Some h"
      using assms(1) i False by (cases "slice buf pos (HCI_PATCH_IMAGE_INFO_LEN + 8)") (simp_all add: parse_patch_image_def)
    show ?thesis
    proof (cases "(le_word (drop HCI_PATCH_IMAGE_INFO_LEN h) :: u64) = 0")
      case True
      then show ?thesis using assms i h False by (auto simp: parse_patch_image_def)
    next
      case nz: False
      define l where "l = (ucast (le_word (take 8 (drop 1024 h)) :: u64) :: u32)"
      define n where "n = image_node h pos (if section_cnt info + 1 = 1 then l + ucast (p3_config_len info) else l)"
      have "parse_patch_image buf chip key pos info = Some (image_len n, info\<lparr>section_cnt := section_cnt info + 1,
          p3_head_node := insert_section_queue n (p3_head_node info), security_node := select_security_section_node (security_node info) n\<rparr>)"
        using False nz unfolding parse_patch_image_def i h option.case Let_def l_def [symmetric] n_def [symmetric] by simp
      then show ?thesis using assms insert_queue_ok [of fw_len info n] False by auto
    qed
  qed
qed

lemma images_queue_ok:
  "walk_images buf chip key n p fw_len info = Some (fw_len', info') \<Longrightarrow> queue_ok fw_len info \<Longrightarrow> queue_ok fw_len' info'"
proof (induction n arbitrary: p fw_len info)
  case (Suc n)
  then show ?case
    using image_queue_ok by (auto split: option.splits if_splits prod.splits)
qed simp

text \<open>
  C28: Parsing a patch file of the third format gives a queue that is sorted by priority, with at most 64
  sections and their number in \<open>section_cnt\<close>; the firmware length is the sum of their images; and
  the security section is one of highest priority among the sections with a security header,
  or none exactly when there is no such section.
\<close>

theorem get_patch_info3_queue:
  assumes "get_patch_info3 fw cfg chip key patch3_zero = Some (HCI_SUCCESS, info)"
  shows "queue_ok (p3_fw_len info) info"
proof -
  obtain fw_len info' where p: "parse_sections fw chip key 20 (patch3_zero\<lparr>p3_config_len := of_nat (length cfg)\<rparr>) = Some (fw_len, info')"
      "info = info'\<lparr>p3_fw_len := fw_len\<rparr>"
    using assms by (auto simp: get_patch_info3_def split: option.splits if_splits)
  have "queue_ok 0 (patch3_zero\<lparr>p3_config_len := of_nat (length cfg)\<rparr>)"
    by (simp add: queue_ok_def patch3_zero_def security_ok_def)
  then have "queue_ok fw_len info'" using p(1) by (auto simp: parse_sections_def split: option.splits dest: images_queue_ok)
  then show ?thesis using p(2) by (simp add: queue_ok_def)
qed

text \<open>A file with one section for chip 1, of priority 9, whose image has 3 bytes and a security header.\<close>

definition demo3_fw :: bytes where
  "demo3_fw = replicate 20 0 @ [1, 0, 0, 0] @ [1, 0, 0, 0, 11, 4, 0, 0, 0, 0, 0, 0] @ [0x28, 0, 1, 0, 0] @ replicate 986 0 @
     [0, 1, 0, 0, 0, 0, 0, 0, 0, 2, 0, 0, 0, 0, 0, 0, 0, 3, 0, 0, 0, 0, 0, 0, 2, 0, 0, 0, 0, 0, 0, 0] @ [9] @ [3, 0, 0, 0, 0, 0, 0, 0] @ [5, 6, 7]"

definition demo3_info :: PATCH_INFO3 where
  "demo3_info = (let n = \<lparr>new_section_check = False, sn_priority = 9, sn_cur_index = 1, sn_end_index = 1, sn_last_pkt = 9,
       reg_addr = [0x100, 0x300], reg_value = [0x200, 2], image_len = 3, image_payload = 1068, sent_image_len = 0\<rparr>
     in \<lparr>p3_fw_len = 3, p3_sent_fw_len = 0, section_cnt = 1, p3_config_len = 6, p3_sent_config_len = 0, p3_head_node = [n], security_node = Some n\<rparr>)"

lemma demo3_parse: "get_patch_info3 demo3_fw demo_cfg 1 0 patch3_zero = Some (HCI_SUCCESS, demo3_info)"
  by (simp add: get_patch_info3_def parse_sections_def demo3_fw_def demo_cfg_def slice_def patch3_zero_def parse_patch_image_def
    OPCODE_PATCH_IMAGE_def HCI_PATCH_PROJECT_ID_def HCI_PATCH_IMAGE_INFO_LEN_def image_node_def select_security_section_node_def
    demo3_info_def Let_def nth_append)

theorem get_patch_info3_queue_witness:
  "get_patch_info3 demo3_fw demo_cfg 1 0 patch3_zero = Some (HCI_SUCCESS, demo3_info) \<and> queue_ok (p3_fw_len demo3_info) demo3_info"
  using get_patch_info3_queue [OF demo3_parse] demo3_parse by simp

end
