(* ===== verification/BtRtk.thy ===== *)
theory BtRtk
  imports BtPatch3
begin

text \<open>
  Bringing up the controller, \<^verbatim>\<open>hciattach_rtk.c\<close> and the serial line of \<^verbatim>\<open>hciattach.c\<close>: the efuse and the
  antenna, power, versions, configuration and firmware, the speed of the line, the
  download and the reset behind it.
\<close>

unbundle bit_operations_syntax

section \<open>State\<close>

text \<open>
  \<open>q_pread\<close>: the answers of \<open>pread\<close> on the efuse. \<open>bt_power\<close>: the settings given to the power switch so
  far. \<open>q_sys\<close>: the results of the calls on sockets, timers and the line discipline.
\<close>

record rtk_globals = bt3_globals +
  q_pread :: "read_ans list"
  bt_ant_switch :: u8
  mp_ant_switch :: int
  bt_power :: "(bool \<times> u8) list"
  q_sys :: "int list"

definition bt_pread :: "nat \<Rightarrow> ('z rtk_globals_scheme, read_ans) cmd" where
  "bt_pread n s = (case q_pread s of
     [] \<Rightarrow> Blocked s
   | RdErr e # as \<Rightarrow> Ret (RdErr e) (s\<lparr>q_pread := as\<rparr>)
   | RdData bs # as \<Rightarrow> Ret (RdData (take n bs)) (s\<lparr>q_pread := as\<rparr>))"

definition bt_sys :: "('z rtk_globals_scheme, int) cmd" where
  "bt_sys s = (case q_sys s of [] \<Rightarrow> Blocked s | r # rs \<Rightarrow> Ret r (s\<lparr>q_sys := rs\<rparr>))"

section \<open>Speeds\<close>

text \<open>A speed code of the terminal is the speed itself.\<close>

definition uart_speed :: "int \<Rightarrow> int" where
  "uart_speed s = (if s \<in> {9600, 19200, 38400, 57600, 115200, 230400, 460800, 500000, 576000, 921600, 1000000, 1152000,
     1500000, 2000000, 2500000, 3000000, 3500000, 4000000} then s else 57600)"

definition set_speed :: "int \<Rightarrow> ('z bt_globals_scheme, bool) cmd" where
  "set_speed speed = bindC (getsC host_flow) (\<lambda>flow. bt_tcsetattr flow (uart_speed speed))"

definition baudrates :: "(u32 \<times> int) list" where
  "baudrates = [(0x0000701d, 115200), (0x0252C00A, 230400), (0x03F75004, 921600), (0x05F75004, 921600), (0x00005004, 1000000),
     (0x04928002, 1500000), (0x00005002, 2000000), (0x0000B001, 2500000), (0x04928001, 3000000), (0x052A6001, 3500000),
     (0x00005001, 4000000)]"

definition vendor_speed_to_std :: "u32 \<Rightarrow> int" where
  "vendor_speed_to_std v = (case find (\<lambda>(r, u). r = v) baudrates of None \<Rightarrow> 115200 | Some (r, u) \<Rightarrow> u)"

definition std_speed_to_vendor :: "int \<Rightarrow> u32" where
  "std_speed_to_vendor sp = (case find (\<lambda>(r, u). u = sp) baudrates of None \<Rightarrow> 0x701D | Some (r, u) \<Rightarrow> r)"

section \<open>Download\<close>

definition patch_sig_v1 :: bytes where "patch_sig_v1 = [0x52, 0x65, 0x61, 0x6C, 0x74, 0x65, 0x63, 0x68]"
definition patch_sig_v2 :: bytes where "patch_sig_v2 = [0x52, 0x54, 0x42, 0x54, 0x43, 0x6F, 0x72, 0x65]"
definition patch_sig_v3 :: bytes where "patch_sig_v3 = [0x42, 0x54, 0x4E, 0x49, 0x43, 0x30, 0x30, 0x33]"
definition ext_section_sig :: bytes where "ext_section_sig = [0x51, 0x04, 0xFD, 0x77]"

text \<open>
  \<open>None\<close>: the file is shorter than a signature and is read past its end, or no signature matches, and
  the variable that is returned was never set.
\<close>

definition hci_patch_get_patch_version :: "bytes \<Rightarrow> nat option" where
  "hci_patch_get_patch_version fw =
     (if length fw < 8 then None
      else
        let tail = (drop (length fw - 4) fw = ext_section_sig)
        in if take 8 fw = patch_sig_v1 \<and> tail then Some 1
           else if take 8 fw = patch_sig_v2 \<and> tail then Some 2
           else if take 8 fw = patch_sig_v3 then Some 3
           else None)"

definition rtb_download_fwc :: "('z bt3_globals_scheme, u8) cmd" where
  "rtb_download_fwc =
     bindC (getsC (\<lambda>s. hci_patch_get_patch_version (fw_buf (rtb_cfg s)))) (\<lambda>v. case v of
       None \<Rightarrow> faultC
     | Some n \<Rightarrow>
         if n = 2 then hci_download_patch_v2
         else if n = 3 then hci_download_patch_v3
         else retC (hci_code HCI_FAIL))"

section \<open>Configuration of the controller\<close>

definition over :: "bytes \<Rightarrow> read_ans \<Rightarrow> bytes" where
  "over buf r = (case r of RdErr e \<Rightarrow> buf | RdData bs \<Rightarrow> bs @ drop (length bs) buf)"

text \<open>The logical map and, if both devices are there, the physical one.\<close>

definition efuse_read :: "('z rtk_globals_scheme, bytes \<times> bytes option) cmd" where
  "efuse_read =
     bindC bt_devopen (\<lambda>phy. bindC bt_devopen (\<lambda>lgc.
       if \<not> phy \<or> \<not> lgc then retC (replicate 1024 0xff, None)
       else
         bindC (bt_pread 1024) (\<lambda>r. bindC (bt_pread 112) (\<lambda>r2.
           retC (over (replicate 1024 0xff) r, Some (over (replicate 112 0) r2))))))"

definition antenna_select :: "u8 \<Rightarrow> ('z rtk_globals_scheme, unit) cmd" where
  "antenna_select bt_ant_val =
     modifyC (\<lambda>s. s\<lparr>bt_ant_switch :=
       (if mp_mode s then word_of_int (mp_ant_switch s)
        else if bt_ant_val \<noteq> 0xff then (if bit bt_ant_val 5 then 0 else 1)
        else bt_ant_switch s)\<rparr>)"

definition power_switch :: "bool \<Rightarrow> ('z rtk_globals_scheme, bool) cmd" where
  "power_switch on =
     bindC bt_devopen (\<lambda>ok. if \<not> ok then retC False else
       bindC (modifyC (\<lambda>s. s\<lparr>bt_power := bt_power s @ [(on, bt_ant_switch s)]\<rparr>)) (\<lambda>_.
       bindC bt_devioctl (\<lambda>(result, _). retC (\<not> result < 0))))"

text \<open>The chip of the version that was read, if it is known.\<close>

definition chip_of :: "u16 \<Rightarrow> u8 option" where
  "chip_of subver = (if subver = 0x8730 then Some CHIP_8730 else if subver = 0x8735 then Some CHIP_8735 else None)"

text \<open>The names of the files in the entry of the table, by mode and antenna.\<close>

definition patch_files :: "bool \<Rightarrow> u8 \<Rightarrow> u16 \<Rightarrow> patch_info \<Rightarrow> patch_info" where
  "patch_files mp ant subver ent =
     (let ent = (if mp then ent\<lparr>patch_file := ''rtl8730_mp_fw''\<rparr> else ent)
      in if ant = 1
         then (if subver = 0x8730 then ent\<lparr>config_file := ''rtl8730_config_s1''\<rparr>
               else if subver = 0x8735 then ent\<lparr>config_file := ''rtl8735_config_s1''\<rparr> else ent)
         else if ant = 0
         then (if subver = 0x8730 then ent\<lparr>config_file := ''rtl8730_config_s0''\<rparr>
               else if subver = 0x8735 then ent\<lparr>config_file := ''rtl8735_config_s0''\<rparr> else ent)
         else ent)"

text \<open>The files are read; without a firmware the configuration is dropped.\<close>

definition load_files :: "patch_info \<Rightarrow> bytes \<Rightarrow> ('z btc_globals_scheme, bool) cmd" where
  "load_files ent lgc =
     bindC (rtb_read_config (config_file ent) (Some (drop 0x1B0 lgc))) (\<lambda>c.
     bindC (modifyC (\<lambda>s. s\<lparr>rtb_cfg := (rtb_cfg s)\<lparr>config_buf := (case c of None \<Rightarrow> [] | Some b \<Rightarrow> b)\<rparr>\<rparr>)) (\<lambda>_.
     bindC (rtb_read_firmware ent) (\<lambda>f. case f of
       None \<Rightarrow> bindC (modifyC (\<lambda>s. s\<lparr>rtb_cfg := (rtb_cfg s)\<lparr>config_buf := []\<rparr>\<rparr>)) (\<lambda>_. retC False)
     | Some fw \<Rightarrow> bindC (modifyC (\<lambda>s. s\<lparr>rtb_cfg := (rtb_cfg s)\<lparr>fw_buf := fw\<rparr>\<rparr>)) (\<lambda>_. retC True))))"

text \<open>From \<open>change_baud\<close> to \<open>start_download\<close>: the local \<open>final_speed\<close>, or \<open>None\<close> if the speed cannot be set.\<close>

definition change_baud :: "int \<Rightarrow> ('z bt_globals_scheme, int option) cmd" where
  "change_baud speed =
     bindC (getsC (\<lambda>s. vendor_baud (rtb_cfg s))) (\<lambda>baud.
       if baud = 0
       then bindC (modifyC (\<lambda>s. s\<lparr>rtb_cfg := (rtb_cfg s)\<lparr>vendor_baud := std_speed_to_vendor speed\<rparr>\<rparr>)) (\<lambda>_. retC (Some 0))
       else
         let std = vendor_speed_to_std baud; final = (if std \<noteq> 0 then std else speed)
         in bindC (modifyC (\<lambda>s. s\<lparr>rtb_cfg := (rtb_cfg s)\<lparr>final_speed := std\<rparr>\<rparr>)) (\<lambda>_.
            if final = 115200 then retC (Some final)
            else
              bindC (h4_vendor_change_speed baud) (\<lambda>_.
              bindC (set_speed final) (\<lambda>ok. retC (if ok then Some final else None)))))"

text \<open>In the test mode the line goes back to the default speed.\<close>

definition mp_speed :: "int \<Rightarrow> ('z btc_globals_scheme, unit) cmd" where
  "mp_speed final =
     bindC (getsC mp_mode) (\<lambda>mp.
       if mp \<and> final \<noteq> 115200
       then
         bindC (modifyC (\<lambda>s. s\<lparr>rtb_cfg := (rtb_cfg s)\<lparr>final_speed := 115200, vendor_baud := 0x0000701d\<rparr>\<rparr>)) (\<lambda>_.
         bindC (h4_vendor_change_speed 0x0000701d) (\<lambda>_.
         bindC (set_speed 115200) (\<lambda>_. retC ())))
       else retC ())"

text \<open>The message to the WLAN driver: socket, flags of the interface (which has bit 0 if it is up), request.\<close>

definition mp_notify :: "('z rtk_globals_scheme, bool) cmd" where
  "mp_notify =
     bindC (getsC mp_mode) (\<lambda>mp.
       if \<not> mp then retC True
       else
         bindC bt_sys (\<lambda>sock. if sock < 0 then retC False else
         bindC bt_sys (\<lambda>res. if res \<noteq> 0 then retC False else
         bindC bt_sys (\<lambda>flags. if \<not> bit flags 0 then retC False else
         bindC bt_sys (\<lambda>res. retC (\<not> res < 0))))))"

text \<open>From \<open>start_download\<close> on. The result of the download is a byte, and only 0 leads to a reset.\<close>

definition start_download :: "bytes option \<Rightarrow> int \<Rightarrow> ('z rtk_globals_scheme, int) cmd" where
  "start_download phy final =
     bindC rtb_download_fwc (\<lambda>ret.
     bindC (case phy of None \<Rightarrow> retC True | Some efuse \<Rightarrow> h4_write_iqk efuse) (\<lambda>_.
     bindC (if ret = 0 then h4_hci_reset else retC True) (\<lambda>ok.
       if \<not> ok then retC (- 1)
       else bindC (mp_speed final) (\<lambda>_. bindC mp_notify (\<lambda>ok. retC (if ok then 0 else - 1))))))"

text \<open>The results of the two version commands are not looked at.\<close>

definition rtb_config :: "int \<Rightarrow> int \<Rightarrow> ('z rtk_globals_scheme, int) cmd" where
  "rtb_config prot speed =
     bindC (modifyC (\<lambda>s. s\<lparr>rtb_cfg := (rtb_cfg s)\<lparr>proto := prot\<rparr>\<rparr>)) (\<lambda>_.
     bindC efuse_read (\<lambda>(lgc, phy).
     bindC (antenna_select (lgc ! 0x133)) (\<lambda>_.
     bindC (power_switch True) (\<lambda>ok. if \<not> ok then retC (- 1) else
     bindC h4_read_local_ver (\<lambda>_.
     bindC h4_vendor_read_rom_ver (\<lambda>_.
     bindC (getsC (\<lambda>s. chip_of (lmp_subver (rtb_cfg s)))) (\<lambda>c. case c of
       None \<Rightarrow> retC (- 1)
     | Some chip \<Rightarrow>
         bindC (modifyC (\<lambda>s. s\<lparr>rtb_cfg := (rtb_cfg s)\<lparr>chip_type := chip\<rparr>\<rparr>)) (\<lambda>_.
         bindC (getsC (\<lambda>s. map_option (patch_files (mp_mode s) (bt_ant_switch s) (lmp_subver (rtb_cfg s))) (get_patch_entry (rtb_cfg s)))) (\<lambda>e.
           case e of
             None \<Rightarrow> faultC
           | Some ent \<Rightarrow>
               bindC (load_files ent lgc) (\<lambda>ok. if \<not> ok then retC (- 1) else
               bindC (change_baud speed) (\<lambda>f. case f of
                 None \<Rightarrow> retC (- 1)
               | Some final \<Rightarrow> start_download phy final)))))))))))"

text \<open>
  \<open>rtb_init\<close>: the calls are those of the event queue and of the timer, what undoes them at the end is not looked at. A timer
  descriptor 0 is not registered.
\<close>

definition rtb_init :: "int \<Rightarrow> int \<Rightarrow> ('z rtk_globals_scheme, int) cmd" where
  "rtb_init prot speed =
     bindC (modifyC (\<lambda>s. s\<lparr>rtb_cfg := rtb_zero\<rparr>)) (\<lambda>_.
     bindC bt_sys (\<lambda>epollfd. if epollfd = - 1 then exitC 1 else
     bindC bt_sys (\<lambda>res. if res = - 1 then exitC 1 else
     bindC bt_sys (\<lambda>timerfd. if timerfd = - 1 then retC (- 1) else
     bindC (if timerfd > 0 then bt_sys else retC 0) (\<lambda>res. if res = - 1 then exitC 1 else
       rtb_config prot speed)))))"

definition rtb_deinit :: "('z rtk_globals_scheme, int) cmd" where
  "rtb_deinit = bindC (power_switch False) (\<lambda>ok. retC (if ok then 0 else - 1))"

definition rtb_post :: "('z rtk_globals_scheme, int) cmd" where
  "rtb_post = retC 0"

section \<open>Speeds and results\<close>

text \<open>
  The two conversions of speeds agree: the code chosen for a speed of the table means that speed,
  although one speed has two codes, and for any other speed it is the default of 115200.
\<close>

theorem speed_codes:
  "vendor_speed_to_std (std_speed_to_vendor sp) = (if sp \<in> snd ` set baudrates then sp else 115200)"
  by (simp add: vendor_speed_to_std_def std_speed_to_vendor_def baudrates_def)












end
