(* ===== verification/BtAttach.thy ===== *)
theory BtAttach
  imports BtRtk
begin

text \<open>
  The program around the bring-up, \<^verbatim>\<open>hciattach.c\<close>, from the point where the command line is
  read: the serial port and its line discipline, the wait for a hang-up or a signal, and the
  recovery. The state adds the port, the log of the line disciplines set, and the rest of the
  environment as answer queues.
\<close>

section \<open>State\<close>

text \<open>\<open>u_rtk\<close>: the three function pointers are those of Realtek, otherwise they are null.\<close>

record uart_t =
  u_type :: string
  m_id :: int
  p_id :: int
  u_proto :: int
  init_speed :: int
  u_speed :: int
  flow_ctl :: bool
  u_rtk :: bool

text \<open>
  An answer of \<open>ppoll\<close>: interrupted by a signal; failed; ready, with a hang-up or an error marked or
  not; nothing. \<open>q_sig\<close>: for each look at \<open>__io_canceled\<close>, whether a signal that sets it was handled
  since the look before, be it in \<open>ppoll\<close>, just before it or anywhere else.
\<close>

datatype ppoll_ans = PpIntr | PpErr | PpReady bool | PpNone

record att_globals = rtk_globals +
  q_open :: "bool list"
  q_tcget :: "bool list"
  q_ioctl :: "int list"
  q_rfkill :: "int list"
  q_fork :: "bool list"
  q_ppoll :: "ppoll_ans list"
  ldisc :: "int list"
  rfkill :: "string list"
  q_sig :: "bool list"

definition att_open :: "('z att_globals_scheme, bool) cmd" where
  "att_open s = (case q_open s of [] \<Rightarrow> Blocked s | a # as \<Rightarrow> Ret a (s\<lparr>q_open := as\<rparr>))"

definition att_tcgetattr :: "('z att_globals_scheme, bool) cmd" where
  "att_tcgetattr s = (case q_tcget s of [] \<Rightarrow> Blocked s | a # as \<Rightarrow> Ret a (s\<lparr>q_tcget := as\<rparr>))"

definition att_ioctl :: "('z att_globals_scheme, int) cmd" where
  "att_ioctl s = (case q_ioctl s of [] \<Rightarrow> Blocked s | a # as \<Rightarrow> Ret a (s\<lparr>q_ioctl := as\<rparr>))"

text \<open>\<open>TIOCSETD\<close>: a discipline that is set is logged.\<close>

definition set_ldisc :: "int \<Rightarrow> ('z att_globals_scheme, int) cmd" where
  "set_ldisc d = bindC att_ioctl (\<lambda>r.
     if r < 0 then retC r else bindC (modifyC (\<lambda>s. s\<lparr>ldisc := ldisc s @ [d]\<rparr>)) (\<lambda>_. retC r))"

definition att_rfkill :: "string \<Rightarrow> ('z att_globals_scheme, int) cmd" where
  "att_rfkill text s = (case q_rfkill s of
     [] \<Rightarrow> Blocked s | n # ns \<Rightarrow> Ret n (s\<lparr>q_rfkill := ns, rfkill := rfkill s @ [take (nat n) text]\<rparr>))"

definition att_fork :: "('z att_globals_scheme, bool) cmd" where
  "att_fork s = (case q_fork s of [] \<Rightarrow> Blocked s | a # as \<Rightarrow> Ret a (s\<lparr>q_fork := as\<rparr>))"

definition att_ppoll :: "('z att_globals_scheme, ppoll_ans) cmd" where
  "att_ppoll s = (case q_ppoll s of [] \<Rightarrow> Blocked s | a # as \<Rightarrow> Ret a (s\<lparr>q_ppoll := as\<rparr>))"

definition att_signal :: "('z att_globals_scheme, bool) cmd" where
  "att_signal s = (case q_sig s of [] \<Rightarrow> Blocked s | a # as \<Rightarrow> Ret a (s\<lparr>q_sig := as\<rparr>))"

lemmas att_defs = att_signal_def att_open_def att_tcgetattr_def att_ioctl_def att_rfkill_def att_fork_def att_ppoll_def

section \<open>Devices\<close>

definition uart :: "uart_t list" where
  "uart = [\<lparr>u_type = ''any'', m_id = 0, p_id = 0, u_proto = HCI_UART_H4, init_speed = 115200, u_speed = 115200, flow_ctl = True, u_rtk = False\<rparr>,
     \<lparr>u_type = ''rtk_h4'', m_id = 0, p_id = 0, u_proto = HCI_UART_H4, init_speed = 115200, u_speed = 115200, flow_ctl = False, u_rtk = True\<rparr>]"

definition get_by_id :: "int \<Rightarrow> int \<Rightarrow> uart_t option" where
  "get_by_id m p = find (\<lambda>u. m_id u = m \<and> p_id u = p) uart"

definition get_by_type :: "string \<Rightarrow> uart_t option" where
  "get_by_type type = find (\<lambda>u. u_type u = type) uart"

definition realtek_init :: "uart_t \<Rightarrow> ('z rtk_globals_scheme, int) cmd" where
  "realtek_init u = rtb_init (u_proto u) (u_speed u)"

definition realtek_deinit :: "('z rtk_globals_scheme, int) cmd" where
  "realtek_deinit = rtb_deinit"

definition realtek_post :: "('z rtk_globals_scheme, int) cmd" where
  "realtek_post = rtb_post"

section \<open>The serial port\<close>

definition N_HCI :: int where "N_HCI = 15"
definition N_TTY :: int where "N_TTY = 0"

text \<open>The line discipline and the protocol, unless in the test mode.\<close>

definition attach_ldisc :: "uart_t \<Rightarrow> bool \<Rightarrow> ('z att_globals_scheme, bool) cmd" where
  "attach_ldisc u raw =
     bindC (set_ldisc N_HCI) (\<lambda>r. if r < 0 then retC False else
     bindC (if raw then att_ioctl else retC 0) (\<lambda>r. if r < 0 then retC False else
     bindC att_ioctl (\<lambda>r. if r < 0 then retC False else
     bindC (if u_rtk u then realtek_post else retC 0) (\<lambda>r. retC (\<not> r < 0)))))"

text \<open>\<open>True\<close>: the descriptor of the port; \<open>False\<close>: -1.\<close>

definition init_uart :: "uart_t \<Rightarrow> bool \<Rightarrow> bool \<Rightarrow> ('z att_globals_scheme, bool) cmd" where
  "init_uart u raw mp =
     bindC att_open (\<lambda>ok. if \<not> ok then retC False else
     bindC att_tcgetattr (\<lambda>ok. if \<not> ok then retC False else
     bindC (getsC host_speed) (\<lambda>sp.
     bindC (bt_tcsetattr (flow_ctl u) sp) (\<lambda>ok. if \<not> ok then retC False else
     bindC (set_speed (init_speed u)) (\<lambda>ok. if \<not> ok then retC False else
     bindC (if u_rtk u then realtek_init u else retC 0) (\<lambda>r. if r < 0 then retC False else
       if mp then retC True else attach_ldisc u raw))))))"

text \<open>Both writes are of two bytes, the digit and its null byte.\<close>

definition reset_bluetooth :: "('z att_globals_scheme, bool) cmd" where
  "reset_bluetooth =
     bindC att_open (\<lambda>ok. if \<not> ok then retC False else
     bindC (att_rfkill [CHR ''0'', CHR 0x00]) (\<lambda>r. if r \<noteq> 2 then retC False else
     bindC (att_rfkill [CHR ''1'', CHR 0x00]) (\<lambda>r. retC (r = 2))))"

section \<open>The program\<close>

text \<open>The options of the command line that matter from \<open>start\<close> on.\<close>

record options =
  o_detach :: bool
  o_raw :: bool
  o_speed :: int
  o_mp :: bool

text \<open>
  What a turn takes over from the one before: \<open>__io_canceled\<close>, which is never reset, and whether
  \<open>p.revents\<close> has an error or a hang-up, \<open>None\<close> as long as it is not initialised.
\<close>

type_synonym att_vars = "bool \<times> bool option"

text \<open>
  The wait. It is skipped when \<open>__io_canceled\<close> is set, and then \<open>p.revents\<close> is what it was; otherwise
  every turn clears it first.
\<close>

fun wait_hangup :: "att_vars \<Rightarrow> ppoll_ans list \<Rightarrow> ('z att_globals_scheme, att_vars) cmd" where
  "wait_hangup (canceled, revents) [] =
     bindC att_signal (\<lambda>sig. if canceled \<or> sig then retC (True, revents) else bindC att_ppoll (\<lambda>_. Blocked))"
| "wait_hangup (canceled, revents) (_ # q) =
     bindC att_signal (\<lambda>sig. if canceled \<or> sig then retC (True, revents) else
     bindC att_ppoll (\<lambda>r. case r of
       PpIntr \<Rightarrow> wait_hangup (False, Some False) q
     | PpErr \<Rightarrow> retC (False, Some False)
     | PpReady hup \<Rightarrow> retC (False, Some hup)
     | PpNone \<Rightarrow> wait_hangup (False, Some False) q))"

text \<open>
  From \<open>start\<close> on; \<open>next\<close> is the jump back to it. A process that detaches is the parent, which returns,
  or the child. The end of the program: \<open>p.revents\<close> is looked at, the discipline of the terminal is
  set again, then recovery or power off.
\<close>

definition attach_end ::
  "uart_t \<Rightarrow> att_vars \<Rightarrow> (att_vars \<Rightarrow> ('z att_globals_scheme, int) cmd) \<Rightarrow> ('z att_globals_scheme, int) cmd" where
  "attach_end u v next = (case snd v of
     None \<Rightarrow> faultC
   | Some hup \<Rightarrow>
       bindC (set_ldisc N_TTY) (\<lambda>r. if r < 0 then exitC 1
         else if hup then bindC reset_bluetooth (\<lambda>_. next v)
         else bindC (if u_rtk u then realtek_deinit else retC 0) (\<lambda>_. retC 0)))"

definition attach_turn ::
  "options \<Rightarrow> uart_t \<Rightarrow> att_vars \<Rightarrow> (att_vars \<Rightarrow> ('z att_globals_scheme, int) cmd) \<Rightarrow> ('z att_globals_scheme, int) cmd" where
  "attach_turn opts u v next =
     (let u = (if o_speed opts \<noteq> 0 then u\<lparr>init_speed := o_speed opts\<rparr> else u)
      in bindC (init_uart u (o_raw opts) (o_mp opts)) (\<lambda>ok. if \<not> ok then exitC 1 else
         bindC (if o_detach opts then att_fork else retC False) (\<lambda>parent. if parent then retC 0
           else if o_mp opts then retC 0
           else bindC (getsC q_ppoll) (\<lambda>q. bindC (wait_hangup v q) (\<lambda>v. attach_end u v next)))))"

text \<open>Every turn that goes back to \<open>start\<close> has looked at \<open>__io_canceled\<close>, and taken an answer of \<open>q_sig\<close>.\<close>

fun attach_loop :: "options \<Rightarrow> uart_t \<Rightarrow> att_vars \<Rightarrow> bool list \<Rightarrow> ('z att_globals_scheme, int) cmd" where
  "attach_loop opts u v [] = attach_turn opts u v (\<lambda>_. Blocked)"
| "attach_loop opts u v (_ # q) = attach_turn opts u v (\<lambda>v. attach_loop opts u v q)"

definition attach_main :: "options \<Rightarrow> uart_t \<Rightarrow> ('z att_globals_scheme, int) cmd" where
  "attach_main opts u =
     bindC (set_bluetooth_mode (o_mp opts)) (\<lambda>_. bindC (getsC q_sig) (\<lambda>q. attach_loop opts u (False, None) q))"

section \<open>The end of a run\<close>

lemma deinit_ldisc: "steps (same ldisc) (realtek_deinit :: ('z att_globals_scheme, int) cmd)"
proof -
  have "steps (same ldisc) (bt_devopen :: ('z att_globals_scheme, bool) cmd)"
      "steps (same ldisc) (bt_devioctl :: ('z att_globals_scheme, int \<times> u8) cmd)"
    by (auto simp: steps_def bt_defs split: list.split outcome.split)
  then show ?thesis unfolding realtek_deinit_def rtb_deinit_def power_switch_def
    by (intro same.steps_rules) simp_all
qed

text \<open>What a turn in the foreground, outside of the test mode, went through if it returned.\<close>

lemma attach_turn_end:
  assumes "attach_turn opts u v k s = Ret r t" "\<not> o_detach opts" "\<not> o_mp opts"
  shows "\<exists>u' s1 s2 v'. init_uart u' (o_raw opts) False s = Ret True s1 \<and> wait_hangup v (q_ppoll s1) s1 = Ret v' s2 \<and>
    attach_end u' v' k s2 = Ret r t \<and> u' = (if o_speed opts \<noteq> 0 then u\<lparr>init_speed := o_speed opts\<rparr> else u)"
proof -
  define u' where "u' = (if o_speed opts \<noteq> 0 then u\<lparr>init_speed := o_speed opts\<rparr> else u)"
  have "\<exists>s1 s2 v'. init_uart u' (o_raw opts) False s = Ret True s1 \<and> wait_hangup v (q_ppoll s1) s1 = Ret v' s2 \<and>
      attach_end u' v' k s2 = Ret r t"
    using assms unfolding attach_turn_def Let_def u'_def [symmetric]
    by (fastforce simp: bindC_Ret_iff retC_def exitC_def getsC_def split: if_splits)
  then show ?thesis unfolding u'_def by blast
qed

text \<open>How the program ends: without a hang-up, or by recovering.\<close>

lemma attach_end_cases:
  assumes "attach_end u v k s = Ret r t"
  obtains (off) w b where "snd v = Some False" "ldisc w = ldisc s @ [N_TTY]"
      "(if u_rtk u then realtek_deinit else retC 0) w = Ret b t" "r = 0"
    | (again) w where "snd v = Some True" "k v w = Ret r t"
proof -
  from assms obtain hup where hup: "snd v = Some hup"
    by (auto simp: attach_end_def faultC_def split: option.splits)
  from assms obtain a w where a: "set_ldisc N_TTY s = Ret a w" "(if a < 0 then exitC 1
       else if hup then bindC reset_bluetooth (\<lambda>_. k v)
       else bindC (if u_rtk u then realtek_deinit else retC 0) (\<lambda>_. retC 0)) w = Ret r t"
    unfolding attach_end_def hup option.case bindC_Ret_iff by blast
  have "\<not> a < 0" using a(2) by (auto simp: exitC_def)
  with a(1) have w: "ldisc w = ldisc s @ [N_TTY]"
    by (auto simp: set_ldisc_def att_ioctl_def cmd_defs split: list.splits if_splits)
  show thesis
  proof (cases hup)
    case True
    with a(2) \<open>\<not> a < 0\<close> have "bindC reset_bluetooth (\<lambda>_. k v) w = Ret r t" by simp
    then show thesis using again hup True by (auto simp: bindC_Ret_iff)
  next
    case False
    with a(2) \<open>\<not> a < 0\<close> have "bindC (if u_rtk u then realtek_deinit else retC 0) (\<lambda>_. retC 0) w = Ret r t" by simp
    then obtain b x where "(if u_rtk u then realtek_deinit else retC 0) w = Ret b x" "retC 0 x = Ret r t"
      unfolding bindC_Ret_iff by blast
    then show thesis using off hup False w by (simp add: retC_def)
  qed
qed

lemma attach_end_ldisc:
  fixes k :: "att_vars \<Rightarrow> ('z att_globals_scheme, int) cmd"
  assumes "attach_end u v k s = Ret r t" "\<And>v s r t. k v s = Ret r t \<Longrightarrow> ldisc t \<noteq> [] \<and> last (ldisc t) = N_TTY"
  shows "ldisc t \<noteq> [] \<and> last (ldisc t) = N_TTY"
  using assms(1)
proof (cases rule: attach_end_cases)
  case (off w b)
  have "steps (same ldisc) (if u_rtk u then realtek_deinit else retC 0 :: ('z att_globals_scheme, int) cmd)"
    by (intro same.steps_rules deinit_ldisc)
  from steps_Ret [OF this off(3)] off(2) show ?thesis by simp
next
  case (again w)
  then show ?thesis using assms(2) by blast
qed

text \<open>
  C17: A run that stays in the foreground, outside of the test mode, and returns has given the port back
  to the terminal: the last line discipline that was set is that of the terminal, however many
  hang-ups and recoveries came before and whenever signals arrived. (In the test mode no
  discipline is set at all, and a parent that detaches leaves the rest to its child.)
\<close>

theorem attach_main_restores:
  assumes "attach_main opts u s = Ret r t" "\<not> o_detach opts" "\<not> o_mp opts"
  shows "ldisc t \<noteq> [] \<and> last (ldisc t) = N_TTY"
proof -
  have loop: "attach_loop opts u v q s = Ret r t \<Longrightarrow> ldisc t \<noteq> [] \<and> last (ldisc t) = N_TTY" for v q s r and t :: "'a att_globals_scheme"
  proof (induction q arbitrary: v s r t)
    case Nil
    then have "attach_turn opts u v (\<lambda>_. Blocked) s = Ret r t" by simp
    from attach_turn_end [OF this assms(2,3)] attach_end_ldisc show ?case by blast
  next
    case (Cons a q)
    then have "attach_turn opts u v (\<lambda>v. attach_loop opts u v q) s = Ret r t" by simp
    from attach_turn_end [OF this assms(2,3)] attach_end_ldisc Cons.IH show ?case by blast
  qed
  show ?thesis using assms(1) loop by (auto simp: attach_main_def bindC_Ret_iff getsC_def)
qed

definition att_demo :: "ppoll_ans list \<Rightarrow> bool list \<Rightarrow> nat \<Rightarrow> att_globals" where
  "att_demo pp sg n = \<lparr>q_poll = [], q_rd = [], q_wr = [], q_tcset = replicate (2 * n) True, q_devopen = [], q_devioctl = [], hci_out = [], hci_in = [],
     host_flow = False, host_speed = 115200, rtb_cfg = rtb_zero, chipid = 1, patch_key_id = 0,
     patch = hci_patch_downlod_init, bt_files = (\<lambda>_. FileMissing), mp_mode = False, chipid3 = 0, patch_key_id3 = 0,
     patch3 = patch3_zero, q_pread = [], bt_ant_switch = 0, mp_ant_switch = 0, bt_power = [], q_sys = [],
     q_open = replicate (2 * n) True, q_tcget = replicate n True, q_ioctl = replicate (3 * n) 0, q_rfkill = replicate (2 * n) 2, q_fork = [],
     q_ppoll = pp, ldisc = [], rfkill = [], q_sig = sg\<rparr>"

abbreviation foreground :: options where
  "foreground \<equiv> \<lparr>o_detach = False, o_raw = False, o_speed = 0, o_mp = False\<rparr>"

text \<open>A hang-up, a recovery, and an end by a signal.\<close>

theorem attach_main_restores_witness:
  "\<exists>t. attach_main foreground (uart ! 0) (att_demo [PpReady True, PpIntr, PpIntr] [False, False, False, True] 2) = Ret 0 t \<and>
     ldisc t = [N_HCI, N_TTY, N_HCI, N_TTY] \<and> last (ldisc t) = N_TTY"
proof -
  have "case attach_main foreground (uart ! 0) (att_demo [PpReady True, PpIntr, PpIntr] [False, False, False, True] 2) of
      Ret r t \<Rightarrow> r = 0 \<and> ldisc t = [N_HCI, N_TTY, N_HCI, N_TTY] | _ \<Rightarrow> False"
    by code_simp
  then obtain t where t: "attach_main foreground (uart ! 0) (att_demo [PpReady True, PpIntr, PpIntr] [False, False, False, True] 2) = Ret 0 t"
      "ldisc t = [N_HCI, N_TTY, N_HCI, N_TTY]" by (auto split: outcome.splits)
  with attach_main_restores [OF t(1)] show ?thesis by auto
qed

text \<open>With both the signal and a hang-up noted, every turn skips the wait and recovers again.\<close>

lemma wait_canceled:
  assumes "wait_hangup (c, revents) q s = Ret v t" "c \<or> hd (q_sig s)"
  shows "v = (True, revents)"
  using assms by (cases q; cases "q_sig s") (auto simp: bindC_def att_signal_def retC_def)

lemma attach_end_recovers:
  assumes "attach_end u (True, Some True) k s = Ret r t"
  shows "\<exists>w. k (True, Some True) w = Ret r t"
  using assms
proof (cases rule: attach_end_cases)
  case (again w)
  then show ?thesis by blast
qed simp

lemma attach_turn_recovers:
  assumes "attach_turn opts u (True, Some True) k s = Ret r t" "\<not> o_detach opts" "\<not> o_mp opts"
  shows "\<exists>w. k (True, Some True) w = Ret r t"
proof -
  from attach_turn_end [OF assms] obtain u' s1 s2 v' where
      w: "wait_hangup (True, Some True) (q_ppoll s1) s1 = Ret v' s2" and e: "attach_end u' v' k s2 = Ret r t" by blast
  have "v' = (True, Some True)" using wait_canceled [OF w] by simp
  with e show ?thesis by (intro attach_end_recovers) simp
qed

lemma attach_loop_canceled:
  assumes "\<not> o_detach opts" "\<not> o_mp opts"
  shows "attach_loop opts u (True, Some True) q s \<noteq> Ret r t"
proof (induction q arbitrary: s)
  case Nil
  show ?case using attach_turn_recovers [OF _ assms, of u "\<lambda>_. Blocked" s r t] by auto
next
  case (Cons a q)
  show ?case using attach_turn_recovers [OF _ assms, of u "\<lambda>v. attach_loop opts u v q" s r t] Cons.IH by auto
qed

text \<open>
  C18: A termination signal that arrives while the program recovers from a hang-up is lost. In the
  foreground and outside of the test mode, when \<open>start\<close> is entered with the hang-up still in
  \<open>p.revents\<close> and \<open>__io_canceled\<close> is set before the wait is reached, the wait is skipped, the
  old \<open>p.revents\<close> asks for another recovery, and the program never returns, however it goes on.
\<close>

theorem recovery_loses_signal:
  assumes "\<not> o_detach opts" "\<not> o_mp opts"
    and "init_uart (if o_speed opts \<noteq> 0 then u\<lparr>init_speed := o_speed opts\<rparr> else u) (o_raw opts) False s = Ret True s1"
    and "hd (q_sig s1)"
  shows "attach_loop opts u (canceled, Some True) q s \<noteq> Ret r t"
proof
  assume a: "attach_loop opts u (canceled, Some True) q s = Ret r t"
  obtain k where k: "attach_loop opts u (canceled, Some True) q = attach_turn opts u (canceled, Some True) k"
      "\<And>w. k (True, Some True) w \<noteq> Ret r t"
    by (cases q) (auto simp: attach_loop_canceled [OF assms(1,2)])
  from attach_turn_end [OF a [unfolded k(1)] assms(1,2)] assms(3) obtain s2 v' where
      "wait_hangup (canceled, Some True) (q_ppoll s1) s1 = Ret v' s2"
      "attach_end (if o_speed opts \<noteq> 0 then u\<lparr>init_speed := o_speed opts\<rparr> else u) v' k s2 = Ret r t" by auto
  with wait_canceled [of canceled "Some True"] assms(4) attach_end_recovers k(2) show False by blast
qed

text \<open>The turn after a hang-up, with a signal during the recovery, and what it has done by the time its answers end.\<close>

theorem recovery_loses_signal_witness:
  "let s = att_demo [] [True, False, False] 3 in
     attach_loop foreground (uart ! 0) (False, Some True) [True, False, False] s \<noteq> Ret 0 s \<and>
     (case attach_loop foreground (uart ! 0) (False, Some True) [True, False, False] s of
        Blocked t \<Rightarrow> ldisc t = [N_HCI, N_TTY, N_HCI, N_TTY, N_HCI, N_TTY] \<and> length (rfkill t) = 6
      | _ \<Rightarrow> False)"
proof -
  let ?s = "att_demo [] [True, False, False] 3"
  have i: "case init_uart (uart ! 0) False False ?s of Ret ok s1 \<Rightarrow> ok \<and> hd (q_sig s1) | _ \<Rightarrow> False" by code_simp
  then obtain s1 where s1: "init_uart (uart ! 0) False False ?s = Ret True s1" "hd (q_sig s1)" by (auto split: outcome.splits)
  have "attach_loop foreground (uart ! 0) (False, Some True) [True, False, False] ?s \<noteq> Ret 0 ?s"
    by (rule recovery_loses_signal [where ?s1.0 = s1]) (use s1 in simp_all)
  moreover have "case attach_loop foreground (uart ! 0) (False, Some True) [True, False, False] ?s of
        Blocked t \<Rightarrow> ldisc t = [N_HCI, N_TTY, N_HCI, N_TTY, N_HCI, N_TTY] \<and> length (rfkill t) = 6
      | _ \<Rightarrow> False" by code_simp
  ultimately show ?thesis unfolding Let_def by blast
qed

end
