(* ===== verification/MinSha.thy ===== *)
theory MinSha
  imports Prelude
begin

text \<open>
  The message digest of the debug bridge, \<^verbatim>\<open>libmincrypt/sha.c\<close>. The file has two versions, chosen by the
  preprocessor: a plain one, and one for little-endian machines that unrolls the rounds, takes
  the message words while it goes, and copies whole blocks. Both are modelled and compared with a
  reference: pad the message, cut it into blocks, compress them one after the other.
\<close>

unbundle bit_operations_syntax

section \<open>Data\<close>

record SHA_CTX =
  sha_count :: u64
  sha_state :: "u32 list"
  sha_buf :: bytes

type_synonym regs = "u32 \<times> u32 \<times> u32 \<times> u32 \<times> u32"

definition be_word :: "bytes \<Rightarrow> u32" where
  "be_word p = push_bit 24 (ucast (p ! 0)) OR push_bit 16 (ucast (p ! 1)) OR push_bit 8 (ucast (p ! 2)) OR ucast (p ! 3)"

definition be_bytes32 :: "u32 \<Rightarrow> bytes" where
  "be_bytes32 tmp = [ucast (drop_bit 24 tmp), ucast (drop_bit 16 tmp), ucast (drop_bit 8 tmp), ucast tmp]"

section \<open>The plain version\<close>

definition rol :: "nat \<Rightarrow> u32 \<Rightarrow> u32" where
  "rol bits val = push_bit bits val OR drop_bit (32 - bits) val"

text \<open>The array \<open>W\<close>, as far as it is filled.\<close>

definition mix :: "u32 list \<Rightarrow> u32" where
  "mix W = (let t = length W in W ! (t - 3) XOR W ! (t - 8) XOR W ! (t - 14) XOR W ! (t - 16))"

fun extend_W :: "nat \<Rightarrow> u32 list \<Rightarrow> u32 list" where
  "extend_W 0 W = W"
| "extend_W (Suc n) W = extend_W n (W @ [rol 1 (mix W)])"

definition load_W :: "bytes \<Rightarrow> u32 list" where
  "load_W p = map (\<lambda>t. be_word (take 4 (drop (4 * t) p))) [0..<16]"

definition sha_f :: "nat \<Rightarrow> u32 \<Rightarrow> u32 \<Rightarrow> u32 \<Rightarrow> u32" where
  "sha_f t B C D =
     (if t < 20 then D XOR (B AND (C XOR D))
      else if t < 40 then B XOR C XOR D
      else if t < 60 then (B AND C) OR (D AND (B OR C))
      else B XOR C XOR D)"

definition sha_k :: "nat \<Rightarrow> u32" where
  "sha_k t = (if t < 20 then 0x5A827999 else if t < 40 then 0x6ED9EBA1 else if t < 60 then 0x8F1BBCDC else 0xCA62C1D6)"

definition sha_round :: "u32 list \<Rightarrow> nat \<Rightarrow> regs \<Rightarrow> regs" where
  "sha_round W t r = (case r of (A, B, C, D, E) \<Rightarrow>
     let tmp = rol 5 A + E + W ! t; tmp = tmp + (sha_f t B C D + sha_k t)
     in (tmp, A, rol 30 B, C, D))"

definition regs_of :: "u32 list \<Rightarrow> regs" where
  "regs_of st = (st ! 0, st ! 1, st ! 2, st ! 3, st ! 4)"

definition add_regs :: "u32 list \<Rightarrow> regs \<Rightarrow> u32 list" where
  "add_regs st r = (case r of (A, B, C, D, E) \<Rightarrow> [st ! 0 + A, st ! 1 + B, st ! 2 + C, st ! 3 + D, st ! 4 + E])"

definition SHA1_transform :: "SHA_CTX \<Rightarrow> SHA_CTX" where
  "SHA1_transform ctx =
     (let W = extend_W 64 (load_W (sha_buf ctx))
      in ctx\<lparr>sha_state := add_regs (sha_state ctx) (fold (sha_round W) [0..<80] (regs_of (sha_state ctx)))\<rparr>)"

text \<open>A loop over single bytes; \<open>transform\<close> is that of the version.\<close>

fun update_bytes :: "(SHA_CTX \<Rightarrow> SHA_CTX) \<Rightarrow> nat \<Rightarrow> bytes \<Rightarrow> SHA_CTX \<Rightarrow> SHA_CTX" where
  "update_bytes transform i [] ctx = ctx"
| "update_bytes transform i (b # p) ctx =
     (let ctx = ctx\<lparr>sha_buf := (sha_buf ctx)[i := b]\<rparr>
      in if i + 1 = 64 then update_bytes transform 0 p (transform ctx) else update_bytes transform (i + 1) p ctx)"

definition SHA_update :: "bytes \<Rightarrow> SHA_CTX \<Rightarrow> SHA_CTX" where
  "SHA_update data ctx =
     update_bytes SHA1_transform (unat (sha_count ctx mod 64)) data (ctx\<lparr>sha_count := sha_count ctx + of_nat (length data)\<rparr>)"

lemma update_bytes_count: "(\<And>c. sha_count (tr c) = sha_count c) \<Longrightarrow> sha_count (update_bytes tr i p ctx) = sha_count ctx"
  by (induction p arbitrary: i ctx) (simp_all add: Let_def)

lemma SHA1_transform_count: "sha_count (SHA1_transform ctx) = sha_count ctx"
  by (simp add: SHA1_transform_def Let_def)

lemma SHA_update_count: "sha_count (SHA_update data ctx) = sha_count ctx + of_nat (length data)"
  by (simp add: SHA_update_def update_bytes_count SHA1_transform_count)

lemma uint_mod_64: "uint ((w :: u64) mod 64) = uint w mod 64"
  by (simp add: uint_mod)

lemma uint_sub_mod_64: "uint ((a - b :: u64) mod 64) = (uint a - uint b) mod 64"
  by (simp add: uint_mod_64 uint_word_ariths mod_mod_cancel)

lemma uint_add_mod_64: "uint ((a + b :: u64) mod 64) = (uint a + uint b) mod 64"
  by (simp add: uint_mod_64 uint_word_ariths mod_mod_cancel)

lemma pred_mod:
  fixes x :: int
  assumes "x mod 64 \<noteq> 0"
  shows "(x - 1) mod 64 = x mod 64 - 1"
proof -
  have "0 \<le> x mod 64 - 1" "x mod 64 - 1 < 64" using assms pos_mod_sign [of 64 x] pos_mod_bound [of 64 x] by linarith+
  then have "(x mod 64 - 1) mod 64 = x mod 64 - 1" by simp
  then show ?thesis by (simp add: mod_diff_left_eq)
qed

lemma pad_measure:
  fixes c :: u64
  assumes "c mod 64 \<noteq> 56"
  shows "unat ((56 - (c + 1)) mod 64) < unat ((56 - c) mod 64)"
proof -
  have e: "uint ((56 - (c + 1)) mod 64) = (55 - uint c) mod 64" "uint ((56 - c) mod 64) = (56 - uint c) mod 64"
    using uint_sub_mod_64 [of 55 c] uint_sub_mod_64 [of 56 c] by (simp_all add: diff_diff_eq [symmetric])
  have "uint c mod 64 \<noteq> 56"
  proof
    assume "uint c mod 64 = 56"
    then have "uint (c mod 64) = uint (56 :: u64)" by (simp add: uint_mod_64)
    with assms show False by (simp only: word_uint_eq_iff [symmetric])
  qed
  then have "56 mod 64 \<noteq> uint c mod 64" by simp
  then have "(56 - uint c) mod 64 \<noteq> 0" unfolding mod_eq_dvd_iff dvd_eq_mod_eq_0 .
  then have "(56 - uint c - 1) mod 64 = (56 - uint c) mod 64 - 1" by (rule pred_mod)
  then have "(55 - uint c) mod 64 < (56 - uint c) mod 64" by simp
  then show ?thesis unfolding e [symmetric] by (simp add: word_less_def [symmetric] word_less_nat_alt)
qed

lemma pad_measure_update:
  assumes "\<And>c. sha_count (upd c) = sha_count c + 1" and "sha_count ctx mod 64 \<noteq> 56"
  shows "unat ((56 - sha_count (upd ctx)) mod 64) < unat ((56 - sha_count ctx) mod 64)"
  unfolding assms(1) by (rule pad_measure [OF assms(2)])

text \<open>The padding loop.\<close>

function SHA_pad :: "SHA_CTX \<Rightarrow> SHA_CTX" where
  "SHA_pad ctx = (if sha_count ctx mod 64 \<noteq> 56 then SHA_pad (SHA_update [0] ctx) else ctx)"
  by pat_completeness auto
termination
  by (relation "measure (\<lambda>ctx. unat ((56 - sha_count ctx) mod 64))")
    (simp, simp only: in_measure, rule pad_measure_update, simp add: SHA_update_count, assumption)

declare SHA_pad.simps [simp del]

definition count_bytes :: "u64 \<Rightarrow> bytes" where
  "count_bytes cnt = map (\<lambda>i. ucast (drop_bit ((7 - i) * 8) cnt)) [0..<8]"

definition SHA_final :: "SHA_CTX \<Rightarrow> SHA_CTX" where
  "SHA_final ctx =
     (let cnt = sha_count ctx * 8;
          ctx = SHA_pad (SHA_update [0x80] ctx);
          ctx = fold (\<lambda>tmp. SHA_update [tmp]) (count_bytes cnt) ctx
      in ctx\<lparr>sha_buf := concat (map be_bytes32 (sha_state ctx)) @ drop 20 (sha_buf ctx)\<rparr>)"

definition sha_h0 :: "u32 list" where
  "sha_h0 = [0x67452301, 0xEFCDAB89, 0x98BADCFE, 0x10325476, 0xC3D2E1F0]"

definition SHA_init :: "SHA_CTX \<Rightarrow> SHA_CTX" where
  "SHA_init ctx = ctx\<lparr>sha_state := sha_h0, sha_count := 0\<rparr>"

text \<open>\<open>ctx\<close> is the local variable, which is not initialised: its contents are an argument.\<close>

definition SHA :: "SHA_CTX \<Rightarrow> bytes \<Rightarrow> bytes" where
  "SHA ctx data = take 20 (sha_buf (SHA_final (SHA_update data (SHA_init ctx))))"

section \<open>The little-endian version\<close>

definition ror27 :: "u32 \<Rightarrow> u32" where "ror27 val = drop_bit 27 val OR push_bit 5 val"
definition ror2 :: "u32 \<Rightarrow> u32" where "ror2 val = drop_bit 2 val OR push_bit 30 val"
definition ror31 :: "u32 \<Rightarrow> u32" where "ror31 val = drop_bit 31 val OR push_bit 1 val"

definition bswap_32 :: "u32 \<Rightarrow> u32" where
  "bswap_32 w = le_word (rev (le_bytes 4 w))"

text \<open>
  One use of a macro \<open>SHA_F\<close>, with \<open>f\<close> and \<open>k\<close> of the macro and \<open>next\<close> the next word of the message: the
  registers are given in the roles of the macro, and the word is stored in \<open>W\<close>.
\<close>

definition SHA_F :: "(u32 \<Rightarrow> u32 \<Rightarrow> u32 \<Rightarrow> u32) \<Rightarrow> u32 \<Rightarrow> (u32 list \<Rightarrow> u32) \<Rightarrow> regs \<times> u32 list \<Rightarrow> regs \<times> u32 list" where
  "SHA_F f k next s = (case s of ((A, B, C, D, E), W) \<Rightarrow>
     let w = next W in ((A, ror2 B, C, D, E + (ror27 A + w + f B C D + k)), W @ [w]))"

text \<open>Five uses in a row: each call shifts the roles by one register.\<close>

definition SHA_five :: "(u32 \<Rightarrow> u32 \<Rightarrow> u32 \<Rightarrow> u32) \<Rightarrow> u32 \<Rightarrow> (u32 list \<Rightarrow> u32) \<Rightarrow> regs \<times> u32 list \<Rightarrow> regs \<times> u32 list" where
  "SHA_five f k next s =
     (let ((A, B, C, D, E), W) = s;
          ((A, B, C, D, E), W) = SHA_F f k next ((A, B, C, D, E), W);
          ((E, A, B, C, D), W) = SHA_F f k next ((E, A, B, C, D), W);
          ((D, E, A, B, C), W) = SHA_F f k next ((D, E, A, B, C), W);
          ((C, D, E, A, B), W) = SHA_F f k next ((C, D, E, A, B), W);
          ((B, C, D, E, A), W) = SHA_F f k next ((B, C, D, E, A), W)
      in ((A, B, C, D, E), W))"

text \<open>The row in which the words of the buffer end and the computed ones begin.\<close>

definition SHA_five_mixed :: "(u32 \<Rightarrow> u32 \<Rightarrow> u32 \<Rightarrow> u32) \<Rightarrow> u32 \<Rightarrow> (u32 list \<Rightarrow> u32) \<Rightarrow> (u32 list \<Rightarrow> u32) \<Rightarrow> regs \<times> u32 list \<Rightarrow> regs \<times> u32 list" where
  "SHA_five_mixed f k next1 next2 s =
     (let ((A, B, C, D, E), W) = s;
          ((A, B, C, D, E), W) = SHA_F f k next1 ((A, B, C, D, E), W);
          ((E, A, B, C, D), W) = SHA_F f k next2 ((E, A, B, C, D), W);
          ((D, E, A, B, C), W) = SHA_F f k next2 ((D, E, A, B, C), W);
          ((C, D, E, A, B), W) = SHA_F f k next2 ((C, D, E, A, B), W);
          ((B, C, D, E, A), W) = SHA_F f k next2 ((B, C, D, E, A), W)
      in ((A, B, C, D, E), W))"

definition fast_rounds :: "bytes \<Rightarrow> regs \<Rightarrow> regs" where
  "fast_rounds p r =
     (let load = (\<lambda>W. bswap_32 (le_word (take 4 (drop (4 * length W) p)))); comp = (\<lambda>W. ror31 (mix W));
          f1 = (\<lambda>B C D. D XOR (B AND (C XOR D))); f2 = (\<lambda>B C D. B XOR C XOR D); f3 = (\<lambda>B C D. (B AND C) OR (D AND (B OR C)));
          s = (SHA_five f1 0x5A827999 load ^^ 3) (r, []);
          s = SHA_five_mixed f1 0x5A827999 load comp s;
          s = (SHA_five f2 0x6ED9EBA1 comp ^^ 4) s;
          s = (SHA_five f3 0x8F1BBCDC comp ^^ 4) s;
          s = (SHA_five f2 0xCA62C1D6 comp ^^ 4) s
      in fst s)"

definition SHA1_Transform :: "SHA_CTX \<Rightarrow> SHA_CTX" where
  "SHA1_Transform ctx =
     ctx\<lparr>sha_state := add_regs (sha_state ctx) (fast_rounds (sha_buf ctx) (regs_of (sha_state ctx)))\<rparr>"

text \<open>Whole blocks while more than the rest of the buffer is left.\<close>

function update_blocks :: "nat \<Rightarrow> bytes \<Rightarrow> SHA_CTX \<Rightarrow> nat \<times> bytes \<times> SHA_CTX" where
  "update_blocks i p ctx =
     (if i < 64 \<and> length p > 64 - i
      then update_blocks 0 (drop (64 - i) p) (SHA1_Transform (ctx\<lparr>sha_buf := take i (sha_buf ctx) @ take (64 - i) p\<rparr>))
      else (i, p, ctx))"
  by pat_completeness auto
termination by (relation "measure (\<lambda>(i, p, ctx). length p)") auto

declare update_blocks.simps [simp del]

definition SHA_update_le :: "bytes \<Rightarrow> SHA_CTX \<Rightarrow> SHA_CTX" where
  "SHA_update_le data ctx =
     (let (i, p, ctx) = update_blocks (unat (sha_count ctx mod 64)) data (ctx\<lparr>sha_count := sha_count ctx + of_nat (length data)\<rparr>)
      in update_bytes SHA1_Transform i p ctx)"

lemma SHA1_Transform_count: "sha_count (SHA1_Transform ctx) = sha_count ctx"
  by (simp add: SHA1_Transform_def Let_def)

lemma update_blocks_count: "update_blocks i p ctx = (j, q, ctx') \<Longrightarrow> sha_count ctx' = sha_count ctx"
proof (induction i p ctx rule: update_blocks.induct)
  case (1 i p ctx)
  show ?case
  proof (cases "i < 64 \<and> length p > 64 - i")
    case True
    then have "update_blocks 0 (drop (64 - i) p) (SHA1_Transform (ctx\<lparr>sha_buf := take i (sha_buf ctx) @ take (64 - i) p\<rparr>)) = (j, q, ctx')"
      using 1(2) by (subst (asm) update_blocks.simps) simp
    from 1(1) [OF True this] show ?thesis by (simp add: SHA1_Transform_count)
  next
    case False
    have "update_blocks i p ctx = (i, p, ctx)" by (subst update_blocks.simps) (simp only: False if_False)
    then show ?thesis using 1(2) by simp
  qed
qed

lemma SHA_update_le_count: "sha_count (SHA_update_le data ctx) = sha_count ctx + of_nat (length data)"
proof -
  obtain i p c where u: "update_blocks (unat (sha_count ctx mod 64)) data (ctx\<lparr>sha_count := sha_count ctx + of_nat (length data)\<rparr>) = (i, p, c)"
    by (metis prod_cases3)
  from update_blocks_count [OF u] show ?thesis
    by (simp add: SHA_update_le_def u update_bytes_count SHA1_Transform_count)
qed

function SHA_pad_le :: "SHA_CTX \<Rightarrow> SHA_CTX" where
  "SHA_pad_le ctx = (if sha_count ctx mod 64 \<noteq> 56 then SHA_pad_le (SHA_update_le [0] ctx) else ctx)"
  by pat_completeness auto
termination
  by (relation "measure (\<lambda>ctx. unat ((56 - sha_count ctx) mod 64))")
    (simp, simp only: in_measure, rule pad_measure_update, simp add: SHA_update_le_count, assumption)

declare SHA_pad_le.simps [simp del]

definition SHA_final_le :: "SHA_CTX \<Rightarrow> SHA_CTX" where
  "SHA_final_le ctx =
     (let cnt = sha_count ctx * 8;
          ctx = SHA_pad_le (SHA_update_le [0x80] ctx);
          ctx = fold (\<lambda>tmp. SHA_update_le [tmp]) (count_bytes cnt) ctx
      in ctx\<lparr>sha_buf := concat (map (\<lambda>w. le_bytes 4 (bswap_32 w)) (sha_state ctx)) @ drop 20 (sha_buf ctx)\<rparr>)"

definition SHA_le :: "SHA_CTX \<Rightarrow> bytes \<Rightarrow> bytes" where
  "SHA_le ctx data = take 20 (sha_buf (SHA_final_le (SHA_update_le data (SHA_init ctx))))"

section \<open>Reference\<close>

text \<open>Compression of one block, over a padded message block by block, and the padding.\<close>

definition compress :: "u32 list \<Rightarrow> bytes \<Rightarrow> u32 list" where
  "compress st block =
     add_regs st (fold (sha_round (extend_W 64 (load_W block))) [0..<80] (regs_of st))"

function absorb :: "u32 list \<Rightarrow> bytes \<Rightarrow> u32 list" where
  "absorb st msg = (if length msg < 64 then st else absorb (compress st (take 64 msg)) (drop 64 msg))"
  by pat_completeness auto
termination by (relation "measure (\<lambda>(st, msg). length msg)") auto

declare absorb.simps [simp del]

definition pad_len :: "nat \<Rightarrow> nat" where
  "pad_len n = (119 - n mod 64) mod 64"

definition padded :: "bytes \<Rightarrow> bytes" where
  "padded msg = msg @ [0x80] @ replicate (pad_len (length msg)) 0 @ count_bytes (of_nat (8 * length msg))"

definition sha1 :: "bytes \<Rightarrow> bytes" where
  "sha1 msg = concat (map be_bytes32 (absorb sha_h0 (padded msg)))"

lemma absorb_short [simp]: "length msg < 64 \<Longrightarrow> absorb st msg = st"
  by (subst absorb.simps) simp

lemma absorb_block: "length blk = 64 \<Longrightarrow> absorb st (blk @ msg) = absorb (compress st blk) msg"
  by (subst absorb.simps) simp

lemma absorb_append: "length a mod 64 = 0 \<Longrightarrow> absorb st (a @ b) = absorb (absorb st a) b"
proof (induction st a rule: absorb.induct)
  case (1 st a)
  show ?case
  proof (cases "length a < 64")
    case True
    with 1(2) have "a = []" by simp
    then show ?thesis by simp
  next
    case False
    then have "length (drop 64 a) mod 64 = 0" using 1(2) by (simp add: le_mod_geq)
    moreover have "absorb st a = absorb (compress st (take 64 a)) (drop 64 a)" using False by (subst absorb.simps) simp
    moreover have "absorb st (a @ b) = absorb (compress st (take 64 a)) (drop 64 a @ b)"
      using False by (subst absorb.simps) simp
    ultimately show ?thesis using 1(1) [OF False] by simp
  qed
qed

definition tail64 :: "bytes \<Rightarrow> bytes" where
  "tail64 msg = drop (64 * (length msg div 64)) msg"

lemma tail64_split: "msg = take (64 * (length msg div 64)) msg @ tail64 msg"
  by (simp add: tail64_def)

lemma length_tail64 [simp]: "length (tail64 msg) = length msg mod 64"
  by (simp add: tail64_def minus_mult_div_eq_mod)

lemma absorb_tail: "absorb st (msg @ xs) = absorb (absorb st msg) (tail64 msg @ xs)"
proof -
  let ?a = "take (64 * (length msg div 64)) msg"
  have l: "length ?a mod 64 = 0" by (simp add: min_absorb2)
  have "absorb st msg = absorb st (?a @ tail64 msg)" using tail64_split by simp
  also have "\<dots> = absorb st ?a" by (simp add: absorb_append [OF l])
  finally have "absorb st msg = absorb st ?a" .
  moreover have "absorb st (msg @ xs) = absorb st (?a @ (tail64 msg @ xs))" using tail64_split [of msg] by (metis append.assoc)
  ultimately show ?thesis by (simp add: absorb_append [OF l])
qed

lemma tail64_append: "tail64 (msg @ xs) = tail64 (tail64 msg @ xs)"
proof -
  let ?q = "length msg div 64" and ?l = "length msg mod 64"
  have "length (msg @ xs) = 64 * ?q + (?l + length xs)" by simp
  then have "length (msg @ xs) div 64 = ?q + (?l + length xs) div 64" by (simp only: div_mult_self4)
  then have "tail64 (msg @ xs) = drop (64 * ((?l + length xs) div 64)) (drop (64 * ?q) (msg @ xs))"
    by (simp add: tail64_def distrib_left add.commute)
  moreover have "drop (64 * ?q) (msg @ xs) = tail64 msg @ xs" by (simp add: tail64_def)
  moreover have "tail64 (tail64 msg @ xs) = drop (64 * ((?l + length xs) div 64)) (tail64 msg @ xs)"
    by (simp only: tail64_def [of "tail64 msg @ xs"] length_append length_tail64)
  ultimately show ?thesis by (simp only:)
qed

text \<open>What a context holds of the message so far, without its length and with it.\<close>

definition block_rep :: "bytes \<Rightarrow> SHA_CTX \<Rightarrow> bool" where
  "block_rep msg ctx \<longleftrightarrow> sha_state ctx = absorb sha_h0 msg \<and> length (sha_buf ctx) = 64 \<and>
     take (length msg mod 64) (sha_buf ctx) = tail64 msg"

definition sha_rep :: "bytes \<Rightarrow> SHA_CTX \<Rightarrow> bool" where
  "sha_rep msg ctx \<longleftrightarrow> block_rep msg ctx \<and> sha_count ctx = of_nat (length msg)"

definition compressing :: "(SHA_CTX \<Rightarrow> SHA_CTX) \<Rightarrow> bool" where
  "compressing tr \<longleftrightarrow> (\<forall>ctx. length (sha_buf ctx) = 64 \<longrightarrow> tr ctx = ctx\<lparr>sha_state := compress (sha_state ctx) (sha_buf ctx)\<rparr>)"

lemma block_rep_byte:
  assumes "block_rep msg ctx" "i = length msg mod 64" "compressing tr"
  shows "block_rep (msg @ [b]) (let ctx = ctx\<lparr>sha_buf := (sha_buf ctx)[i := b]\<rparr> in if i + 1 = 64 then tr ctx else ctx)"
proof -
  have st: "sha_state ctx = absorb sha_h0 msg" and l: "length (sha_buf ctx) = 64" and t: "take i (sha_buf ctx) = tail64 msg"
    and i: "i < 64"
    using assms(1,2) by (simp_all add: block_rep_def)
  have b: "take (Suc i) ((sha_buf ctx)[i := b]) = tail64 msg @ [b]"
    by (subst take_Suc_conv_app_nth) (simp_all add: l i t)
  have len: "length (tail64 msg @ [b]) = Suc i" using assms(2) by simp
  have a: "absorb sha_h0 (msg @ [b]) = absorb (sha_state ctx) (tail64 msg @ [b])"
    unfolding st by (rule absorb_tail)
  show ?thesis
  proof (cases "i + 1 = 64")
    case True
    then have e: "(sha_buf ctx)[i := b] = tail64 msg @ [b]" using b l by simp
    have "absorb (sha_state ctx) (tail64 msg @ [b]) = compress (sha_state ctx) (tail64 msg @ [b])"
      using absorb_block [of "tail64 msg @ [b]" "sha_state ctx" "[]"] len True by simp
    moreover have "tail64 (tail64 msg @ [b]) = []" using len True by (simp add: tail64_def)
    moreover have "length (msg @ [b]) mod 64 = 0" using True assms(2) by (simp add: mod_Suc)
    moreover have "tr (ctx\<lparr>sha_buf := (sha_buf ctx)[i := b]\<rparr>) =
        ctx\<lparr>sha_buf := tail64 msg @ [b], sha_state := compress (sha_state ctx) (tail64 msg @ [b])\<rparr>"
      using assms(3) len True unfolding e compressing_def by simp
    ultimately show ?thesis using True len a tail64_append [of msg "[b]"]
      by (simp add: Let_def block_rep_def)
  next
    case False
    then have i: "Suc i < 64" using i by linarith
    then have "length (msg @ [b]) mod 64 = Suc i" using assms(2) by (simp add: mod_Suc)
    moreover have "tail64 (tail64 msg @ [b]) = tail64 msg @ [b]" using len i by (simp add: tail64_def)
    moreover have "absorb (sha_state ctx) (tail64 msg @ [b]) = sha_state ctx" using len i by simp
    ultimately show ?thesis using False a b assms(1) tail64_append [of msg "[b]"]
      by (simp add: Let_def block_rep_def)
  qed
qed

lemma update_bytes_rep:
  assumes "block_rep msg ctx" "i = length msg mod 64" "compressing tr"
  shows "block_rep (msg @ p) (update_bytes tr i p ctx)"
  using assms(1,2)
proof (induction p arbitrary: i msg ctx)
  case (Cons b p)
  let ?c = "let ctx = ctx\<lparr>sha_buf := (sha_buf ctx)[i := b]\<rparr> in if i + 1 = 64 then tr ctx else ctx"
  have "i < 64" using Cons.prems(2) by simp
  have "block_rep (msg @ [b]) ?c" using Cons.prems assms(3) by (rule block_rep_byte)
  moreover have "(if i + 1 = 64 then 0 else i + 1) = length (msg @ [b]) mod 64" using Cons.prems(2) by (simp add: mod_Suc)
  moreover have "update_bytes tr i (b # p) ctx = update_bytes tr (if i + 1 = 64 then 0 else i + 1) p ?c" by (simp add: Let_def)
  ultimately show ?case using Cons.IH [of "msg @ [b]" ?c] by simp
qed simp

lemma unat_count_mod: "unat ((of_nat n :: u64) mod 64) = n mod 64"
  by (simp add: unat_mod unat_of_nat mod_mod_cancel)

lemma update_bytes_sha_rep:
  assumes "sha_rep msg ctx" "compressing tr" "\<And>c. sha_count (tr c) = sha_count c"
  shows "sha_rep (msg @ data) (update_bytes tr (unat (sha_count ctx mod 64)) data (ctx\<lparr>sha_count := sha_count ctx + of_nat (length data)\<rparr>))"
proof -
  let ?c = "ctx\<lparr>sha_count := sha_count ctx + of_nat (length data)\<rparr>"
  have "block_rep msg ?c" "unat (sha_count ctx mod 64) = length msg mod 64" "sha_count ctx = of_nat (length msg)"
    using assms(1) unat_count_mod by (simp_all add: sha_rep_def block_rep_def)
  then show ?thesis using update_bytes_rep [OF _ _ assms(2), of msg ?c]
    unfolding sha_rep_def update_bytes_count [OF assms(3)] by simp
qed

lemma sha_rep_56: "sha_rep msg ctx \<Longrightarrow> sha_count ctx mod 64 = 56 \<longleftrightarrow> length msg mod 64 = 56"
proof -
  assume "sha_rep msg ctx"
  then have c: "sha_count ctx = of_nat (length msg)" by (simp add: sha_rep_def)
  have "(of_nat (length msg) mod 64 = (56 :: u64)) \<longleftrightarrow> unat (of_nat (length msg) mod 64 :: u64) = unat (56 :: u64)"
    by (rule word_unat_eq_iff)
  also have "\<dots> \<longleftrightarrow> length msg mod 64 = 56" unfolding unat_count_mod by simp
  finally show ?thesis unfolding c .
qed

lemma pad_len_mod: "(Suc n + pad_len n) mod 64 = 56"
proof -
  have "n mod 64 < 64" "n = 64 * (n div 64) + n mod 64" by simp_all
  then have "Suc n + (119 - n mod 64) = 120 + 64 * (n div 64)" by linarith
  then have "(Suc n + (119 - n mod 64)) mod 64 = 56" by simp
  then show ?thesis unfolding pad_len_def mod_add_right_eq .
qed

lemma length_absorb: "length st = 5 \<Longrightarrow> length (absorb st msg) = 5"
proof (induction st msg rule: absorb.induct)
  case (1 st msg)
  have "length (compress st (take 64 msg)) = 5" by (simp add: compress_def add_regs_def split: prod.split)
  then show ?case using 1 by (subst absorb.simps) simp
qed

lemma length_be_state: "length (concat (map be_bytes32 (absorb sha_h0 msg))) = 20"
  by (simp add: length_concat comp_def be_bytes32_def sum_list_triv length_absorb sha_h0_def)

lemma SHA1_transform_compressing: "compressing SHA1_transform"
  by (simp add: compressing_def SHA1_transform_def compress_def Let_def)

section \<open>One contract for both versions\<close>

text \<open>
  What the two versions have in common: \<open>update\<close> appends to the message a context stands for,
  \<open>pad\<close> feeds zeros until eight bytes of a block are left, \<open>finish\<close> is written with them.
\<close>

locale digest =
  fixes update :: "bytes \<Rightarrow> SHA_CTX \<Rightarrow> SHA_CTX"
    and pad finish :: "SHA_CTX \<Rightarrow> SHA_CTX"
  assumes update_rep: "sha_rep msg ctx \<Longrightarrow> sha_rep (msg @ data) (update data ctx)"
    and pad_unfold: "pad ctx = (if sha_count ctx mod 64 \<noteq> 56 then pad (update [0] ctx) else ctx)"
    and finish_eq: "finish ctx =
      (let c = fold (\<lambda>tmp. update [tmp]) (count_bytes (sha_count ctx * 8)) (pad (update [0x80] ctx))
       in c\<lparr>sha_buf := concat (map be_bytes32 (sha_state c)) @ drop 20 (sha_buf c)\<rparr>)"
begin

lemma fold_update_rep: "sha_rep msg ctx \<Longrightarrow> sha_rep (msg @ concat chunks) (fold update chunks ctx)"
proof (induction chunks arbitrary: msg ctx)
  case (Cons c chunks)
  then show ?case using Cons.IH [OF update_rep [OF Cons.prems]] by simp
qed simp

lemma fold_bytes_rep: "sha_rep msg ctx \<Longrightarrow> sha_rep (msg @ bs) (fold (\<lambda>tmp. update [tmp]) bs ctx)"
  using fold_update_rep [of msg ctx "map (\<lambda>b. [b]) bs"] by (simp add: fold_map comp_def)

lemma pad_rep: "sha_rep msg ctx \<Longrightarrow> (length msg + k) mod 64 = 56 \<Longrightarrow> k < 64 \<Longrightarrow> sha_rep (msg @ replicate k 0) (pad ctx)"
proof (induction k arbitrary: msg ctx)
  case 0
  then have "sha_count ctx mod 64 = 56" using sha_rep_56 by simp
  then show ?case using 0 by (subst pad_unfold) simp
next
  case (Suc k)
  have "length msg mod 64 \<noteq> 56"
  proof
    assume "length msg mod 64 = 56"
    then have "(56 + Suc k) mod 64 = 56" using Suc.prems(2) mod_add_left_eq [of "length msg" 64 "Suc k"] by simp
    then show False using Suc.prems(3) by (cases "k < 7") (simp_all add: le_mod_geq)
  qed
  then have n: "sha_count ctx mod 64 \<noteq> 56"
    using sha_rep_56 [OF Suc.prems(1)] by simp
  have "sha_rep ((msg @ [0]) @ replicate k 0) (pad (update [0] ctx))"
    by (rule Suc.IH) (use Suc.prems update_rep in simp_all)
  then show ?case using n by (subst pad_unfold) simp
qed

lemma finish_sha1:
  assumes "sha_rep msg ctx"
  shows "take 20 (sha_buf (finish ctx)) = sha1 msg"
proof -
  let ?c = "fold (\<lambda>tmp. update [tmp]) (count_bytes (sha_count ctx * 8)) (pad (update [0x80] ctx))"
  have "(length (msg @ [0x80]) + pad_len (length msg)) mod 64 = 56" using pad_len_mod by simp
  moreover have "pad_len (length msg) < 64" by (simp add: pad_len_def)
  ultimately have "sha_rep ((msg @ [0x80]) @ replicate (pad_len (length msg)) 0) (pad (update [0x80] ctx))"
    by (rule pad_rep [OF update_rep [OF assms]])
  then have "sha_rep (((msg @ [0x80]) @ replicate (pad_len (length msg)) 0) @ count_bytes (sha_count ctx * 8)) ?c"
    by (rule fold_bytes_rep)
  moreover have "sha_count ctx * 8 = of_nat (8 * length msg)" using assms by (simp add: sha_rep_def)
  ultimately have "sha_rep (padded msg) ?c" by (simp add: padded_def)
  then have "sha_state ?c = absorb sha_h0 (padded msg)" by (simp add: sha_rep_def block_rep_def)
  then show ?thesis by (simp add: finish_eq Let_def sha1_def length_be_state)
qed

end

interpretation plain: digest SHA_update SHA_pad SHA_final
proof
  show "sha_rep msg ctx \<Longrightarrow> sha_rep (msg @ data) (SHA_update data ctx)" for msg ctx data
    unfolding SHA_update_def by (rule update_bytes_sha_rep [OF _ SHA1_transform_compressing SHA1_transform_count])
  show "SHA_pad ctx = (if sha_count ctx mod 64 \<noteq> 56 then SHA_pad (SHA_update [0] ctx) else ctx)" for ctx
    by (rule SHA_pad.simps)
qed (simp add: SHA_final_def Let_def)

section \<open>The unrolled rounds\<close>

lemma ror_rol: "ror27 w = rol 5 w" "ror2 w = rol 30 w" "ror31 w = rol 1 w"
  by (simp_all add: ror27_def ror2_def ror31_def rol_def or.commute)

lemma be_word_rev: "be_word [a, b, c, d] = le_word [d, c, b, a]"
  by (simp add: be_word_def push_bit_or or.assoc or.commute or.left_commute)

lemma bswap_32_load: "length p = 4 \<Longrightarrow> bswap_32 (le_word p) = be_word p"
proof -
  assume l: "length p = 4"
  then obtain a b c d where p: "p = [a, b, c, d]" by (auto simp: numeral_eq_Suc length_Suc_conv)
  have "le_bytes 4 (le_word p :: u32) = p" by (rule le_bytes_le_word) (simp_all add: l)
  then show ?thesis by (simp add: bswap_32_def p be_word_rev del: le_word.simps)
qed

lemma bswap_32_store: "le_bytes 4 (bswap_32 w) = be_bytes32 w"
proof -
  have "le_bytes 4 (bswap_32 w) = rev (le_bytes 4 w)" unfolding bswap_32_def by (rule le_bytes_le_word) simp_all
  then show ?thesis by (simp add: le_bytes_def be_bytes32_def upt_rec)
qed

lemma length_extend_W [simp]: "length (extend_W n W) = length W + n"
  by (induction n arbitrary: W) simp_all

lemma take_extend_W: "take (length W) (extend_W n W) = W"
proof (induction n arbitrary: W)
  case (Suc n)
  have "take (length W) (extend_W n (W @ [rol 1 (mix W)])) = take (length W) (take (Suc (length W)) (extend_W n (W @ [rol 1 (mix W)])))" by simp
  also have "\<dots> = W" using Suc.IH [of "W @ [rol 1 (mix W)]"] by simp
  finally show ?case by simp
qed simp

lemma nth_extend_W: "length W \<le> t \<Longrightarrow> t < length W + n \<Longrightarrow> extend_W n W ! t = rol 1 (mix (take t (extend_W n W)))"
proof (induction n arbitrary: W)
  case (Suc n)
  let ?V = "W @ [rol 1 (mix W)]"
  have t: "take (Suc (length W)) (extend_W n ?V) = ?V" using take_extend_W [of ?V n] by simp
  show ?case
  proof (cases "t = length W")
    case True
    have "extend_W n ?V ! length W = take (Suc (length W)) (extend_W n ?V) ! length W" by simp
    moreover have "take (length W) (extend_W n ?V) = take (length W) (take (Suc (length W)) (extend_W n ?V))" by simp
    ultimately show ?thesis unfolding t True by simp
  next
    case False
    then show ?thesis using Suc.IH [of ?V] Suc.prems by simp
  qed
qed simp

definition schedule :: "bytes \<Rightarrow> u32 list" where
  "schedule p = extend_W 64 (load_W p)"

lemma length_load_W [simp]: "length (load_W p) = 16" by (simp add: load_W_def)

lemma length_schedule [simp]: "length (schedule p) = 80"
  by (simp add: schedule_def)

lemma schedule_load: "t < 16 \<Longrightarrow> schedule p ! t = be_word (take 4 (drop (4 * t) p))"
proof -
  assume t: "t < 16"
  have "schedule p ! t = take 16 (schedule p) ! t" using t by simp
  also have "take 16 (schedule p) = load_W p" using take_extend_W [of "load_W p" 64] by (simp add: schedule_def)
  finally show ?thesis using t by (simp add: load_W_def)
qed

lemma schedule_mix: "16 \<le> t \<Longrightarrow> t < 80 \<Longrightarrow> schedule p ! t = ror31 (mix (take t (schedule p)))"
  unfolding schedule_def ror_rol by (rule nth_extend_W) simp_all

text \<open>One use of a macro is one round, with the new value in the place of \<open>E\<close>.\<close>

lemma sha_round_shape: "sha_round W t (A, B, C, D, E) =
   (rol 5 A + E + W ! t + (sha_f t B C D + sha_k t), A, rol 30 B, C, D)"
  by (simp add: sha_round_def Let_def)

lemma SHA_F_step:
  assumes "next (take t W) = W ! t" "t < length W" "f = sha_f t" "k = sha_k t"
  shows "SHA_F f k next ((A, B, C, D, E), take t W) =
     ((A, rol 30 B, C, D, rol 5 A + E + W ! t + (sha_f t B C D + sha_k t)), take (Suc t) W)"
  using assms(2) unfolding SHA_F_def assms(3,4)
  by (simp add: assms(1) Let_def ror_rol take_Suc_conv_app_nth add_ac)

lemma SHA_five_rounds:
  assumes "\<And>j. t \<le> j \<Longrightarrow> j < t + 5 \<Longrightarrow> next (take j W) = W ! j \<and> f = sha_f j \<and> k = sha_k j" "t + 5 \<le> length W"
  shows "SHA_five f k next (r, take t W) = (fold (sha_round W) [t..<t + 5] r, take (t + 5) W)"
proof -
  obtain A B C D E where r: "r = (A, B, C, D, E)" by (cases r) auto
  have st: "\<And>j A B C D E. t \<le> j \<Longrightarrow> j < t + 5 \<Longrightarrow> SHA_F f k next ((A, B, C, D, E), take j W) =
     ((A, rol 30 B, C, D, rol 5 A + E + W ! j + (sha_f j B C D + sha_k j)), take (Suc j) W)"
    by (rule SHA_F_step) (use assms in auto)
  have u: "[t..<t + 5] = [t, Suc t, Suc (Suc t), Suc (Suc (Suc t)), Suc (Suc (Suc (Suc t)))]"
    by (simp add: upt_rec)
  have s: "t + 5 = Suc (Suc (Suc (Suc (Suc t))))" by simp
  show ?thesis
    unfolding r u SHA_five_def s by (simp add: st sha_round_shape)
qed

lemma SHA_five_mixed_eq:
  assumes "next1 (snd s) = next (snd s)" "\<And>V. length V > length (snd s) \<Longrightarrow> next2 V = next V"
  shows "SHA_five_mixed f k next1 next2 s = SHA_five f k next s"
proof -
  obtain A B C D E W where s: "s = ((A, B, C, D, E), W)" by (metis prod.exhaust)
  show ?thesis using assms unfolding s by (simp add: SHA_five_mixed_def SHA_five_def SHA_F_def Let_def)
qed

lemma SHA_five_funpow:
  assumes "\<And>j. t \<le> j \<Longrightarrow> j < t + 5 * n \<Longrightarrow> next (take j W) = W ! j \<and> f = sha_f j \<and> k = sha_k j" "t + 5 * n \<le> length W"
  shows "(SHA_five f k next ^^ n) (r, take t W) = (fold (sha_round W) [t..<t + 5 * n] r, take (t + 5 * n) W)"
  using assms
proof (induction n)
  case (Suc n)
  have "SHA_five f k next (fold (sha_round W) [t..<t + 5 * n] r, take (t + 5 * n) W) =
      (fold (sha_round W) [t + 5 * n..<t + 5 * n + 5] (fold (sha_round W) [t..<t + 5 * n] r), take (t + 5 * n + 5) W)"
    by (rule SHA_five_rounds) (use Suc.prems in auto)
  moreover have "[t..<t + 5 * Suc n] = [t..<t + 5 * n] @ [t + 5 * n..<t + 5 * n + 5]"
    using upt_add_eq_append [of t "t + 5 * n" 5] by (simp add: ac_simps)
  moreover have "(SHA_five f k next ^^ n) (r, take t W) = (fold (sha_round W) [t..<t + 5 * n] r, take (t + 5 * n) W)"
    by (rule Suc.IH) (use Suc.prems in auto)
  ultimately show ?case by (simp add: ac_simps)
qed simp

text \<open>The next word, from the buffer or computed: that of the schedule in both cases.\<close>

lemma schedule_next:
  assumes "length p = 64" "j < 80"
  shows "(\<lambda>V. if length V < 16 then bswap_32 (le_word (take 4 (drop (4 * length V) p))) else ror31 (mix V)) (take j (schedule p)) = schedule p ! j"
  using assms by (simp add: bswap_32_load schedule_load schedule_mix)

lemma sha_fk:
  "j < 20 \<Longrightarrow> (\<lambda>B C D. D XOR (B AND (C XOR D))) = sha_f j \<and> 0x5A827999 = sha_k j"
  "20 \<le> j \<Longrightarrow> j < 40 \<Longrightarrow> (\<lambda>B C D. B XOR C XOR D) = sha_f j \<and> 0x6ED9EBA1 = sha_k j"
  "40 \<le> j \<Longrightarrow> j < 60 \<Longrightarrow> (\<lambda>B C D. (B AND C) OR (D AND (B OR C))) = sha_f j \<and> 0x8F1BBCDC = sha_k j"
  "60 \<le> j \<Longrightarrow> (\<lambda>B C D. B XOR C XOR D) = sha_f j \<and> 0xCA62C1D6 = sha_k j"
  by (simp_all add: fun_eq_iff sha_f_def sha_k_def)

lemma fast_rounds_eq:
  assumes "length p = 64"
  shows "fast_rounds p r = fold (sha_round (schedule p)) [0..<80] r"
proof -
  let ?S = "schedule p"
  let ?load = "\<lambda>W. bswap_32 (le_word (take 4 (drop (4 * length W) p)))" and ?comp = "\<lambda>W. ror31 (mix W)"
  have load: "j < 16 \<Longrightarrow> ?load (take j ?S) = ?S ! j" for j using schedule_next [OF assms, of j] by simp
  have comp: "16 \<le> j \<Longrightarrow> j < 80 \<Longrightarrow> ?comp (take j ?S) = ?S ! j" for j using schedule_next [OF assms, of j] by simp
  let ?R = "\<lambda>j. (fold (sha_round ?S) [0..<j] r, take j ?S)"
  have cat: "fold (sha_round ?S) [i..<j] (fst (?R i)) = fst (?R j)" if "i \<le> j" for i j
    using upt_add_eq_append [of 0 i "j - i"] that by simp
  have s1: "(SHA_five (\<lambda>B C D. D XOR (B AND (C XOR D))) 0x5A827999 ?load ^^ 3) (r, []) = ?R 15"
    using SHA_five_funpow [of 0 3 ?load ?S "\<lambda>B C D. D XOR (B AND (C XOR D))" "0x5A827999" r] load sha_fk(1) by simp
  have s2: "SHA_five_mixed (\<lambda>B C D. D XOR (B AND (C XOR D))) 0x5A827999 ?load ?comp (?R 15) = ?R 20"
  proof -
    let ?next = "\<lambda>V. if length V < 16 then ?load V else ?comp V"
    have "SHA_five_mixed (\<lambda>B C D. D XOR (B AND (C XOR D))) 0x5A827999 ?load ?comp (?R 15) =
        SHA_five (\<lambda>B C D. D XOR (B AND (C XOR D))) 0x5A827999 ?next (?R 15)"
      by (rule SHA_five_mixed_eq) simp_all
    also have "\<dots> = (fold (sha_round ?S) [15..<15 + 5] (fst (?R 15)), take (15 + 5) ?S)"
      unfolding fst_conv by (rule SHA_five_rounds) (use schedule_next [OF assms] sha_fk(1) in simp_all)
    finally show ?thesis using cat [of 15 20] by simp
  qed
  have s3: "(SHA_five f k ?comp ^^ 4) (?R t) = ?R (t + 20)"
    if "\<And>j. t \<le> j \<Longrightarrow> j < t + 20 \<Longrightarrow> f = sha_f j \<and> k = sha_k j" "16 \<le> t" "t + 20 \<le> 80" for f k t
    using SHA_five_funpow [of t 4 ?comp ?S f k "fst (?R t)"] cat [of t "t + 20"] comp that by simp
  have "fst (?R 80) = fold (sha_round ?S) [0..<80] r" by simp
  moreover have "fast_rounds p r = fst (?R 80)"
    unfolding fast_rounds_def Let_def s1 s2
    using s3 [of 20 "\<lambda>B C D. B XOR C XOR D" "0x6ED9EBA1"] s3 [of 40 "\<lambda>B C D. (B AND C) OR (D AND (B OR C))" "0x8F1BBCDC"]
      s3 [of 60 "\<lambda>B C D. B XOR C XOR D" "0xCA62C1D6"] sha_fk(2-4) by simp
  ultimately show ?thesis by simp
qed

lemma SHA1_Transform_eq: "length (sha_buf ctx) = 64 \<Longrightarrow> SHA1_Transform ctx = SHA1_transform ctx"
  by (simp add: SHA1_Transform_def SHA1_transform_def Let_def fast_rounds_eq schedule_def)

lemma SHA1_Transform_compressing: "compressing SHA1_Transform"
  using SHA1_transform_compressing by (simp add: compressing_def SHA1_Transform_eq)

lemma block_rep_fill:
  assumes "block_rep msg ctx" "i = length msg mod 64" "compressing tr" "length blk = 64 - i"
  shows "block_rep (msg @ blk) (tr (ctx\<lparr>sha_buf := take i (sha_buf ctx) @ blk\<rparr>))"
    and "length (msg @ blk) mod 64 = 0"
proof -
  have st: "sha_state ctx = absorb sha_h0 msg" and t: "take i (sha_buf ctx) = tail64 msg" and i: "i < 64"
    using assms(1,2) by (simp_all add: block_rep_def)
  have len: "length (tail64 msg @ blk) = 64" using assms(2,4) i by simp
  have "length (msg @ blk) mod 64 = (length msg mod 64 + length blk) mod 64" by (simp add: mod_add_left_eq)
  then show z: "length (msg @ blk) mod 64 = 0" using assms(2,4) i by simp
  have "absorb sha_h0 (msg @ blk) = compress (sha_state ctx) (tail64 msg @ blk)"
    unfolding st absorb_tail [of _ msg blk] using absorb_block [OF len, of _ "[]"] by simp
  moreover have "tail64 (msg @ blk) = []" using length_tail64 [of "msg @ blk"] unfolding z by (simp only: length_0_conv)
  moreover have "tr (ctx\<lparr>sha_buf := tail64 msg @ blk\<rparr>) =
      ctx\<lparr>sha_buf := tail64 msg @ blk, sha_state := compress (sha_state ctx) (tail64 msg @ blk)\<rparr>"
    using assms(3) len unfolding compressing_def by simp
  ultimately show "block_rep (msg @ blk) (tr (ctx\<lparr>sha_buf := take i (sha_buf ctx) @ blk\<rparr>))"
    unfolding t block_rep_def z using len by simp
qed

lemma update_blocks_rep:
  "block_rep msg ctx \<Longrightarrow> i = length msg mod 64 \<Longrightarrow> update_blocks i p ctx = (j, q, ctx') \<Longrightarrow>
     \<exists>used. p = used @ q \<and> block_rep (msg @ used) ctx' \<and> j = length (msg @ used) mod 64"
proof (induction i p ctx arbitrary: msg rule: update_blocks.induct)
  case (1 i p ctx)
  show ?case
  proof (cases "i < 64 \<and> length p > 64 - i")
    case True
    let ?blk = "take (64 - i) p" and ?c = "SHA1_Transform (ctx\<lparr>sha_buf := take i (sha_buf ctx) @ take (64 - i) p\<rparr>)"
    have l: "length ?blk = 64 - i" using True by simp
    note f = block_rep_fill [OF 1(2,3) SHA1_Transform_compressing l]
    have "update_blocks 0 (drop (64 - i) p) ?c = (j, q, ctx')" using 1(4) True by (subst (asm) update_blocks.simps) simp
    from 1(1) [OF True f(1) f(2) [symmetric] this] obtain used where
      "drop (64 - i) p = used @ q" "block_rep ((msg @ ?blk) @ used) ctx'" "j = length ((msg @ ?blk) @ used) mod 64" by blast
    then show ?thesis by (intro exI [of _ "?blk @ used"]) (simp, metis append_take_drop_id append.assoc)
  next
    case False
    have "update_blocks i p ctx = (i, p, ctx)" by (subst update_blocks.simps) (simp only: False if_False)
    then show ?thesis using 1(2-4) by simp
  qed
qed

lemma SHA_update_le_rep:
  assumes "sha_rep msg ctx"
  shows "sha_rep (msg @ data) (SHA_update_le data ctx)"
proof -
  let ?c = "ctx\<lparr>sha_count := sha_count ctx + of_nat (length data)\<rparr>"
  have c: "sha_count ctx = of_nat (length msg)" using assms by (simp add: sha_rep_def)
  obtain i p c' where u: "update_blocks (unat (sha_count ctx mod 64)) data ?c = (i, p, c')" by (metis prod_cases3)
  have "block_rep msg ?c" using assms by (simp add: sha_rep_def block_rep_def)
  moreover have "unat (sha_count ctx mod 64) = length msg mod 64" unfolding c by (rule unat_count_mod)
  ultimately obtain used where d: "data = used @ p" and b: "block_rep (msg @ used) c'" and i: "i = length (msg @ used) mod 64"
    using update_blocks_rep [OF _ _ u] by blast
  have "block_rep (msg @ data) (SHA_update_le data ctx)"
    using update_bytes_rep [OF b i SHA1_Transform_compressing, of p] u by (simp add: SHA_update_le_def d)
  then show ?thesis using c by (simp add: sha_rep_def SHA_update_le_count)
qed

interpretation little: digest SHA_update_le SHA_pad_le SHA_final_le
proof
  show "SHA_pad_le ctx = (if sha_count ctx mod 64 \<noteq> 56 then SHA_pad_le (SHA_update_le [0] ctx) else ctx)" for ctx
    by (rule SHA_pad_le.simps)
qed (simp_all add: SHA_update_le_rep SHA_final_le_def Let_def bswap_32_store)

lemma SHA_init_rep: "length (sha_buf ctx) = 64 \<Longrightarrow> sha_rep [] (SHA_init ctx)"
  by (simp add: sha_rep_def block_rep_def SHA_init_def tail64_def)

text \<open>C4: however a message is cut into the pieces given to \<open>SHA_update\<close>, and whatever the context held before \<open>SHA_init\<close>,
  \<open>SHA_final\<close> leaves at the start of the buffer the reference digest of the whole message: SHA-1 of the padded message, block
  by block. This is so for both versions of the file, the plain one and the unrolled one.\<close>

theorem SHA_streaming:
  assumes "length (sha_buf ctx) = 64"
  shows "take 20 (sha_buf (SHA_final (fold SHA_update chunks (SHA_init ctx)))) = sha1 (concat chunks) \<and>
    take 20 (sha_buf (SHA_final_le (fold SHA_update_le chunks (SHA_init ctx)))) = sha1 (concat chunks)"
  using plain.finish_sha1 [OF plain.fold_update_rep [OF SHA_init_rep [OF assms], of chunks]]
    little.finish_sha1 [OF little.fold_update_rep [OF SHA_init_rep [OF assms], of chunks]] by simp_all

theorem SHA_streaming_witness:
  "length (sha_buf \<lparr>sha_count = 5, sha_state = [], sha_buf = replicate 64 7\<rparr>) = 64 \<and>
   take 20 (sha_buf (SHA_final (fold SHA_update [[97], [], [98, 99]] (SHA_init \<lparr>sha_count = 5, sha_state = [], sha_buf = replicate 64 7\<rparr>)))) =
     sha1 [97, 98, 99]"
  using SHA_streaming [of "\<lparr>sha_count = 5, sha_state = [], sha_buf = replicate 64 7\<rparr>" "[[97], [], [98, 99]]"]
  by (simp only: SHA_CTX.simps length_replicate concat.simps append.simps simp_thms)

lemma SHA_sha1: "length (sha_buf ctx) = 64 \<Longrightarrow> SHA ctx data = sha1 data"
  using plain.finish_sha1 [OF plain.update_rep [OF SHA_init_rep]] by (simp add: SHA_def)

lemma SHA_le_sha1: "length (sha_buf ctx) = 64 \<Longrightarrow> SHA_le ctx data = sha1 data"
  using little.finish_sha1 [OF little.update_rep [OF SHA_init_rep]] by (simp add: SHA_le_def)

end
