(* ===== verification/MinRsa.thy ===== *)
theory MinRsa
  imports MinSha
begin

text \<open>
  Signature verification of the debug bridge, \<^verbatim>\<open>libmincrypt/rsa.c\<close>, \<^verbatim>\<open>rsa_e_3.c\<close> and \<^verbatim>\<open>rsa_e_f4.c\<close>:
  Montgomery arithmetic on arrays of 32-bit words with 64-bit accumulators, the public exponents
  3 and 65537, and the comparison with the expected padding. The arithmetic is the same text in the
  two files; it is modelled once. An array is the list of its words, lowest first, and a loop over
  the \<^verbatim>\<open>key->len\<close> words of it is a recursion over the list: both verification functions refuse a key
  whose length is not that of the arrays before they call anything.
\<close>

unbundle bit_operations_syntax

section \<open>Keys and multi-word arithmetic\<close>

record RSAPublicKey =
  rk_len :: int
  rk_n0inv :: u32
  rk_n :: "u32 list"
  rk_rr :: "u32 list"
  rk_exponent :: int

text \<open>\<open>A\<close> is signed: the difference is added modulo \<open>2 ^ 64\<close> and the shift keeps the sign.\<close>

fun sub_loop :: "u64 \<Rightarrow> u32 list \<Rightarrow> u32 list \<Rightarrow> u32 list" where
  "sub_loop A (x # a) (y # n) =
     (let A = A + (ucast x - ucast y) in ucast A # sub_loop (signed_drop_bit 32 A) a n)"
| "sub_loop A a n = a"

definition subM :: "RSAPublicKey \<Rightarrow> u32 list \<Rightarrow> u32 list" where
  "subM key a = sub_loop 0 a (rk_n key)"

text \<open>The comparison, from the highest word down.\<close>

fun ge_loop :: "u32 list \<Rightarrow> u32 list \<Rightarrow> bool" where
  "ge_loop (x # a) (y # n) = (if x < y then False else if x > y then True else ge_loop a n)"
| "ge_loop a n = True"

definition geM :: "RSAPublicKey \<Rightarrow> u32 list \<Rightarrow> bool" where
  "geM key a = ge_loop (rev a) (rev (rk_n key))"

text \<open>The words from index 1 on: what is stored, and the two accumulators after the loop.\<close>

fun mma_loop :: "u32 \<Rightarrow> u32 \<Rightarrow> u64 \<Rightarrow> u64 \<Rightarrow> u32 list \<Rightarrow> u32 list \<Rightarrow> u32 list \<Rightarrow> u32 list \<times> u64 \<times> u64" where
  "mma_loop a d0 A B (bi # b) (ci # c) (ni # n) =
     (let A = drop_bit 32 A + ucast a * ucast bi + ucast ci;
          B = drop_bit 32 B + ucast d0 * ucast ni + ucast (ucast A :: u32);
          (out, A', B') = mma_loop a d0 A B b c n
      in (ucast B # out, A', B'))"
| "mma_loop a d0 A B b c n = ([], A, B)"

definition montMulAdd :: "RSAPublicKey \<Rightarrow> u32 list \<Rightarrow> u32 \<Rightarrow> u32 list \<Rightarrow> u32 list" where
  "montMulAdd key c a b =
     (let A = ucast a * ucast (b ! 0) + ucast (c ! 0) :: u64;
          d0 = ucast A * rk_n0inv key;
          B = ucast d0 * ucast (rk_n key ! 0) + ucast (ucast A :: u32) :: u64;
          (out, A, B) = mma_loop a d0 A B (tl b) (tl c) (tl (rk_n key));
          A = drop_bit 32 A + drop_bit 32 B;
          c = out @ [ucast A]
      in if drop_bit 32 A \<noteq> 0 then subM key c else c)"

definition montMul :: "RSAPublicKey \<Rightarrow> u32 list \<Rightarrow> u32 list \<Rightarrow> u32 list" where
  "montMul key a b = fold (\<lambda>ai c. montMulAdd key c ai b) a (replicate (nat (rk_len key)) 0)"

section \<open>Exponentiation\<close>

definition words_of :: "nat \<Rightarrow> bytes \<Rightarrow> u32 list" where
  "words_of len inout = map (\<lambda>i. be_word (take 4 (drop ((len - 1 - i) * 4) inout))) [0..<len]"

definition bytes_of :: "u32 list \<Rightarrow> bytes" where
  "bytes_of a = concat (map be_bytes32 (rev a))"

definition reduce_once :: "RSAPublicKey \<Rightarrow> u32 list \<Rightarrow> u32 list" where
  "reduce_once key aaa = (if geM key aaa then subM key aaa else aaa)"

definition modpowF4 :: "RSAPublicKey \<Rightarrow> bytes \<Rightarrow> bytes" where
  "modpowF4 key inout =
     (let a = words_of (nat (rk_len key)) inout;
          aR = montMul key a (rk_rr key);
          aR = ((\<lambda>aR. let aaR = montMul key aR aR in montMul key aaR aaR) ^^ 8) aR;
          aaa = montMul key aR a
      in bytes_of (reduce_once key aaa))"

definition modpow3 :: "RSAPublicKey \<Rightarrow> bytes \<Rightarrow> bytes" where
  "modpow3 key inout =
     (let a = words_of (nat (rk_len key)) inout;
          aR = montMul key a (rk_rr key);
          aaR = montMul key aR aR;
          aaa = montMul key aaR a
      in bytes_of (reduce_once key aaa))"

section \<open>Verification\<close>

definition RSANUMWORDS :: nat where "RSANUMWORDS = 64"
definition RSANUMBYTES :: nat where "RSANUMBYTES = 256"
definition SHA_DIGEST_SIZE :: nat where "SHA_DIGEST_SIZE = 20"

definition padding :: bytes where
  "padding = [0x00, 0x01] @ replicate 218 0xff @
     [0x00, 0x30, 0x21, 0x30, 0x09, 0x06, 0x05, 0x2b, 0x0e, 0x03, 0x02, 0x1a, 0x05, 0x00, 0x04, 0x14]"

definition kExpectedPadShaRsa2048 :: bytes where
  "kExpectedPadShaRsa2048 =
     [0xdc, 0xbd, 0xbe, 0x42, 0xd5, 0xf5, 0xa7, 0x2e, 0x6e, 0xfc,
      0xf5, 0x5d, 0xaf, 0x9d, 0xea, 0x68, 0x7c, 0xfb, 0xf1, 0x67]"

definition RSA_e_3_verify :: "RSAPublicKey \<Rightarrow> bytes \<Rightarrow> int \<Rightarrow> bytes \<Rightarrow> int" where
  "RSA_e_3_verify key signature len sha =
     (if rk_len key \<noteq> int RSANUMWORDS then 0
      else if len \<noteq> int RSANUMBYTES then 0
      else if rk_exponent key \<noteq> 3 then 0
      else
        let buf = modpow3 key (take (nat len) signature)
        in if list_ex (\<lambda>i. buf ! i \<noteq> padding ! i) [0..<length padding] then 0
           else if list_ex (\<lambda>i. buf ! i \<noteq> sha ! (i - length padding)) [length padding..<nat len] then 0
           else 1)"

text \<open>\<open>ctx\<close> is the digest context \<open>SHA\<close> has on its stack.\<close>

definition RSA_e_f4_verify :: "SHA_CTX \<Rightarrow> RSAPublicKey \<Rightarrow> bytes \<Rightarrow> int \<Rightarrow> bytes \<Rightarrow> int" where
  "RSA_e_f4_verify ctx key signature len sha =
     (if rk_len key \<noteq> int RSANUMWORDS then 0
      else if len \<noteq> int RSANUMBYTES then 0
      else if rk_exponent key \<noteq> 65537 then 0
      else
        let buf = modpowF4 key (take (nat len) signature);
            k = nat len - SHA_DIGEST_SIZE;
            buf = take k buf @ map2 (XOR) (drop k buf) sha;
            buf = SHA ctx buf @ drop SHA_DIGEST_SIZE buf
        in if list_ex (\<lambda>i. buf ! i \<noteq> kExpectedPadShaRsa2048 ! i) [0..<SHA_DIGEST_SIZE] then 0 else 1)"

definition RSA_verify :: "SHA_CTX \<Rightarrow> RSAPublicKey \<Rightarrow> bytes \<Rightarrow> int \<Rightarrow> bytes \<Rightarrow> int" where
  "RSA_verify ctx key signature len sha =
     (if rk_exponent key = 3 then RSA_e_3_verify key signature len sha
      else if rk_exponent key = 65537 then RSA_e_f4_verify ctx key signature len sha
      else 0)"

section \<open>The number an array stands for\<close>

fun val :: "u32 list \<Rightarrow> int" where
  "val [] = 0"
| "val (w # ws) = uint w + 2 ^ 32 * val ws"

lemma val_ge_0 [simp]: "0 \<le> val ws"
  by (induction ws) auto

lemma val_append: "val (xs @ ys) = val xs + (2 ^ 32) ^ length xs * val ys"
  by (induction xs) (simp_all add: distrib_left)

lemma val_less: "val ws < (2 ^ 32) ^ length ws"
proof (induction ws)
  case (Cons w ws)
  have "uint w < 2 ^ 32" using uint_lt2p [of w] by simp
  moreover have "2 ^ 32 * (val ws + 1) \<le> 2 ^ 32 * (2 ^ 32) ^ length ws" using Cons by (intro mult_left_mono) simp_all
  ultimately show ?case by simp
qed simp

lemma mod_digit:
  fixes r b z m :: int
  assumes "0 \<le> r" "r < b" "0 < m"
  shows "r + b * (z mod m) = (r + b * z) mod (b * m)"
proof -
  have "(r + b * z) div b = z" "(r + b * z) mod b = r" using assms by auto
  then show ?thesis using assms by (simp add: zmod_zmult2_eq)
qed

lemma val_sub_loop:
  "length a = length n \<Longrightarrow> sint A = 0 \<or> sint A = -1 \<Longrightarrow>
     val (sub_loop A a n) = (val a - val n + sint A) mod (2 ^ 32) ^ length a"
proof (induction a n arbitrary: A rule: list_induct2)
  case (Cons x a y n)
  let ?A = "A + (ucast x - ucast y)" and ?s = "uint x - uint y + sint A"
  have x: "0 \<le> uint x" "uint x \<le> 4294967295" "0 \<le> uint y" "uint y \<le> 4294967295" "- 1 \<le> sint A" "sint A \<le> 0"
    using uint_lt2p [of x] uint_lt2p [of y] Cons.prems by auto
  then have r: "- 4294967296 \<le> ?s" "?s < 4294967296" by linarith+
  have w: "?A = word_of_int ?s" by simp
  have s: "sint ?A = ?s" unfolding w sint_sbintrunc' by (rule signed_take_bit_int_eq_self) (use r in simp_all)
  have d: "sint (signed_drop_bit 32 ?A) = ?s div 2 ^ 32" by (simp add: sint_signed_drop_bit_eq s drop_bit_eq_div)
  have "?s div 2 ^ 32 = 0 \<or> ?s div 2 ^ 32 = -1"
  proof (cases "0 \<le> ?s")
    case False
    then have "(?s + 1 * 2 ^ 32) div 2 ^ 32 = 0" using r by (intro div_pos_pos_trivial) simp_all
    then show ?thesis by (subst (asm) div_mult_self1) simp_all
  qed (use r in simp)
  then have "val (sub_loop (signed_drop_bit 32 ?A) a n) = (val a - val n + ?s div 2 ^ 32) mod (2 ^ 32) ^ length a"
    using Cons.IH d by simp
  moreover have "uint (ucast ?A :: u32) = ?s mod 2 ^ 32" unfolding w unsigned_ucast_eq uint_word_of_int take_bit_eq_mod by (simp add: mod_mod_cancel)
  ultimately have "val (sub_loop A (x # a) (y # n)) = ?s mod 2 ^ 32 + 2 ^ 32 * ((val a - val n + ?s div 2 ^ 32) mod (2 ^ 32) ^ length a)"
    by (simp add: Let_def)
  also have "\<dots> = (?s mod 2 ^ 32 + 2 ^ 32 * (val a - val n + ?s div 2 ^ 32)) mod (2 ^ 32 * (2 ^ 32) ^ length a)"
    by (rule mod_digit) simp_all
  also have "?s mod 2 ^ 32 + 2 ^ 32 * (val a - val n + ?s div 2 ^ 32) = val (x # a) - val (y # n) + sint A"
    using mod_mult_div_eq [of ?s "2 ^ 32"] by (simp add: algebra_simps)
  finally show ?case by simp
qed simp

lemma ge_loop_val: "length a = length n \<Longrightarrow> ge_loop a n \<longleftrightarrow> val (rev n) \<le> val (rev a)"
proof (induction a n rule: list_induct2)
  case (Cons x a y n)
  let ?M = "(2 ^ 32 :: int) ^ length a"
  have l: "length (rev n) = length (rev a)" using Cons.hyps by simp
  have b: "0 \<le> val (rev a)" "val (rev a) < ?M" "0 \<le> val (rev n)" "val (rev n) < ?M"
    using val_less [of "rev a"] val_less [of "rev n"] l by simp_all
  have v: "val (rev (x # a)) = val (rev a) + ?M * uint x" "val (rev (y # n)) = val (rev n) + ?M * uint y"
    using Cons.hyps by (simp_all add: val_append)
  consider "x < y" | "y < x" | "x = y" by (meson linorder_less_linear)
  then show ?case
  proof cases
    case 1
    then have "?M * (uint x + 1) \<le> ?M * uint y" by (intro mult_left_mono) (simp_all add: word_less_def)
    then have "val (rev (x # a)) < val (rev (y # n))" unfolding v distrib_left mult_1_right using b by linarith
    then show ?thesis using 1 by (simp del: rev.simps)
  next
    case 2
    then have "?M * (uint y + 1) \<le> ?M * uint x" by (intro mult_left_mono) (simp_all add: word_less_def)
    then have "val (rev (y # n)) < val (rev (x # a))" unfolding v distrib_left mult_1_right using b by linarith
    then show ?thesis using 2 by (auto simp del: rev.simps)
  next
    case 3
    then show ?thesis unfolding v using Cons.IH by simp
  qed
qed simp

text \<open>The accumulators hold their sums: nothing wraps.\<close>

lemma accumulate:
  fixes A :: u64 and a b c :: u32
  shows "uint (drop_bit 32 A + ucast a * ucast b + ucast c) = uint A div 2 ^ 32 + uint a * uint b + uint c"
proof -
  have "uint A < 2 ^ 64" using uint_lt2p [of A] by simp
  then have A: "0 \<le> uint A div 2 ^ 32" "uint A div 2 ^ 32 \<le> 2 ^ 32 - 1" by (simp_all add: div_int_pos_iff)
  have x: "0 \<le> uint w" "uint w \<le> 2 ^ 32 - 1" for w :: u32 using uint_lt2p [of w] by simp_all
  have "uint a * uint b \<le> (2 ^ 32 - 1) * (2 ^ 32 - 1)" by (intro mult_mono x) simp
  then have s: "uint A div 2 ^ 32 + uint a * uint b + uint c < 2 ^ 64" using A x [of c] by simp
  have p: "0 \<le> uint a * uint b" by simp
  have w: "drop_bit 32 A + ucast a * ucast b + ucast c = word_of_int (uint A div 2 ^ 32 + uint a * uint b + uint c)"
    by (rule word_uint_eqI) (simp add: uint_word_ariths uint_word_of_int unsigned_drop_bit_eq drop_bit_eq_div take_bit_eq_mod unsigned_ucast_eq mod_simps uint_div)
  show ?thesis unfolding w uint_word_of_int by (rule mod_pos_pos_trivial) (use s A(1) x(1) p in simp_all)
qed

lemma uint_low: "uint (ucast (w :: u64) :: u32) = uint w mod 2 ^ 32"
  by (simp add: unsigned_ucast_eq take_bit_eq_mod)

lemma length_mma_loop: "length b = length n \<Longrightarrow> length c = length n \<Longrightarrow> length (fst (mma_loop a d0 A B b c n)) = length n"
  by (induction a d0 A B b c n rule: mma_loop.induct) (auto simp: Let_def split: prod.splits)

lemma mma_loop_val:
  "length b = length n \<Longrightarrow> length c = length n \<Longrightarrow> mma_loop a d0 A B b c n = (out, A', B') \<Longrightarrow>
     val out + (2 ^ 32) ^ length n * (uint A' div 2 ^ 32 + uint B' div 2 ^ 32) =
     uint A div 2 ^ 32 + uint B div 2 ^ 32 + uint a * val b + uint d0 * val n + val c"
proof (induction a d0 A B b c n arbitrary: out A' B' rule: mma_loop.induct)
  case (1 a d0 A B bi b ci c ni n)
  let ?A = "drop_bit 32 A + ucast a * ucast bi + ucast ci"
  let ?B = "drop_bit 32 B + ucast d0 * ucast ni + ucast (ucast ?A :: u32)"
  obtain o' where o: "mma_loop a d0 ?A ?B b c n = (o', A', B')" "out = ucast ?B # o'"
    using 1(4) by (auto simp: Let_def split: prod.splits)
  define x where "x = uint ?A"
  define y where "y = uint ?B"
  define H where "H = uint A' div 2 ^ 32 + uint B' div 2 ^ 32"
  have x: "x = uint A div 2 ^ 32 + uint a * uint bi + uint ci" unfolding x_def by (rule accumulate)
  have y: "y = uint B div 2 ^ 32 + uint d0 * uint ni + x mod 2 ^ 32" unfolding x_def y_def accumulate uint_low ..
  have ih: "val o' + (2 ^ 32) ^ length n * H = x div 2 ^ 32 + y div 2 ^ 32 + uint a * val b + uint d0 * val n + val c"
    unfolding x_def y_def H_def by (rule 1(1) [OF refl refl]) (use 1(2,3) o(1) in simp_all)
  have "val out = y mod 2 ^ 32 + 2 ^ 32 * val o'" unfolding o(2) val.simps uint_low y_def ..
  then have "val out + (2 ^ 32) ^ length (ni # n) * H = y mod 2 ^ 32 + 2 ^ 32 * (val o' + (2 ^ 32) ^ length n * H)"
    by (simp add: distrib_left)
  also have "\<dots> = (y mod 2 ^ 32 + 2 ^ 32 * (y div 2 ^ 32)) + 2 ^ 32 * (x div 2 ^ 32) + 2 ^ 32 * (uint a * val b + uint d0 * val n + val c)"
    unfolding ih by (simp add: distrib_left)
  also have "\<dots> = uint B div 2 ^ 32 + uint d0 * uint ni + (x mod 2 ^ 32 + 2 ^ 32 * (x div 2 ^ 32))
      + 2 ^ 32 * (uint a * val b + uint d0 * val n + val c)" unfolding mod_mult_div_eq y by simp
  also have "\<dots> = uint A div 2 ^ 32 + uint B div 2 ^ 32 + uint a * val (bi # b) + uint d0 * val (ni # n) + val (ci # c)"
    unfolding mod_mult_div_eq x by (simp add: algebra_simps)
  finally show ?case unfolding H_def .
qed simp_all

text \<open>What Montgomery multiplication needs of a key: \<open>k\<close> words, and \<open>n0inv\<close> as its comment says.\<close>

definition mont_key :: "RSAPublicKey \<Rightarrow> nat \<Rightarrow> bool" where
  "mont_key key k \<longleftrightarrow> 0 < k \<and> rk_len key = int k \<and> length (rk_n key) = k \<and> rk_n key ! 0 * rk_n0inv key = - 1"

lemma low_word_cancels:
  fixes A :: u64 and n0 n0inv :: u32
  assumes "n0 * n0inv = - 1"
  shows "(uint (ucast A * n0inv) * uint n0 + uint A mod 2 ^ 32) mod 2 ^ 32 = 0"
proof -
  have "(ucast A * n0inv) * n0 + ucast A = ucast A * (n0 * n0inv) + (ucast A :: u32)" by (simp add: ac_simps)
  then have z: "(ucast A * n0inv) * n0 + ucast A = (0 :: u32)" unfolding assms by simp
  have "uint (d * n0 + x) = (uint d * uint n0 + uint x) mod 2 ^ 32" for d x :: u32
    by (simp add: uint_word_ariths mod_simps)
  from this [of "ucast A * n0inv" "ucast A"] show ?thesis unfolding z uint_low by simp
qed

text \<open>One step before the last word is stored: an exact division by \<open>2 ^ 32\<close>.\<close>

lemma mma_exact:
  assumes "n0 * n0inv = - 1" "length b = length n" "length c = length n"
    and "A0 = ucast a * ucast b0 + ucast c0" "d0 = ucast A0 * n0inv" "B0 = ucast d0 * ucast n0 + ucast (ucast A0 :: u32)"
    and "mma_loop a d0 A0 B0 b c n = (out, A', B')"
  shows "2 ^ 32 * (val out + (2 ^ 32) ^ length n * (uint A' div 2 ^ 32 + uint B' div 2 ^ 32)) =
     uint a * val (b0 # b) + val (c0 # c) + uint d0 * val (n0 # n)"
proof -
  have A: "uint A0 = uint a * uint b0 + uint c0" using accumulate [of 0 a b0 c0] unfolding assms(4) by simp
  have B: "uint B0 = uint d0 * uint n0 + uint A0 mod 2 ^ 32"
    using accumulate [of 0 d0 n0 "ucast A0"] unfolding assms(6) by (simp add: uint_low)
  then have "uint B0 mod 2 ^ 32 = 0" using low_word_cancels [OF assms(1), of A0] unfolding assms(5) by simp
  then have b: "2 ^ 32 * (uint B0 div 2 ^ 32) = uint B0" using mod_mult_div_eq [of "uint B0" "2 ^ 32"] by simp
  have a: "2 ^ 32 * (uint A0 div 2 ^ 32) = uint A0 - uint A0 mod 2 ^ 32" by (simp only: minus_mod_eq_mult_div)
  have "2 ^ 32 * (uint A0 div 2 ^ 32 + uint B0 div 2 ^ 32 + uint a * val b + uint d0 * val n + val c) =
      uint A0 + uint d0 * uint n0 + 2 ^ 32 * (uint a * val b + uint d0 * val n + val c)"
    unfolding distrib_left a b unfolding B by simp
  then show ?thesis unfolding mma_loop_val [OF assms(2,3,7)] A by (simp add: algebra_simps)
qed

lemma high_sum:
  fixes A B :: u64
  shows "uint (drop_bit 32 A + drop_bit 32 B) = uint A div 2 ^ 32 + uint B div 2 ^ 32" "uint A div 2 ^ 32 + uint B div 2 ^ 32 \<le> 2 * (2 ^ 32 - 1)"
proof -
  have h: "0 \<le> uint X div 2 ^ 32" "uint X div 2 ^ 32 \<le> 2 ^ 32 - 1" "uint (drop_bit 32 X) = uint X div 2 ^ 32" for X :: u64
    using uint_lt2p [of X] by (simp_all add: div_int_pos_iff drop_bit_eq_div uint_div)
  show s: "uint A div 2 ^ 32 + uint B div 2 ^ 32 \<le> 2 * (2 ^ 32 - 1)" using add_mono [OF h(2) [of A] h(2) [of B]] by simp
  have "0 \<le> uint A div 2 ^ 32 + uint B div 2 ^ 32" "uint A div 2 ^ 32 + uint B div 2 ^ 32 < 2 ^ 64" using h(1) [of A] h(1) [of B] s by simp_all
  then show "uint (drop_bit 32 A + drop_bit 32 B) = uint A div 2 ^ 32 + uint B div 2 ^ 32"
    unfolding uint_word_ariths h(3) by simp
qed

text \<open>A sum that is below \<open>R + n\<close>: without the word that carries, and less \<open>n\<close> if it carried.\<close>

lemma carry_fixed:
  fixes X H R n :: int
  assumes "X = lo + m * H" "0 \<le> lo" "lo < m" "R = 2 ^ 32 * m" "0 \<le> n" "n < R" "X < R + n" "0 \<le> H" "H \<le> 2 * (2 ^ 32 - 1)"
  shows "H div 2 ^ 32 = 0 \<Longrightarrow> lo + m * (H mod 2 ^ 32) = X"
    and "H div 2 ^ 32 \<noteq> 0 \<Longrightarrow> (lo + m * (H mod 2 ^ 32) - n) mod R = X - n"
proof -
  have d: "H mod 2 ^ 32 = H - 2 ^ 32 * (H div 2 ^ 32)" by (rule minus_mult_div_eq_mod [symmetric])
  show "H div 2 ^ 32 = 0 \<Longrightarrow> lo + m * (H mod 2 ^ 32) = X" unfolding d assms(1) by simp
  assume c: "H div 2 ^ 32 \<noteq> 0"
  have "0 \<le> H div 2 ^ 32" "H div 2 ^ 32 < 2" using assms(8,9) by (simp_all add: div_int_pos_iff)
  with c have "H div 2 ^ 32 = 1" by linarith
  then have e: "lo + m * (H mod 2 ^ 32) = X - R" unfolding d assms(1,4) by (simp add: right_diff_distrib)
  have "0 \<le> m * (H mod 2 ^ 32)" using assms(2,3) by simp
  then have "0 \<le> X - n" "X - n < R" using e assms(2,6,7) by linarith+
  then have "(X - n) mod R = X - n" by simp
  moreover have "X - R - n = X - n - 1 * R" by simp
  ultimately show "(lo + m * (H mod 2 ^ 32) - n) mod R = X - n" unfolding e by (simp only: minus_mod_self2 mult_1)
qed

lemma length_sub_loop [simp]: "length (sub_loop A a n) = length a"
  by (induction A a n rule: sub_loop.induct) (simp_all add: Let_def)

lemma uint_word_max: "uint (w :: u32) \<le> 4294967295"
  using uint_lt2p [of w] by simp

lemma mont_bound:
  fixes X :: int
  assumes "2 ^ 32 * X = a * b + c + d * n" "0 \<le> a" "a \<le> 2 ^ 32 - 1" "0 \<le> b" "b < R" "c < R" "d \<le> 2 ^ 32 - 1" "0 \<le> n"
  shows "X < R + n"
proof -
  have "a * b \<le> (2 ^ 32 - 1) * (R - 1)" using assms by (intro mult_mono) simp_all
  moreover have "d * n \<le> (2 ^ 32 - 1) * n" using assms by (intro mult_right_mono) simp_all
  ultimately show ?thesis using assms(1,6,8) by simp
qed

lemma montMulAdd_val:
  assumes k: "mont_key key k" and "length b = k" "length c = k"
  shows "length (montMulAdd key c a b) = k"
    and "\<exists>q. 2 ^ 32 * val (montMulAdd key c a b) = val c + uint a * val b + q * val (rk_n key)"
proof -
  obtain n0 n where n: "rk_n key = n0 # n" "length n = k - 1" and n0: "n0 * rk_n0inv key = - 1"
    using k by (cases "rk_n key") (auto simp: mont_key_def)
  obtain b0 b' where b: "b = b0 # b'" "length b' = length n" using k assms(2) n(2) by (cases b) (auto simp: mont_key_def)
  obtain c0 c' where c: "c = c0 # c'" "length c' = length n" using k assms(3) n(2) by (cases c) (auto simp: mont_key_def)
  define A0 :: u64 where "A0 = ucast a * ucast b0 + ucast c0"
  define d0 where "d0 = ucast A0 * rk_n0inv key"
  define B0 :: u64 where "B0 = ucast d0 * ucast n0 + ucast (ucast A0 :: u32)"
  obtain out A B where l: "mma_loop a d0 A0 B0 b' c' n = (out, A, B)" by (metis prod_cases3)
  define H where "H = uint A div 2 ^ 32 + uint B div 2 ^ 32"
  define m where "m = (2 ^ 32 :: int) ^ length n"
  define X where "X = val out + m * H"
  have lo: "length out = length n" using length_mma_loop [OF b(2) c(2), of a d0 A0 B0] by (simp add: l)
  let ?w = "drop_bit 32 A + drop_bit 32 B"
  have w: "uint ?w = H" "H \<le> 2 * (2 ^ 32 - 1)" unfolding H_def by (rule high_sum)+
  have ex: "2 ^ 32 * X = uint a * val b + val c + uint d0 * val (rk_n key)"
    unfolding X_def m_def H_def b(1) c(1) n(1) by (rule mma_exact [OF n0 b(2) c(2) A0_def d0_def B0_def l])
  have R: "(2 ^ 32) ^ k = 2 ^ 32 * m" using k n(2) by (cases k) (simp_all add: m_def mont_key_def)
  have m: "montMulAdd key c a b = (if H div 2 ^ 32 \<noteq> 0 then subM key (out @ [ucast ?w]) else out @ [ucast ?w])"
  proof -
    have "drop_bit 32 ?w \<noteq> 0 \<longleftrightarrow> H div 2 ^ 32 \<noteq> 0" unfolding w(1) [symmetric] by (simp add: word_uint_eq_iff drop_bit_eq_div uint_div)
    then show ?thesis unfolding montMulAdd_def Let_def b(1) c(1) n(1) by (simp add: l flip: A0_def d0_def B0_def)
  qed
  have v: "val (out @ [ucast ?w]) = val out + m * (H mod 2 ^ 32)" by (simp add: val_append lo m_def uint_low w(1))
  show "length (montMulAdd key c a b) = k" using k n(2) lo by (simp add: m subM_def mont_key_def)
  have bnd: "val b < 2 ^ 32 * m" "val c < 2 ^ 32 * m" "val (rk_n key) < 2 ^ 32 * m"
    unfolding R [symmetric] using val_less [of b] val_less [of c] val_less [of "rk_n key"] assms(2,3) k by (simp_all add: mont_key_def)
  have XR: "X < 2 ^ 32 * m + val (rk_n key)" by (rule mont_bound [OF ex _ _ _ bnd(1) bnd(2)]) (simp_all add: uint_word_max)
  have lm: "val out < m" "0 \<le> H" using val_less [of out] lo by (simp_all add: m_def flip: w(1))
  note fixed = carry_fixed [OF X_def val_ge_0 lm(1) refl val_ge_0 bnd(3) XR lm(2) w(2)]
  show "\<exists>q. 2 ^ 32 * val (montMulAdd key c a b) = val c + uint a * val b + q * val (rk_n key)"
  proof (cases "H div 2 ^ 32 = 0")
    case True
    then have "val (montMulAdd key c a b) = val out + m * (H mod 2 ^ 32)" unfolding m using v by simp
    then have "val (montMulAdd key c a b) = X" unfolding fixed(1) [OF True] .
    then show ?thesis using ex by (intro exI [of _ "uint d0"]) simp
  next
    case False
    have "val (subM key (out @ [ucast ?w])) = (val (out @ [ucast ?w]) - val (rk_n key) + sint (0 :: u64)) mod (2 ^ 32) ^ length (out @ [ucast ?w :: u32])"
      unfolding subM_def by (rule val_sub_loop) (use lo n in simp_all)
    also have "\<dots> = (val out + m * (H mod 2 ^ 32) - val (rk_n key)) mod (2 ^ 32 * m)" unfolding v by (simp add: lo m_def)
    also have "\<dots> = X - val (rk_n key)" by (rule fixed(2) [OF False])
    finally have "val (montMulAdd key c a b) = X - val (rk_n key)" unfolding m using False by simp
    then show ?thesis using ex by (intro exI [of _ "uint d0 - 2 ^ 32"]) (simp add: algebra_simps)
  qed
qed

lemma fold_montMulAdd:
  assumes "mont_key key k" "length b = k"
  shows "length c = k \<Longrightarrow> length (fold (\<lambda>ai c. montMulAdd key c ai b) a c) = k \<and>
    (\<exists>q. (2 ^ 32) ^ length a * val (fold (\<lambda>ai c. montMulAdd key c ai b) a c) = val c + val a * val b + q * val (rk_n key))"
proof (induction a arbitrary: c)
  case Nil
  then show ?case by (auto intro: exI [of _ 0])
next
  case (Cons x a)
  let ?c = "montMulAdd key c x b" and ?f = "\<lambda>ai c. montMulAdd key c ai b"
  note m = montMulAdd_val [OF assms Cons.prems, of x]
  obtain q1 where q1: "2 ^ 32 * val ?c = val c + uint x * val b + q1 * val (rk_n key)" using m(2) by blast
  obtain q2 where q2: "(2 ^ 32) ^ length a * val (fold ?f a ?c) = val ?c + val a * val b + q2 * val (rk_n key)"
    using Cons.IH [OF m(1)] by blast
  have "(2 ^ 32) ^ length (x # a) * val (fold ?f (x # a) c) = 2 ^ 32 * ((2 ^ 32) ^ length a * val (fold ?f a ?c))" by simp
  also have "\<dots> = 2 ^ 32 * val ?c + 2 ^ 32 * (val a * val b) + 2 ^ 32 * (q2 * val (rk_n key))" unfolding q2 by (simp add: distrib_left)
  also have "\<dots> = val c + val (x # a) * val b + (q1 + 2 ^ 32 * q2) * val (rk_n key)" unfolding q1 by (simp add: algebra_simps)
  finally show ?case using Cons.IH [OF m(1)] by auto
qed

lemma val_replicate_0 [simp]: "val (replicate k 0) = 0"
  by (induction k) simp_all

lemma montMul_val:
  assumes "mont_key key k" "length a = k" "length b = k"
  shows "length (montMul key a b) = k"
    and "((2 ^ 32) ^ k * val (montMul key a b)) mod val (rk_n key) = (val a * val b) mod val (rk_n key)"
proof -
  have k: "nat (rk_len key) = k" using assms(1) by (simp add: mont_key_def)
  have "length (replicate k (0 :: u32)) = k" by simp
  note f = fold_montMulAdd [OF assms(1,3) this, of a]
  show "length (montMul key a b) = k" using f unfolding montMul_def k by blast
  obtain q where "(2 ^ 32) ^ k * val (montMul key a b) = val a * val b + q * val (rk_n key)"
    using f assms(2) unfolding montMul_def k val_replicate_0 by auto
  then show "((2 ^ 32) ^ k * val (montMul key a b)) mod val (rk_n key) = (val a * val b) mod val (rk_n key)" by simp
qed

lemma mont_key_odd: "mont_key key k \<Longrightarrow> odd (val (rk_n key))"
proof -
  assume k: "mont_key key k"
  then obtain n0 n where n: "rk_n key = n0 # n" and n0: "n0 * rk_n0inv key = - 1"
    by (cases "rk_n key") (auto simp: mont_key_def)
  have "uint (n0 * rk_n0inv key) = 2 ^ 32 - 1" unfolding n0 by (simp add: unsigned_minus_1_eq_mask mask_eq_exp_minus_1)
  then have e: "(uint n0 * uint (rk_n0inv key)) mod 2 ^ 32 = 2 ^ 32 - 1" by (simp add: uint_word_ariths)
  have "odd (uint n0)"
  proof
    assume "even (uint n0)"
    then have "even ((uint n0 * uint (rk_n0inv key)) mod 2 ^ 32)" by (simp add: dvd_mod_iff)
    then show False unfolding e by simp
  qed
  then show ?thesis unfolding n by simp
qed

lemma mont_cancel:
  assumes "mont_key key k" "((2 ^ 32) ^ k * x) mod val (rk_n key) = ((2 ^ 32) ^ k * y) mod val (rk_n key)"
  shows "x mod val (rk_n key) = y mod val (rk_n key)"
proof -
  have "coprime (val (rk_n key)) 2" using mont_key_odd [OF assms(1)] by (simp add: coprime_right_2_iff_odd)
  then have "coprime (val (rk_n key)) ((2 ^ 32) ^ k)" by (simp only: coprime_power_right_iff simp_thms)
  moreover have "val (rk_n key) dvd (2 ^ 32) ^ k * (x - y)" using assms(2) unfolding mod_eq_dvd_iff right_diff_distrib .
  ultimately have "val (rk_n key) dvd x - y" by (simp only: coprime_dvd_mult_right_iff)
  then show ?thesis unfolding mod_eq_dvd_iff .
qed

text \<open>Multiplication in Montgomery form.\<close>

lemma montMul_mod:
  assumes "mont_key key k" "length a = k" "length b = k" "(val a * val b) mod val (rk_n key) = ((2 ^ 32) ^ k * t) mod val (rk_n key)"
  shows "val (montMul key a b) mod val (rk_n key) = t mod val (rk_n key)"
  by (rule mont_cancel [OF assms(1)]) (simp only: montMul_val(2) [OF assms(1-3)] assms(4))

lemma montMul_square:
  assumes "mont_key key k" "length x = k" "val x mod val (rk_n key) = ((2 ^ 32) ^ k * y) mod val (rk_n key)"
  shows "val (montMul key x x) mod val (rk_n key) = ((2 ^ 32) ^ k * y ^ 2) mod val (rk_n key)"
proof (rule montMul_mod [OF assms(1,2,2)])
  have "(val x * val x) mod val (rk_n key) = (((2 ^ 32) ^ k * y) * ((2 ^ 32) ^ k * y)) mod val (rk_n key)"
    by (rule mod_mult_cong [OF assms(3,3)])
  then show "(val x * val x) mod val (rk_n key) = ((2 ^ 32) ^ k * ((2 ^ 32) ^ k * y ^ 2)) mod val (rk_n key)"
    by (simp only: power2_eq_square ac_simps)
qed

lemma squarings:
  assumes "mont_key key k" "length x = k" "val x mod val (rk_n key) = ((2 ^ 32) ^ k * y) mod val (rk_n key)"
  shows "length (((\<lambda>aR. let aaR = montMul key aR aR in montMul key aaR aaR) ^^ j) x) = k \<and>
    val (((\<lambda>aR. let aaR = montMul key aR aR in montMul key aaR aaR) ^^ j) x) mod val (rk_n key) = ((2 ^ 32) ^ k * y ^ 4 ^ j) mod val (rk_n key)"
proof (induction j)
  case (Suc j)
  let ?x = "((\<lambda>aR. let aaR = montMul key aR aR in montMul key aaR aaR) ^^ j) x"
  have l: "length ?x = k" and v: "val ?x mod val (rk_n key) = ((2 ^ 32) ^ k * y ^ 4 ^ j) mod val (rk_n key)" using Suc.IH by blast+
  have l1: "length (montMul key ?x ?x) = k" by (rule montMul_val(1) [OF assms(1) l l])
  note v2 = montMul_square [OF assms(1) l1 montMul_square [OF assms(1) l v]]
  have "((y ^ 4 ^ j)\<^sup>2)\<^sup>2 = y ^ 4 ^ Suc j" by (simp add: power_mult [symmetric] mult.commute)
  then show ?case using v2 montMul_val(1) [OF assms(1) l1 l1] by (simp add: Let_def)
qed (use assms in simp)

text \<open>The last multiplication leaves Montgomery form.\<close>

lemma montMul_leave:
  assumes "mont_key key k" "length x = k" "length a = k" "val x mod val (rk_n key) = ((2 ^ 32) ^ k * y) mod val (rk_n key)"
  shows "val (montMul key x a) mod val (rk_n key) = (y * val a) mod val (rk_n key)"
proof (rule montMul_mod [OF assms(1-3)])
  have "(val x * val a) mod val (rk_n key) = ((2 ^ 32) ^ k * y * val a) mod val (rk_n key)" by (rule mod_mult_cong [OF assms(4) refl])
  then show "(val x * val a) mod val (rk_n key) = ((2 ^ 32) ^ k * (y * val a)) mod val (rk_n key)" by (simp only: mult.assoc)
qed

text \<open>A key as the host tool writes it: \<open>rr\<close> is \<open>R\<^sup>2\<close> modulo the modulus, and the modulus has its top bit set.\<close>

definition key_ok :: "RSAPublicKey \<Rightarrow> nat \<Rightarrow> bool" where
  "key_ok key k \<longleftrightarrow> mont_key key k \<and> length (rk_rr key) = k \<and>
     val (rk_rr key) mod val (rk_n key) = ((2 ^ 32) ^ k * (2 ^ 32) ^ k) mod val (rk_n key) \<and> (2 ^ 32) ^ k \<le> 2 * val (rk_n key)"

lemma montMul_enter:
  assumes "key_ok key k" "length a = k"
  shows "val (montMul key a (rk_rr key)) mod val (rk_n key) = ((2 ^ 32) ^ k * val a) mod val (rk_n key)"
proof (rule montMul_mod)
  have "(val a * val (rk_rr key)) mod val (rk_n key) = (val a * ((2 ^ 32) ^ k * (2 ^ 32) ^ k)) mod val (rk_n key)"
    by (rule mod_mult_cong [OF refl]) (use assms in \<open>simp add: key_ok_def\<close>)
  then show "(val a * val (rk_rr key)) mod val (rk_n key) = ((2 ^ 32) ^ k * ((2 ^ 32) ^ k * val a)) mod val (rk_n key)" by (simp only: ac_simps)
qed (use assms in \<open>simp_all add: key_ok_def\<close>)

lemma reduce_once_val:
  assumes "key_ok key k" "length x = k"
  shows "val (reduce_once key x) = val x mod val (rk_n key)" and "length (reduce_once key x) = k"
proof -
  let ?n = "val (rk_n key)"
  have ln: "length (rk_n key) = k" and R: "(2 ^ 32) ^ k \<le> 2 * ?n" using assms(1) by (simp_all add: key_ok_def mont_key_def)
  have x: "0 \<le> val x" "val x < (2 ^ 32) ^ k" using val_less [of x] assms(2) by simp_all
  have g: "geM key x \<longleftrightarrow> ?n \<le> val x" using ge_loop_val [of "rev x" "rev (rk_n key)"] ln assms(2) by (simp add: geM_def)
  show "length (reduce_once key x) = k" by (simp add: reduce_once_def subM_def assms(2))
  show "val (reduce_once key x) = val x mod ?n"
  proof (cases "?n \<le> val x")
    case True
    then have b: "0 \<le> val x - ?n" "val x - ?n < (2 ^ 32) ^ k" "val x - ?n < ?n" using x R val_ge_0 [of "rk_n key"] by linarith+
    have "val (subM key x) = (val x - ?n + sint (0 :: u64)) mod (2 ^ 32) ^ length x"
      unfolding subM_def by (rule val_sub_loop) (use ln assms(2) in simp_all)
    also have "\<dots> = (val x - ?n) mod (2 ^ 32) ^ k" unfolding assms(2) by simp
    also have "\<dots> = val x - ?n" by (rule mod_pos_pos_trivial) (use b in blast)+
    also have "\<dots> = (val x - ?n) mod ?n" by (rule mod_pos_pos_trivial [symmetric]) (use b in blast)+
    also have "\<dots> = val x mod ?n" by (rule minus_mod_self2)
    finally show ?thesis using True g by (simp add: reduce_once_def)
  qed (use g x(1) in \<open>simp add: reduce_once_def\<close>)
qed

section \<open>Byte strings\<close>

fun be_val :: "bytes \<Rightarrow> int" where
  "be_val [] = 0"
| "be_val (b # bs) = uint b * 256 ^ length bs + be_val bs"

lemma be_val_append: "be_val (xs @ ys) = be_val xs * 256 ^ length ys + be_val ys"
  by (induction xs) (simp_all add: algebra_simps power_add)

lemma be_val_bounds: "0 \<le> be_val bs \<and> be_val bs < 256 ^ length bs"
proof (induction bs)
  case (Cons b bs)
  have "uint b + 1 \<le> 256" using uint_lt2p [of b] by simp
  then have "(uint b + 1) * 256 ^ length bs \<le> 256 * 256 ^ length bs" by (intro mult_right_mono) simp_all
  moreover have "0 \<le> uint b * 256 ^ length bs" by simp
  ultimately show ?case unfolding be_val.simps length_Cons power_Suc distrib_right mult_1 using Cons by (intro conjI) linarith+
qed simp

lemma be_val_inj: "length xs = length ys \<Longrightarrow> be_val xs = be_val ys \<Longrightarrow> xs = ys"
proof (induction xs ys rule: list_induct2)
  case (Cons x xs y ys)
  let ?M = "256 ^ length xs :: int"
  have e: "uint x * ?M + be_val xs = uint y * ?M + be_val ys" using Cons.prems Cons.hyps by simp
  have b: "be_val xs div ?M = 0" "be_val ys div ?M = 0" "be_val xs mod ?M = be_val xs" "be_val ys mod ?M = be_val ys"
    using be_val_bounds [of xs] be_val_bounds [of ys] Cons.hyps by simp_all
  have "(uint x * ?M + be_val xs) div ?M = uint x" "(uint y * ?M + be_val ys) div ?M = uint y" using b by simp_all
  then have "uint x = uint y" using e by simp
  moreover have "be_val xs = be_val ys" using e calculation by simp
  ultimately show ?case using Cons.IH by (simp add: word_uint_eq_iff)
qed simp

lemma be_val_be_bytes32: "be_val (be_bytes32 w) = uint w"
proof -
  have u: "uint (ucast (drop_bit n w) :: u8) = uint w div 2 ^ n mod 256" for n
    unfolding unsigned_ucast_eq unsigned_drop_bit_eq using uint_lt2p [of w] by (simp add: take_bit_eq_mod drop_bit_eq_div)
  define a where "a = uint w div 256"
  define b where "b = a div 256"
  define c where "c = b div 256"
  have d: "uint w div 2 ^ 8 = a" "uint w div 2 ^ 16 = b" "uint w div 2 ^ 24 = c"
    by (simp_all add: a_def b_def c_def zdiv_zmult2_eq [symmetric])
  have "0 \<le> c" "c < 256" using uint_lt2p [of w] unfolding d(3) [symmetric] by (simp_all add: div_int_pos_iff)
  then have c: "c mod 256 = c" by simp
  have "uint w = 256 * a + uint w mod 256" "a = 256 * b + a mod 256" "b = 256 * c + b mod 256" by (simp_all add: a_def b_def c_def)
  moreover have "be_val (be_bytes32 w) = c * 16777216 + (b mod 256) * 65536 + (a mod 256) * 256 + uint w mod 256"
    using u [of 24] u [of 16] u [of 8] u [of 0] unfolding d c by (simp add: be_bytes32_def)
  ultimately show ?thesis by linarith
qed

lemma be_bytes32_be_word: "length p = 4 \<Longrightarrow> be_bytes32 (be_word p) = p"
proof -
  assume "length p = 4"
  then obtain a b c d where p: "p = [a, b, c, d]" by (auto simp: numeral_eq_Suc length_Suc_conv)
  have "le_bytes 4 (bswap_32 (be_word p)) = rev (le_bytes 4 (be_word p))" unfolding bswap_32_def by (rule le_bytes_le_word) simp_all
  moreover have "le_bytes 4 (be_word p) = [d, c, b, a]" unfolding p be_word_rev by (rule le_bytes_le_word) simp_all
  ultimately show ?thesis by (simp add: p bswap_32_store)
qed

lemma uint_be_word: "length p = 4 \<Longrightarrow> uint (be_word p) = be_val p"
  using be_val_be_bytes32 [of "be_word p"] by (simp add: be_bytes32_be_word)

lemma words_of_Suc: "words_of (Suc k) p = words_of k (drop 4 p) @ [be_word (take 4 p)]"
proof -
  have "words_of (Suc k) p = map (\<lambda>i. be_word (take 4 (drop ((k - i) * 4) p))) [0..<k] @ [be_word (take 4 p)]"
    by (simp add: words_of_def)
  moreover have "(k - i) * 4 = (k - 1 - i) * 4 + 4" if "i < k" for i using that by simp
  ultimately show ?thesis by (simp add: words_of_def)
qed

lemma words_of_val: "length p = 4 * k \<Longrightarrow> length (words_of k p) = k \<and> val (words_of k p) = be_val p"
proof (induction k arbitrary: p)
  case (Suc k)
  let ?q = "drop 4 p"
  have l: "length ?q = 4 * k" "length (take 4 p) = 4" using Suc.prems by simp_all
  have "be_val p = be_val (take 4 p @ ?q)" by simp
  also have "\<dots> = be_val (take 4 p) * (2 ^ 32) ^ k + be_val ?q" unfolding be_val_append l(1) by (simp add: power_mult)
  finally show ?case using Suc.IH [OF l(1)] by (simp add: words_of_Suc val_append uint_be_word [OF l(2)] mult.commute add.commute)
qed (simp add: words_of_def)

lemma bytes_of_val: "length (bytes_of a) = 4 * length a \<and> be_val (bytes_of a) = val a"
proof (induction a rule: rev_induct)
  case (snoc w a)
  have "bytes_of (a @ [w]) = be_bytes32 w @ bytes_of a" "length (be_bytes32 w) = 4" by (simp_all add: bytes_of_def be_bytes32_def)
  moreover have "(256 :: int) ^ (4 * length a) = (2 ^ 32) ^ length a" by (simp add: power_mult)
  ultimately show ?case using snoc by (simp add: be_val_append be_val_be_bytes32 val_append)
qed (simp add: bytes_of_def)

lemma modpow3_val:
  assumes "key_ok key k" "length inout = 4 * k"
  shows "length (modpow3 key inout) = 4 * k \<and> be_val (modpow3 key inout) = be_val inout ^ 3 mod val (rk_n key)"
proof -
  have m: "mont_key key k" and k: "nat (rk_len key) = k" and rr: "length (rk_rr key) = k" using assms(1) by (simp_all add: key_ok_def mont_key_def)
  define a where "a = words_of k inout"
  have a: "length a = k" "val a = be_val inout" using words_of_val [OF assms(2)] by (simp_all add: a_def)
  define aR where "aR = montMul key a (rk_rr key)"
  have l: "length aR = k" unfolding aR_def by (rule montMul_val(1) [OF m a(1) rr])
  have l2: "length (montMul key aR aR) = k" by (rule montMul_val(1) [OF m l l])
  have v: "val (montMul key (montMul key aR aR) a) mod val (rk_n key) = (val a ^ 2 * val a) mod val (rk_n key)"
    by (rule montMul_leave [OF m l2 a(1) montMul_square [OF m l]])
      (unfold aR_def, rule montMul_enter [OF assms(1) a(1)])
  note r = reduce_once_val [OF assms(1) montMul_val(1) [OF m l2 a(1)]]
  have "modpow3 key inout = bytes_of (reduce_once key (montMul key (montMul key aR aR) a))"
    by (simp only: modpow3_def Let_def k a_def aR_def)
  then show ?thesis using bytes_of_val r v a(2) by (simp add: power3_eq_cube power2_eq_square)
qed

lemma modpowF4_val:
  assumes "key_ok key k" "length inout = 4 * k"
  shows "length (modpowF4 key inout) = 4 * k \<and> be_val (modpowF4 key inout) = be_val inout ^ 65537 mod val (rk_n key)"
proof -
  have m: "mont_key key k" and k: "nat (rk_len key) = k" and rr: "length (rk_rr key) = k" using assms(1) by (simp_all add: key_ok_def mont_key_def)
  define a where "a = words_of k inout"
  have a: "length a = k" "val a = be_val inout" using words_of_val [OF assms(2)] by (simp_all add: a_def)
  define aR where "aR = ((\<lambda>aR. let aaR = montMul key aR aR in montMul key aaR aaR) ^^ 8) (montMul key a (rk_rr key))"
  have "length aR = k \<and> val aR mod val (rk_n key) = ((2 ^ 32) ^ k * val a ^ 4 ^ 8) mod val (rk_n key)"
    unfolding aR_def by (rule squarings [OF m montMul_val(1) [OF m a(1) rr] montMul_enter [OF assms(1) a(1)]])
  then have l: "length aR = k" and v: "val (montMul key aR a) mod val (rk_n key) = (val a ^ 4 ^ 8 * val a) mod val (rk_n key)"
    using montMul_leave [OF m _ a(1)] by blast+
  note r = reduce_once_val [OF assms(1) montMul_val(1) [OF m l a(1)]]
  have "modpowF4 key inout = bytes_of (reduce_once key (montMul key aR a))"
    by (simp only: modpowF4_def Let_def k a_def aR_def)
  moreover have "val a ^ 4 ^ 8 * val a = val a ^ 65537" using power_Suc2 [of "val a" 65536] by simp
  ultimately show ?thesis using bytes_of_val r v a(2) by simp
qed

text \<open>The witnesses use the modulus \<open>2 ^ (32 * k) - 1\<close>, for which \<open>R\<close> is 1 modulo the modulus.\<close>

definition ones_key :: "nat \<Rightarrow> int \<Rightarrow> RSAPublicKey" where
  "ones_key k e = \<lparr>rk_len = int k, rk_n0inv = 1, rk_n = replicate k (- 1), rk_rr = 1 # replicate (k - 1) 0, rk_exponent = e\<rparr>"

lemma val_ones: "val (replicate k (- 1)) = (2 ^ 32) ^ k - 1"
proof (induction k)
  case (Suc k)
  have "uint (- 1 :: u32) = 2 ^ 32 - 1" by (simp add: unsigned_minus_1_eq_mask mask_eq_exp_minus_1)
  then show ?case using Suc by (simp add: algebra_simps)
qed simp

lemma ones_key_ok: "0 < k \<Longrightarrow> key_ok (ones_key k e) k"
proof -
  assume k: "0 < k"
  let ?R = "(2 ^ 32 :: int) ^ k"
  have "(?R * ?R) mod (?R - 1) = (1 + (?R + 1) * (?R - 1)) mod (?R - 1)" by (simp add: algebra_simps)
  also have "\<dots> = 1 mod (?R - 1)" by simp
  finally have "(?R * ?R) mod (?R - 1) = 1 mod (?R - 1)" .
  moreover have "2 \<le> ?R" using k self_le_power [of "2 ^ 32 :: int" k] by simp
  ultimately show ?thesis using k by (simp add: key_ok_def mont_key_def ones_key_def val_ones)
qed

section \<open>What a signature has to satisfy\<close>

fun i2osp :: "nat \<Rightarrow> int \<Rightarrow> bytes" where
  "i2osp 0 x = []"
| "i2osp (Suc k) x = i2osp k (x div 256) @ [word_of_int x]"

lemma i2osp_be_val: "i2osp (length bs) (be_val bs) = bs"
proof (induction bs rule: rev_induct)
  case (snoc b bs)
  have u: "0 \<le> uint b" "uint b < 256" using uint_lt2p [of b] by simp_all
  have v: "be_val (bs @ [b]) = be_val bs * 256 + uint b" by (simp add: be_val_append)
  have "(be_val bs * 256 + uint b) div 256 = be_val bs" using u by simp
  moreover have "(word_of_int (be_val bs * 256 + uint b) :: u8) = b"
    unfolding word_uint_eq_iff uint_word_of_int using u by simp
  ultimately show ?case unfolding v length_append_singleton i2osp.simps by (simp only: snoc)
qed simp

lemma list_ex_differs:
  assumes "length xs = length ys"
  shows "list_ex (\<lambda>i. xs ! i \<noteq> ys ! i) [0..<length ys] \<longleftrightarrow> xs \<noteq> ys"
  using assms nth_equalityI [of xs ys] by (fastforce simp: list_ex_iff)

lemma list_ex_prefix_differs:
  assumes "length xs = length ys"
  shows "list_ex (\<lambda>i. (xs @ rest) ! i \<noteq> ys ! i) [0..<length ys] \<longleftrightarrow> xs \<noteq> ys"
  using list_ex_differs [OF assms] assms by (simp add: list_ex_iff nth_append)

lemma length_expected: "length kExpectedPadShaRsa2048 = 20"
  by (simp add: kExpectedPadShaRsa2048_def)

lemma length_padding: "length padding = 236"
  by (simp add: padding_def)

lemma compare_padding:
  assumes "length buf = 256" "length sha = 20"
  shows "list_ex (\<lambda>i. buf ! i \<noteq> padding ! i) [0..<length padding] \<or>
     list_ex (\<lambda>i. buf ! i \<noteq> sha ! (i - length padding)) [length padding..<256] \<longleftrightarrow> buf \<noteq> padding @ sha"
proof -
  let ?ys = "padding @ sha"
  have "[0..<256] = [0..<length padding] @ [length padding..<256]"
    using upt_add_eq_append [of 0 "length padding" 20] by (simp add: length_padding)
  then have "list_ex (\<lambda>i. buf ! i \<noteq> ?ys ! i) [0..<256] \<longleftrightarrow>
      list_ex (\<lambda>i. buf ! i \<noteq> ?ys ! i) [0..<length padding] \<or> list_ex (\<lambda>i. buf ! i \<noteq> ?ys ! i) [length padding..<256]"
    by (simp only: list_ex_append)
  also have "\<dots> \<longleftrightarrow> list_ex (\<lambda>i. buf ! i \<noteq> padding ! i) [0..<length padding] \<or>
     list_ex (\<lambda>i. buf ! i \<noteq> sha ! (i - length padding)) [length padding..<256]"
    by (simp add: list_ex_iff nth_append)
  finally show ?thesis using list_ex_differs [of buf ?ys] assms by (simp add: length_padding)
qed

lemma be_val_eq_iff: "length xs = length ys \<Longrightarrow> be_val xs = be_val ys \<longleftrightarrow> xs = ys"
  using be_val_inj by blast

text \<open>C2: for a key with its Montgomery constants, Montgomery exponentiation on 32-bit words computes the power itself:
  the bytes \<open>modpowF4\<close> and \<open>modpow3\<close> leave are, read as a big-endian number, the 65537-th and the third power of the
  input modulo the modulus. The modulus may have any number of words, with the top bit of the last one set.\<close>

theorem modpow_correct:
  assumes "key_ok key k" and "length inout = 4 * k"
  shows "be_val (modpowF4 key inout) = be_val inout ^ 65537 mod val (rk_n key) \<and> length (modpowF4 key inout) = 4 * k \<and>
    be_val (modpow3 key inout) = be_val inout ^ 3 mod val (rk_n key) \<and> length (modpow3 key inout) = 4 * k"
  using modpow3_val [OF assms] modpowF4_val [OF assms] by blast

theorem modpow_correct_witness:
  "key_ok (ones_key 64 3) 64 \<and> length (replicate 256 (5 :: u8)) = 4 * 64 \<and>
   be_val (modpow3 (ones_key 64 3) (replicate 256 5)) = be_val (replicate 256 5) ^ 3 mod val (rk_n (ones_key 64 3))"
  using modpow_correct [of "ones_key 64 3" 64 "replicate 256 5"] ones_key_ok [of 64 3] by (simp only: length_replicate) simp

lemma RSANUM_int: "int RSANUMWORDS = 64" "int RSANUMBYTES = 256"
  by (simp_all add: RSANUMWORDS_def RSANUMBYTES_def)

lemma key_ok_len: "key_ok key 64 \<Longrightarrow> rk_len key = 64"
  by (simp add: key_ok_def mont_key_def)

lemma take_signature: "length signature = 256 \<Longrightarrow> take 256 signature = signature" "nat 256 = 256"
  by simp_all

lemma disj_if: "(if P \<or> Q then x else y) = (if P then x else if Q then x else y)"
  by simp

lemma RSA_verify_3_eq:
  assumes "key_ok key 64" "rk_exponent key = 3" "length signature = 256" "length sha = 20"
  shows "RSA_verify ctx key signature 256 sha =
    (if be_val signature ^ 3 mod val (rk_n key) = be_val (padding @ sha) then 1 else 0)"
proof -
  have p: "length (modpow3 key signature) = 256" "be_val (modpow3 key signature) = be_val signature ^ 3 mod val (rk_n key)"
    using modpow3_val [OF assms(1), of signature] assms(3) by simp_all
  have "length (modpow3 key signature) = length (padding @ sha)" using p(1) assms(4) by (simp add: length_padding)
  then have e: "be_val signature ^ 3 mod val (rk_n key) = be_val (padding @ sha) \<longleftrightarrow> modpow3 key signature = padding @ sha"
    unfolding p(2) [symmetric] by (rule be_val_eq_iff)
  have "RSA_verify ctx key signature 256 sha =
      (if list_ex (\<lambda>i. modpow3 key signature ! i \<noteq> padding ! i) [0..<length padding] \<or>
          list_ex (\<lambda>i. modpow3 key signature ! i \<noteq> sha ! (i - length padding)) [length padding..<256] then 0 else 1)"
    unfolding RSA_verify_def RSA_e_3_verify_def Let_def RSANUM_int assms(2) key_ok_len [OF assms(1)] take_signature(1) [OF assms(3)] take_signature(2)
    by (simp only: simp_thms if_True if_False disj_if refl)
  then show ?thesis unfolding compare_padding [OF p(1) assms(4)] e by (cases "modpow3 key signature = padding @ sha") (simp_all only: simp_thms if_True if_False not_True_eq_False)
qed

text \<open>C6: with exponent 3, a signature is accepted exactly if its cube modulo the modulus is the number the expected block stands for:
  the fixed padding of 236 bytes followed by the digest.\<close>

theorem RSA_verify_3:
  assumes "key_ok key 64" "rk_exponent key = 3" "length signature = 256" "length sha = 20"
  shows "RSA_verify ctx key signature 256 sha =
    (if be_val signature ^ 3 mod val (rk_n key) = be_val (padding @ sha) then 1 else 0)"
  by (rule RSA_verify_3_eq [OF assms])

theorem RSA_verify_3_witness:
  "key_ok (ones_key 64 3) 64 \<and> rk_exponent (ones_key 64 3) = 3 \<and> length (replicate 256 (0 :: u8)) = 256 \<and> length (replicate 20 (1 :: u8)) = 20 \<and>
   RSA_verify \<lparr>sha_count = 0, sha_state = [], sha_buf = []\<rparr> (ones_key 64 3) (replicate 256 0) 256 (replicate 20 1) = 0"
proof -
  have k: "rk_exponent (ones_key 64 3) = 3" by (simp add: ones_key_def)
  have z: "be_val (replicate k 0) = 0" for k by (induction k) simp_all
  have "be_val (padding @ replicate 20 1) = be_val ([0, 1] @ drop 2 padding @ replicate 20 1)" by (simp add: padding_def)
  also have "\<dots> = 256 ^ 254 + be_val (drop 2 padding @ replicate 20 1)" by (simp add: length_padding)
  finally have "be_val (padding @ replicate 20 1) > 0" using be_val_bounds [of "drop 2 padding @ replicate 20 1"] by simp
  then have n: "(0 :: int) ^ 3 mod val (rk_n (ones_key 64 3)) \<noteq> be_val (padding @ replicate 20 1)" by simp
  have l: "length (replicate 256 (0 :: u8)) = 256" "length (replicate 20 (1 :: u8)) = 20" by (rule length_replicate)+
  have "RSA_verify \<lparr>sha_count = 0, sha_state = [], sha_buf = []\<rparr> (ones_key 64 3) (replicate 256 0) 256 (replicate 20 1) = 0"
    using RSA_verify_3 [OF ones_key_ok k l, of "\<lparr>sha_count = 0, sha_state = [], sha_buf = []\<rparr>"] n unfolding z by simp
  moreover have "key_ok (ones_key 64 3) 64" by (rule ones_key_ok) simp
  ultimately show ?thesis using k l by (intro conjI)
qed

text \<open>C7: with exponent 65537, a signature is accepted exactly if the digest of the recovered block, its last twenty bytes combined with the
  expected digest by exclusive or, is the stored digest.\<close>

theorem RSA_verify_f4:
  assumes "key_ok key 64" "rk_exponent key = 65537" "length signature = 256" "length sha = 20" "length (sha_buf ctx) = 64"
    and "em = i2osp 256 (be_val signature ^ 65537 mod val (rk_n key))"
  shows "RSA_verify ctx key signature 256 sha =
    (if sha1 (take 236 em @ map2 (XOR) (drop 236 em) sha) = kExpectedPadShaRsa2048 then 1 else 0)"
proof -
  have p: "length (modpowF4 key signature) = 256" "be_val (modpowF4 key signature) = be_val signature ^ 65537 mod val (rk_n key)"
    using modpowF4_val [OF assms(1), of signature] assms(3) by simp_all
  have em: "em = modpowF4 key signature" using i2osp_be_val [of "modpowF4 key signature"] unfolding assms(6) p by simp
  have l: "length (sha1 msg) = 20" for msg unfolding sha1_def by (rule length_be_state)
  have "list_ex (\<lambda>i. (sha1 msg @ rest) ! i \<noteq> kExpectedPadShaRsa2048 ! i) [0..<20] \<longleftrightarrow> sha1 msg \<noteq> kExpectedPadShaRsa2048" for msg rest
    using list_ex_prefix_differs [of "sha1 msg" kExpectedPadShaRsa2048 rest] unfolding l length_expected by blast
  then show ?thesis
    unfolding RSA_verify_def RSA_e_f4_verify_def Let_def RSANUM_int assms(2) key_ok_len [OF assms(1)] take_signature(1) [OF assms(3)]
      take_signature(2) SHA_DIGEST_SIZE_def SHA_sha1 [OF assms(5)] em
    by simp
qed

theorem RSA_verify_f4_witness:
  "key_ok (ones_key 64 65537) 64 \<and>
   RSA_verify \<lparr>sha_count = 0, sha_state = [], sha_buf = replicate 64 0\<rparr> (ones_key 64 65537) (replicate 256 0) 256 (replicate 20 1) =
    (if sha1 (take 236 (i2osp 256 (be_val (replicate 256 0) ^ 65537 mod val (rk_n (ones_key 64 65537)))) @
        map2 (XOR) (drop 236 (i2osp 256 (be_val (replicate 256 0) ^ 65537 mod val (rk_n (ones_key 64 65537))))) (replicate 20 1)) = kExpectedPadShaRsa2048
     then 1 else 0)"
proof -
  have k: "key_ok (ones_key 64 65537) 64" "rk_exponent (ones_key 64 65537) = 65537" using ones_key_ok [of 64 65537] by (simp_all add: ones_key_def)
  have l: "length (replicate 256 (0 :: u8)) = 256" "length (replicate 20 (1 :: u8)) = 20"
    "length (sha_buf \<lparr>sha_count = 0, sha_state = [], sha_buf = replicate 64 0\<rparr>) = 64" by (simp_all only: length_replicate SHA_CTX.simps)
  show ?thesis using RSA_verify_f4 [OF k l refl] k(1) by (rule conjI [rotated])
qed

text \<open>Nothing checks that the top bit of the modulus is set. With a modulus of 30 bits in one word, the single subtraction
  at the end leaves a number above the modulus.\<close>

lemma modpow3_short_modulus:
  defines "key \<equiv> \<lparr>rk_len = 1, rk_n0inv = 0x123b16b, rk_n = [0x393f0cbd], rk_rr = [0x34544a2e], rk_exponent = 3\<rparr>"
  shows "mont_key key 1" "val (rk_rr key) mod val (rk_n key) = (2 ^ 32 * 2 ^ 32) mod val (rk_n key)"
    and "modpow3 key [0xd9, 0x58, 0x58, 0x47] = [0x4f, 0xfd, 0x4b, 0xde]" "val (rk_n key) < be_val [0x4f, 0xfd, 0x4b, 0xde]"
  unfolding key_def
  by (simp_all add: mont_key_def modpow3_def montMul_def montMulAdd_def words_of_def be_word_def bytes_of_def reduce_once_def
      geM_def subM_def be_bytes32_def Let_def)

lemma RSA_verify_refuses:
  "rk_len key \<noteq> 64 \<or> len \<noteq> 256 \<or> rk_exponent key \<notin> {3, 65537} \<Longrightarrow> RSA_verify ctx key signature len sha = 0"
  by (auto simp: RSA_verify_def RSA_e_3_verify_def RSA_e_f4_verify_def RSANUMWORDS_def RSANUMBYTES_def)

end
