(* ===== verification/AdbPacket.thy ===== *)
theory AdbPacket
  imports MinRsa Clib
begin

text \<open>
  Packets of the debug bridge over a stream socket and the check of a signed token: the message header and its
  sums (\<^verbatim>\<open>transport.c\<close>), reading and writing of packets (\<^verbatim>\<open>transport.c\<close>, \<^verbatim>\<open>transport_local.c\<close>), and
  the part of \<^verbatim>\<open>adb_auth_client.c\<close> that decides whether a signature is good. The machine is little-endian, so
  \<open>fix_endians\<close> does nothing. The answers of \<open>read\<close> and \<open>write\<close> come from a script; \<open>None\<close> is a call that blocks at its end.
\<close>

unbundle bit_operations_syntax

section \<open>Messages\<close>

definition MAX_PAYLOAD :: nat where "MAX_PAYLOAD = 4096"

record amessage =
  am_command :: u32
  am_arg0 :: u32
  am_arg1 :: u32
  am_data_length :: u32
  am_data_check :: u32
  am_magic :: u32

record apacket =
  pk_msg :: amessage
  pk_data :: bytes

fun byte_sum :: "nat \<Rightarrow> u32 \<Rightarrow> bytes \<Rightarrow> u32" where
  "byte_sum 0 s x = s"
| "byte_sum (Suc count) s x = byte_sum count (s + ucast (hd x)) (tl x)"

definition check_header :: "apacket \<Rightarrow> int" where
  "check_header p =
     (if am_magic (pk_msg p) \<noteq> am_command (pk_msg p) XOR 0xffffffff then - 1
      else if unat (am_data_length (pk_msg p)) > MAX_PAYLOAD then - 1
      else 0)"

definition check_data :: "apacket \<Rightarrow> int" where
  "check_data p =
     (if byte_sum (unat (am_data_length (pk_msg p))) 0 (pk_data p) \<noteq> am_data_check (pk_msg p) then - 1 else 0)"

text \<open>What \<open>send_packet\<close> fills in before it hands the packet on.\<close>

definition send_packet :: "apacket \<Rightarrow> apacket" where
  "send_packet p =
     p\<lparr>pk_msg := (pk_msg p)\<lparr>am_magic := am_command (pk_msg p) XOR 0xffffffff,
        am_data_check := byte_sum (unat (am_data_length (pk_msg p))) 0 (pk_data p)\<rparr>\<rparr>"

section \<open>Reading and writing\<close>

text \<open>
  \<open>RdData bs\<close>: \<open>bs\<close> has arrived, of which a call takes as much as it asked for (nothing is the end of the stream).
\<close>

fun readx :: "nat \<Rightarrow> read_ans list \<Rightarrow> (bytes option \<times> read_ans list) option" where
  "readx len [] = (if len = 0 then Some (Some [], []) else None)"
| "readx len (a # as) =
     (if len = 0 then Some (Some [], a # as)
      else case a of
        RdData bs \<Rightarrow>
          (if bs = [] then Some (None, as)
           else if length bs > len then Some (Some (take len bs), RdData (drop len bs) # as)
           else case readx (len - length bs) as of
             Some (Some rest, as') \<Rightarrow> Some (Some (bs @ rest), as')
           | r \<Rightarrow> r)
      | RdErr e \<Rightarrow> if e = EINTR then readx len as else Some (None, as))"

text \<open>The result of a write with the bytes that went out; \<open>WrDone n\<close> takes at most what is left.\<close>

fun writex :: "bytes \<Rightarrow> write_ans list \<Rightarrow> (int \<times> bytes \<times> write_ans list) option" where
  "writex p [] = (if p = [] then Some (0, [], []) else None)"
| "writex p (a # as) =
     (if p = [] then Some (0, [], a # as)
      else case a of
        WrDone n \<Rightarrow>
          (if n = 0 then Some (- 1, [], as)
           else case writex (drop n p) as of
             Some (r, out, as') \<Rightarrow> Some (r, take n p @ out, as')
           | None \<Rightarrow> None)
      | WrErr e \<Rightarrow> if e = EINTR then writex p as else Some (- 1, [], as))"

definition message_bytes :: "amessage \<Rightarrow> bytes" where
  "message_bytes m =
     le_bytes 4 (am_command m) @ le_bytes 4 (am_arg0 m) @ le_bytes 4 (am_arg1 m) @
     le_bytes 4 (am_data_length m) @ le_bytes 4 (am_data_check m) @ le_bytes 4 (am_magic m)"

definition bytes_message :: "bytes \<Rightarrow> amessage" where
  "bytes_message b =
     \<lparr>am_command = le_word (take 4 b), am_arg0 = le_word (take 4 (drop 4 b)), am_arg1 = le_word (take 4 (drop 8 b)),
      am_data_length = le_word (take 4 (drop 12 b)), am_data_check = le_word (take 4 (drop 16 b)), am_magic = le_word (take 4 (drop 20 b))\<rparr>"

text \<open>The header and the data stand behind each other in the packet and are written as one piece.\<close>

definition remote_write :: "apacket \<Rightarrow> write_ans list \<Rightarrow> (int \<times> bytes \<times> write_ans list) option" where
  "remote_write p as =
     (let n = unat (am_data_length (pk_msg p))
      in case writex (message_bytes (pk_msg p) @ take n (pk_data p)) as of
        None \<Rightarrow> None
      | Some (r, out, as) \<Rightarrow> Some (if r \<noteq> 0 then - 1 else 0, out, as))"

definition remote_read :: "apacket \<Rightarrow> read_ans list \<Rightarrow> (int \<times> apacket \<times> read_ans list) option" where
  "remote_read p as =
     (case readx 24 as of
        None \<Rightarrow> None
      | Some (None, as) \<Rightarrow> Some (- 1, p, as)
      | Some (Some hdr, as) \<Rightarrow>
          let p = p\<lparr>pk_msg := bytes_message hdr\<rparr>; n = unat (am_data_length (pk_msg p))
          in if check_header p \<noteq> 0 then Some (- 1, p, as)
             else case readx n as of
               None \<Rightarrow> None
             | Some (None, as) \<Rightarrow> Some (- 1, p, as)
             | Some (Some d, as) \<Rightarrow>
                 let p = p\<lparr>pk_data := d @ drop n (pk_data p)\<rparr>
                 in if check_data p \<noteq> 0 then Some (- 1, p, as) else Some (0, p, as))"

section \<open>The stream\<close>

text \<open>The bytes a script of answers delivers before it ends or breaks.\<close>

fun delivered :: "read_ans list \<Rightarrow> bytes" where
  "delivered [] = []"
| "delivered (RdData bs # as) = (if bs = [] then [] else bs @ delivered as)"
| "delivered (RdErr e # as) = (if e = EINTR then delivered as else [])"

lemma readx_delivers:
  "len \<le> length (delivered as) \<Longrightarrow>
     \<exists>as'. readx len as = Some (Some (take len (delivered as)), as') \<and> delivered as' = drop len (delivered as)"
proof (induction len as rule: readx.induct)
  case (2 len a as)
  show ?case
  proof (cases "len = 0")
    case False
    show ?thesis
    proof (cases a)
      case (RdData bs)
      then have bs: "bs \<noteq> []" using 2(3) False by auto
      show ?thesis
      proof (cases "length bs > len")
        case True
        then show ?thesis using RdData bs False by auto
      next
        case l: False
        then have "len - length bs \<le> length (delivered as)" using 2(3) RdData bs by simp
        from 2(1) [OF False RdData bs l this] show ?thesis using RdData bs False l by auto
      qed
    qed (use 2 False in \<open>auto split: if_splits\<close>)
  qed auto
qed auto

lemma writex_exact: "writex p as = Some (0, out, as') \<Longrightarrow> out = p"
proof (induction p as arbitrary: out as' rule: writex.induct)
  case (2 p a as)
  then show ?case by (auto split: if_splits write_ans.splits option.splits) (metis append_take_drop_id)
qed (auto split: if_splits)

lemma length_message_bytes [simp]: "length (message_bytes m) = 24"
  by (simp add: message_bytes_def)

lemma bytes_message_message_bytes: "bytes_message (message_bytes m) = m"
  by (simp add: bytes_message_def message_bytes_def le_word_le_bytes)

lemma byte_sum_take: "n \<le> length x \<Longrightarrow> byte_sum n s (take n x) = byte_sum n s x"
proof (induction n arbitrary: s x)
  case (Suc n)
  then show ?case by (cases x) auto
qed simp

text \<open>A packet as it stands on the stream, and one that the receiver accepts.\<close>

definition wire :: "apacket \<Rightarrow> bytes" where
  "wire p = message_bytes (pk_msg p) @ take (unat (am_data_length (pk_msg p))) (pk_data p)"

definition packet_ok :: "apacket \<Rightarrow> bool" where
  "packet_ok p \<longleftrightarrow> check_header p = 0 \<and> check_data p = 0 \<and> length (pk_data p) = MAX_PAYLOAD"

definition same_packet :: "apacket \<Rightarrow> apacket \<Rightarrow> bool" where
  "same_packet p q \<longleftrightarrow> pk_msg q = pk_msg p \<and>
     take (unat (am_data_length (pk_msg p))) (pk_data q) = take (unat (am_data_length (pk_msg p))) (pk_data p)"

lemma remote_read_wire:
  assumes "packet_ok p" and "delivered as = wire p @ later"
  shows "\<exists>q as'. remote_read p0 as = Some (0, q, as') \<and> same_packet p q \<and> delivered as' = later"
proof -
  let ?n = "unat (am_data_length (pk_msg p))"
  let ?d = "take ?n (pk_data p)"
  have n: "?n \<le> MAX_PAYLOAD" "length (pk_data p) = MAX_PAYLOAD" and c: "check_header p = 0" "check_data p = 0"
    using assms(1) by (auto simp: packet_ok_def check_header_def split: if_splits)
  have ld: "length ?d = ?n" using n by simp
  have s: "delivered as = message_bytes (pk_msg p) @ ?d @ later" using assms(2) by (simp add: wire_def)
  obtain as1 where r1: "readx 24 as = Some (Some (message_bytes (pk_msg p)), as1)" "delivered as1 = ?d @ later"
    using readx_delivers [of 24 as] unfolding s by auto
  obtain as2 where r2: "readx ?n as1 = Some (Some ?d, as2)" "delivered as2 = later"
    using readx_delivers [of ?n as1] ld unfolding r1(2) by auto
  let ?q = "p0\<lparr>pk_msg := pk_msg p, pk_data := ?d @ drop ?n (pk_data p0)\<rparr>"
  have "check_header (p0\<lparr>pk_msg := pk_msg p\<rparr>) = check_header p" by (simp add: check_header_def)
  then have h: "check_header (p0\<lparr>pk_msg := pk_msg p\<rparr>) = 0" using c(1) by simp
  have "byte_sum ?n 0 (?d @ drop ?n (pk_data p0)) = byte_sum ?n 0 (pk_data p)"
    using byte_sum_take [of ?n "?d @ drop ?n (pk_data p0)" 0] byte_sum_take [of ?n "pk_data p" 0] n ld by simp
  then have "check_data ?q = check_data p" by (simp add: check_data_def)
  then have d: "check_data ?q = 0" using c(2) by simp
  have "remote_read p0 as = Some (0, ?q, as2)"
    by (simp add: remote_read_def r1 Let_def bytes_message_message_bytes h r2 d)
  then show ?thesis using r2(2) ld by (auto simp: same_packet_def)
qed

lemma send_packet_ok:
  "length (pk_data p) = MAX_PAYLOAD \<Longrightarrow> unat (am_data_length (pk_msg p)) \<le> MAX_PAYLOAD \<Longrightarrow> packet_ok (send_packet p)"
  by (simp add: packet_ok_def check_header_def check_data_def send_packet_def)

lemma remote_write_wire: "remote_write p ws = Some (0, sent, ws') \<Longrightarrow> sent = wire p"
  by (auto simp: remote_write_def wire_def Let_def dest: writex_exact split: option.splits if_splits)

text \<open>C23: a packet of up to \<open>MAX_PAYLOAD\<close> bytes that \<open>remote_write\<close> has sent is the packet the other side reads, however the stream cuts it and however often the calls are
  interrupted: \<open>remote_read\<close> accepts it, with the same header and the same data, and leaves what follows in the stream.\<close>

theorem packet_roundtrip:
  assumes "length (pk_data p) = MAX_PAYLOAD" and "unat (am_data_length (pk_msg p)) \<le> MAX_PAYLOAD"
    and "remote_write (send_packet p) ws = Some (0, sent, ws')" and "delivered as = sent @ later"
  shows "\<exists>q as'. remote_read p0 as = Some (0, q, as') \<and> same_packet (send_packet p) q \<and> delivered as' = later"
  using remote_read_wire [OF send_packet_ok [OF assms(1,2)]] assms(4) unfolding remote_write_wire [OF assms(3)] by blast

theorem packet_roundtrip_witness:
  "\<exists>q as'. remote_read \<lparr>pk_msg = bytes_message [], pk_data = []\<rparr> [RdData (take 5 (wire (send_packet \<lparr>pk_msg = bytes_message (replicate 24 0), pk_data = replicate MAX_PAYLOAD 0\<rparr>))), RdErr EINTR,
       RdData (drop 5 (wire (send_packet \<lparr>pk_msg = bytes_message (replicate 24 0), pk_data = replicate MAX_PAYLOAD 0\<rparr>)) @ [1])] = Some (0, q, as') \<and>
     same_packet (send_packet \<lparr>pk_msg = bytes_message (replicate 24 0), pk_data = replicate MAX_PAYLOAD 0\<rparr>) q \<and> delivered as' = [1]"
proof -
  let ?p = "\<lparr>pk_msg = bytes_message (replicate 24 0), pk_data = replicate MAX_PAYLOAD 0\<rparr> :: apacket"
  have z: "am_data_length (pk_msg ?p) = 0" by (simp add: bytes_message_def numeral_eq_Suc)
  then have w: "wire (send_packet ?p) = message_bytes (pk_msg (send_packet ?p))" by (simp add: wire_def send_packet_def)
  have l: "length (wire (send_packet ?p)) = 24" unfolding w by simp
  have "writex x [WrDone 24] = Some (0, x, [])" if "length x = 24" for x using that by (cases x) auto
  from this [OF l] have s: "remote_write (send_packet ?p) [WrDone 24] = Some (0, wire (send_packet ?p), [])"
    unfolding remote_write_def Let_def wire_def [symmetric] by simp
  have d: "delivered [RdData (take 5 (wire (send_packet ?p))), RdErr EINTR, RdData (drop 5 (wire (send_packet ?p)) @ [1])] = wire (send_packet ?p) @ [1]"
    using l by (auto simp flip: append_assoc)
  show ?thesis using packet_roundtrip [OF _ _ s d] z by simp
qed

section \<open>The two threads of a transport\<close>

definition A_SYNC :: u32 where "A_SYNC = 0x434e5953"

text \<open>A new packet: everything but the data is zero.\<close>

definition get_apacket :: "bytes \<Rightarrow> apacket" where
  "get_apacket d = \<lparr>pk_msg = \<lparr>am_command = 0, am_arg0 = 0, am_arg1 = 0, am_data_length = 0, am_data_check = 0, am_magic = 0\<rparr>, pk_data = d\<rparr>"

definition sync_packet :: "bytes \<Rightarrow> u32 \<Rightarrow> u32 \<Rightarrow> apacket" where
  "sync_packet d arg0 arg1 =
     (get_apacket d)\<lparr>pk_msg := (pk_msg (get_apacket d))\<lparr>am_command := A_SYNC, am_arg0 := arg0, am_arg1 := arg1, am_magic := A_SYNC XOR 0xffffffff\<rparr>\<rparr>"

datatype pump_end = Pump_blocked | Remote_failed | Handover_failed

fun total :: "read_ans list \<Rightarrow> nat" where
  "total [] = 0"
| "total (RdData bs # as) = length bs + total as"
| "total (RdErr e # as) = total as"

lemma readx_DataE:
  assumes "readx len (RdData bs # as) = Some (Some d, as')" "0 < len"
  obtains "len < length bs" "d = take len bs" "as' = RdData (drop len bs) # as"
  | rest where "bs \<noteq> []" "length bs \<le> len" "readx (len - length bs) as = Some (Some rest, as')" "d = bs @ rest"
proof -
  have n: "bs \<noteq> []" using assms by auto
  show ?thesis
  proof (cases "len < length bs")
    case True
    then show ?thesis using that(1) assms n by simp
  next
    case False
    then obtain rest where "readx (len - length bs) as = Some (Some rest, as')" "d = bs @ rest"
      using assms n by (auto split: option.splits)
    then show ?thesis using that(2) n False by simp
  qed
qed

lemma readx_total: "readx len as = Some (Some d, as') \<Longrightarrow> length d = len \<and> total as = len + total as'"
proof (induction as arbitrary: len d as')
  case (Cons a as)
  show ?case
  proof (cases "len = 0")
    case False
    show ?thesis
    proof (cases a)
      case (RdData bs)
      have "readx len (RdData bs # as) = Some (Some d, as')" "0 < len" using Cons.prems RdData False by simp_all
      then show ?thesis
      proof (cases rule: readx_DataE)
        case (2 rest)
        then show ?thesis using Cons.IH [OF 2(3)] RdData by simp
      qed (simp add: RdData)
    qed (use Cons False in \<open>auto split: if_splits\<close>)
  qed (use Cons.prems in simp)
qed (simp split: if_splits)

lemma remote_read_total: "remote_read p as = Some (0, q, as') \<Longrightarrow> total as' < total as"
  by (auto simp: remote_read_def Let_def dest!: readx_total split: option.splits prod.splits if_splits)

text \<open>
  The loop of \<open>output_thread\<close>: \<open>hs\<close> says for each packet whether \<open>write_packet\<close> could hand it to the other
  end of the transport. The result is what was handed on, why the loop ended, and the rest of \<open>hs\<close>.
\<close>

function pump :: "bytes \<Rightarrow> read_ans list \<Rightarrow> bool list \<Rightarrow> apacket list \<times> pump_end \<times> bool list" where
  "pump d as hs =
     (case remote_read (get_apacket d) as of
        None \<Rightarrow> ([], Pump_blocked, hs)
      | Some (r, p, as') \<Rightarrow>
          if r = 0 then
            case hs of
              [] \<Rightarrow> ([], Pump_blocked, [])
            | h # hs' \<Rightarrow>
                if h then (case pump d as' hs' of (ps, e, hs'') \<Rightarrow> (p # ps, e, hs''))
                else ([], Handover_failed, hs')
          else ([], Remote_failed, hs))"
  by pat_completeness auto
termination by (relation "measure (\<lambda>(d, as, hs). total as)") (auto dest: remote_read_total)

declare pump.simps [simp del]

definition output_thread :: "bytes \<Rightarrow> u32 \<Rightarrow> read_ans list \<Rightarrow> bool list \<Rightarrow> apacket list" where
  "output_thread d sync_token as hs =
     (case hs of
        [] \<Rightarrow> []
      | h # hs \<Rightarrow>
          if \<not> h then []
          else case pump d as hs of
            (ps, e, hs) \<Rightarrow>
              sync_packet d 1 (sync_token + 1) # ps @
              (if e = Remote_failed \<and> hs \<noteq> [] \<and> hd hs then [sync_packet d 0 0] else []))"

text \<open>The other thread: which of the packets it reads it writes to the remote side.\<close>

fun input_thread :: "u32 \<Rightarrow> bool \<Rightarrow> apacket list \<Rightarrow> apacket list" where
  "input_thread sync_token active [] = []"
| "input_thread sync_token active (p # ps) =
     (if am_command (pk_msg p) = A_SYNC then
        if am_arg0 (pk_msg p) = 0 then []
        else if am_arg1 (pk_msg p) = sync_token then input_thread sync_token True ps
        else input_thread sync_token active ps
      else if active then p # input_thread sync_token active ps
      else input_thread sync_token active ps)"

text \<open>A script in which the stream ends, by its end or by an error, and does not just fall silent.\<close>

fun ends :: "read_ans list \<Rightarrow> bool" where
  "ends [] = False"
| "ends (RdData bs # as) = (bs = [] \<or> ends as)"
| "ends (RdErr e # as) = (e \<noteq> EINTR \<or> ends as)"

lemma readx_ends: "readx len as = Some (Some d, as') \<Longrightarrow> ends as \<Longrightarrow> ends as'"
proof (induction as arbitrary: len d as')
  case (Cons a as)
  show ?case
  proof (cases "len = 0")
    case False
    show ?thesis
    proof (cases a)
      case (RdData bs)
      have "readx len (RdData bs # as) = Some (Some d, as')" "0 < len" using Cons.prems RdData False by simp_all
      then show ?thesis
      proof (cases rule: readx_DataE)
        case 1
        then have "bs \<noteq> []" by auto
        then show ?thesis using Cons.prems(2) 1(3) RdData by auto
      next
        case (2 rest)
        then show ?thesis using Cons.IH [OF 2(3)] Cons.prems(2) RdData by auto
      qed
    qed (use Cons False in \<open>auto split: if_splits\<close>)
  qed (use Cons.prems in simp)
qed (simp split: if_splits)

lemma readx_at_end: "0 < len \<Longrightarrow> delivered as = [] \<Longrightarrow> ends as \<Longrightarrow> \<exists>as'. readx len as = Some (None, as')"
  by (induction len as rule: readx.induct) (auto split: read_ans.splits if_splits)

lemma remote_read_ends: "remote_read p as = Some (0, q, as') \<Longrightarrow> ends as \<Longrightarrow> ends as'"
  by (auto simp: remote_read_def Let_def dest!: readx_ends split: option.splits prod.splits if_splits)

lemma pump_at_end:
  assumes "delivered as = []" "ends as"
  shows "pump d as hs = ([], Remote_failed, hs)"
proof -
  obtain as' where "readx 24 as = Some (None, as')" using readx_at_end [of 24 as] assms by auto
  then show ?thesis by (subst pump.simps) (simp add: remote_read_def)
qed

lemma pump_forwards:
  "\<forall>p\<in>set ps. packet_ok p \<Longrightarrow> delivered as = concat (map wire ps) \<Longrightarrow> ends as \<Longrightarrow>
     \<exists>qs. pump d as (replicate (length ps) True @ hs) = (qs, Remote_failed, hs) \<and> list_all2 same_packet ps qs"
proof (induction ps arbitrary: as)
  case Nil
  then show ?case using pump_at_end by simp
next
  case (Cons p ps)
  have "delivered as = wire p @ concat (map wire ps)" using Cons.prems(2) by simp
  then obtain q as' where r: "remote_read (get_apacket d) as = Some (0, q, as')" "same_packet p q" "delivered as' = concat (map wire ps)"
    using remote_read_wire Cons.prems(1) by (metis list.set_intros(1))
  have "ends as'" by (rule remote_read_ends [OF r(1) Cons.prems(3)])
  then obtain qs where q: "pump d as' (replicate (length ps) True @ hs) = (qs, Remote_failed, hs)" "list_all2 same_packet ps qs"
    using Cons.IH [OF _ r(3)] Cons.prems(1) by auto
  have "pump d as (replicate (length (p # ps)) True @ hs) = (q # qs, Remote_failed, hs)"
    by (subst pump.simps) (simp add: r(1) q(1))
  then show ?case using r(2) q(2) by auto
qed

text \<open>C8: packets that arrive on the stream one after the other, in whatever pieces, are handed on one by one: \<open>output_thread\<close> announces itself
  with a SYNC packet that carries the next token, then hands on exactly the packets that were sent, in order, and when
  the stream ends behind them it closes with a SYNC packet.\<close>

theorem output_thread_forwards:
  assumes "\<forall>p\<in>set ps. packet_ok p" and "delivered as = concat (map wire ps)" and "ends as"
  shows "\<exists>qs. output_thread d sync_token as (replicate (length ps + 2) True) =
    sync_packet d 1 (sync_token + 1) # qs @ [sync_packet d 0 0] \<and> list_all2 same_packet ps qs"
proof -
  have "replicate (length ps + 2) True = True # replicate (length ps) True @ [True]"
    by (simp add: replicate_append_same)
  then show ?thesis using pump_forwards [OF assms, of d "[True]"] by (auto simp: output_thread_def)
qed

text \<open>What passes the input thread: nothing before the SYNC packet with the token of this connection, nothing behind a SYNC packet that closes,
  no SYNC packet.\<close>

lemma input_thread_window:
  assumes "\<forall>p\<in>set before. am_command (pk_msg p) = A_SYNC \<longrightarrow> am_arg0 (pk_msg p) \<noteq> 0 \<and> am_arg1 (pk_msg p) \<noteq> tok"
    and "\<forall>p\<in>set mid. am_command (pk_msg p) = A_SYNC \<longrightarrow> am_arg0 (pk_msg p) \<noteq> 0"
  shows "input_thread tok False (before @ sync_packet d 1 tok # mid @ sync_packet d 0 0 # after) =
    filter (\<lambda>p. am_command (pk_msg p) \<noteq> A_SYNC) mid"
proof -
  have m: "input_thread tok True (mid @ sync_packet d 0 0 # after) = filter (\<lambda>p. am_command (pk_msg p) \<noteq> A_SYNC) mid"
    using assms(2) by (induction mid) (auto simp: sync_packet_def)
  show ?thesis using assms(1) by (induction before) (auto simp: sync_packet_def m [unfolded sync_packet_def])
qed

definition okay_packet :: apacket where
  "okay_packet = send_packet ((get_apacket (replicate MAX_PAYLOAD 7))\<lparr>pk_msg := (pk_msg (get_apacket []))\<lparr>am_command := 0x45545257, am_data_length := 3\<rparr>\<rparr>)"

lemma okay_packet_ok: "packet_ok okay_packet"
  unfolding okay_packet_def by (rule send_packet_ok) (simp_all add: get_apacket_def MAX_PAYLOAD_def)

theorem output_thread_forwards_witness:
  "packet_ok okay_packet \<and> ends [RdData (wire okay_packet), RdErr EINTR, RdData []] \<and>
   (\<exists>qs. output_thread [] 1 [RdData (wire okay_packet), RdErr EINTR, RdData []] (replicate 3 True) =
      sync_packet [] 1 2 # qs @ [sync_packet [] 0 0] \<and> list_all2 same_packet [okay_packet] qs)"
proof -
  have "wire okay_packet \<noteq> []" by (simp add: wire_def message_bytes_def le_bytes_def)
  then have d: "delivered [RdData (wire okay_packet), RdErr EINTR, RdData []] = concat (map wire [okay_packet])" by simp
  have e: "ends [RdData (wire okay_packet), RdErr EINTR, RdData []]" by simp
  have "\<forall>p\<in>set [okay_packet]. packet_ok p" using okay_packet_ok by simp
  from output_thread_forwards [OF this d e, of "[]" 1] show ?thesis using okay_packet_ok e by (simp add: numeral_eq_Suc)
qed

section \<open>Keys and signatures\<close>

text \<open>The memory image of a key: \<open>sizeof(RSAPublicKey)\<close> is 524.\<close>

definition le_words :: "nat \<Rightarrow> bytes \<Rightarrow> u32 list" where
  "le_words k b = map (\<lambda>i. le_word (take 4 (drop (4 * i) b))) [0..<k]"

definition key_of_bytes :: "bytes \<Rightarrow> RSAPublicKey" where
  "key_of_bytes b =
     \<lparr>rk_len = sint (le_word (take 4 b) :: u32), rk_n0inv = le_word (take 4 (drop 4 b)), rk_n = le_words 64 (drop 8 b),
      rk_rr = le_words 64 (drop 264 b), rk_exponent = sint (le_word (take 4 (drop 520 b)) :: u32)\<rparr>"

definition before_blank :: "string \<Rightarrow> string" where
  "before_blank buf = takeWhile (\<lambda>c. c \<noteq> CHR 0x20 \<and> c \<noteq> CHR 0x09) (takeWhile (\<lambda>c. c \<noteq> CHR 0x00) buf)"

lemma key_line_shorter: "f \<noteq> [] \<Longrightarrow> (buf, f') = fgets_line (MAX_PAYLOAD - 1) f \<Longrightarrow> length f' < length f"
  using fgets_line_shorter [of "MAX_PAYLOAD - 1" f] by (metis MAX_PAYLOAD_def snd_conv zero_less_diff one_less_numeral_iff semiring_norm(76))

text \<open>
  The lines of a file; \<open>b64\<close> is \<open>__b64_pton\<close> of the resolver library: the decoded bytes if the text is well formed and
  they fit the given size. A line that does not hold a key of the right length is skipped.
\<close>

function read_keys :: "(string \<Rightarrow> nat \<Rightarrow> bytes option) \<Rightarrow> string \<Rightarrow> RSAPublicKey list \<Rightarrow> RSAPublicKey list" where
  "read_keys b64 f keys =
     (if f = [] then keys
      else
        let (buf, f') = fgets_line (MAX_PAYLOAD - 1) f
        in case b64 (before_blank buf) (524 + 4) of
          None \<Rightarrow> read_keys b64 f' keys
        | Some b \<Rightarrow>
            if length b \<noteq> 524 then read_keys b64 f' keys
            else if rk_len (key_of_bytes b) \<noteq> int RSANUMWORDS then read_keys b64 f' keys
            else read_keys b64 f' (keys @ [key_of_bytes b]))"
  by pat_completeness auto
termination by (relation "measure (\<lambda>(b64, f, keys). length f)") (simp_all add: key_line_shorter)

declare read_keys.simps [simp del]

text \<open>The contents of the files of \<open>key_paths\<close>, as far as they exist.\<close>

definition load_keys :: "(string \<Rightarrow> nat \<Rightarrow> bytes option) \<Rightarrow> string option list \<Rightarrow> RSAPublicKey list" where
  "load_keys b64 files = fold (\<lambda>file keys. case file of None \<Rightarrow> keys | Some f \<Rightarrow> read_keys b64 f keys) files []"

fun verify_any :: "SHA_CTX \<Rightarrow> RSAPublicKey list \<Rightarrow> bytes \<Rightarrow> bytes \<Rightarrow> int \<Rightarrow> int \<Rightarrow> int" where
  "verify_any ctx [] token sig siglen ret = ret"
| "verify_any ctx (key # keys) token sig siglen ret =
     (let ret = RSA_verify ctx key sig siglen token in if ret \<noteq> 0 then ret else verify_any ctx keys token sig siglen ret)"

definition adb_auth_verify :: "SHA_CTX \<Rightarrow> (string \<Rightarrow> nat \<Rightarrow> bytes option) \<Rightarrow> string option list \<Rightarrow> bytes \<Rightarrow> bytes \<Rightarrow> int \<Rightarrow> int" where
  "adb_auth_verify ctx b64 files token sig siglen =
     (if siglen \<noteq> int RSANUMBYTES then 0 else verify_any ctx (load_keys b64 files) token sig siglen 0)"

lemma verify_any_3:
  assumes "\<forall>key\<in>set keys. key_ok key 64 \<and> rk_exponent key = 3" "length sig = 256" "length token = 20"
  shows "verify_any ctx keys token sig 256 0 =
    (if \<exists>key\<in>set keys. be_val sig ^ 3 mod val (rk_n key) = be_val (padding @ token) then 1 else 0)"
  using assms(1)
proof (induction keys)
  case (Cons key keys)
  then have r: "RSA_verify ctx key sig 256 token = (if be_val sig ^ 3 mod val (rk_n key) = be_val (padding @ token) then 1 else 0)"
    by (intro RSA_verify_3_eq) (use assms in auto)
  then show ?case using Cons by (simp add: Let_def)
qed simp

lemma le_words_Suc: "le_words (Suc k) b = le_word (take 4 b) # le_words k (drop 4 b)"
  by (simp add: le_words_def upt_conv_Cons map_Suc_upt [symmetric] add.commute del: upt_Suc)

lemma le_words_concat: "le_words (length ws) (concat (map (le_bytes 4) ws) @ rest) = ws"
  by (induction ws) (simp_all add: le_words_Suc le_word_le_bytes, simp add: le_words_def)

text \<open>A key written as the host tool does is read back.\<close>

definition key_bytes :: "RSAPublicKey \<Rightarrow> bytes" where
  "key_bytes key =
     le_bytes 4 (word_of_int (rk_len key) :: u32) @ le_bytes 4 (rk_n0inv key) @ concat (map (le_bytes 4) (rk_n key)) @
     concat (map (le_bytes 4) (rk_rr key)) @ le_bytes 4 (word_of_int (rk_exponent key) :: u32)"

lemma length_concat_le_bytes [simp]: "length (concat (map (le_bytes 4) (ws :: u32 list))) = 4 * length ws"
  by (induction ws) simp_all

lemma key_of_bytes_key_bytes:
  assumes "length (rk_n key) = 64" "length (rk_rr key) = 64" "sint (word_of_int (rk_len key) :: u32) = rk_len key"
    "sint (word_of_int (rk_exponent key) :: u32) = rk_exponent key"
  shows "key_of_bytes (key_bytes key) = key" "length (key_bytes key) = 524"
proof -
  show "length (key_bytes key) = 524" using assms by (simp add: key_bytes_def)
  have n: "le_words 64 (concat (map (le_bytes 4) (rk_n key)) @ rest) = rk_n key" for rest
    using le_words_concat [of "rk_n key"] assms(1) by simp
  have r: "le_words 64 (concat (map (le_bytes 4) (rk_rr key)) @ rest) = rk_rr key" for rest
    using le_words_concat [of "rk_rr key"] assms(2) by simp
  show "key_of_bytes (key_bytes key) = key"
    using assms by (simp add: key_of_bytes_def key_bytes_def n r le_word_le_bytes)
qed

text \<open>C26: if the stored keys are well formed keys with exponent 3, a host that answers the token with a signature is let in exactly if the cube of the
  signature, modulo the modulus of one of the stored keys, is the padded token.\<close>

theorem adb_auth_verify_3:
  assumes "\<forall>key\<in>set (load_keys b64 files). key_ok key 64 \<and> rk_exponent key = 3" "length sig = 256" "length token = 20"
  shows "adb_auth_verify ctx b64 files token sig 256 =
    (if \<exists>key\<in>set (load_keys b64 files). be_val sig ^ 3 mod val (rk_n key) = be_val (padding @ token) then 1 else 0)"
  unfolding adb_auth_verify_def RSANUM_int using verify_any_3 [OF assms, of ctx] by simp

lemma load_one_key:
  assumes "b64 = (\<lambda>_ _. Some (key_bytes (ones_key 64 3)))"
  shows "load_keys b64 [Some ''k'', None] = [ones_key 64 3]"
proof -
  have k: "key_of_bytes (key_bytes (ones_key 64 3)) = ones_key 64 3" "length (key_bytes (ones_key 64 3)) = 524"
    by (rule key_of_bytes_key_bytes; simp add: ones_key_def)+
  have "fgets_line (MAX_PAYLOAD - 1) ''k'' = (''k'', [])" by (simp add: MAX_PAYLOAD_def numeral_eq_Suc)
  then have "read_keys b64 ''k'' [] = [ones_key 64 3]"
    by (subst read_keys.simps) (simp add: assms k read_keys.simps [of _ "[]"] RSANUMWORDS_def, simp add: ones_key_def)
  then show ?thesis by (simp add: load_keys_def)
qed

theorem adb_auth_verify_3_witness:
  "load_keys (\<lambda>_ _. Some (key_bytes (ones_key 64 3))) [Some ''k'', None] = [ones_key 64 3] \<and> key_ok (ones_key 64 3) 64 \<and>
   adb_auth_verify \<lparr>sha_count = 0, sha_state = [], sha_buf = []\<rparr> (\<lambda>_ _. Some (key_bytes (ones_key 64 3))) [Some ''k'', None] (replicate 20 1) (replicate 256 0) 256 =
    (if be_val (replicate 256 0) ^ 3 mod val (rk_n (ones_key 64 3)) = be_val (padding @ replicate 20 1) then 1 else 0)"
proof -
  let ?b = "\<lambda>(_ :: string) (_ :: nat). Some (key_bytes (ones_key 64 3))"
  have l: "load_keys ?b [Some ''k'', None] = [ones_key 64 3]" by (rule load_one_key [OF refl])
  have h: "\<forall>key\<in>set (load_keys ?b [Some ''k'', None]). key_ok key 64 \<and> rk_exponent key = 3"
    unfolding l using ones_key_ok [of 64 3] by (simp add: ones_key_def)
  have k: "key_ok (ones_key 64 3) 64" by (rule ones_key_ok) simp
  from adb_auth_verify_3 [OF h length_replicate length_replicate] show ?thesis unfolding l using k by (simp only: list.set bex_simps simp_thms)
qed

end
