(* ===== verification/AdbHandle.thy ===== *)
theory AdbHandle
  imports AdbPacket
begin

text \<open>
  What the debug bridge on a device does with a packet, \<open>handle_packet\<close> of \<^verbatim>\<open>adb.c\<close> with the functions it calls there, and the
  authorisation by signature or by the framework, \<^verbatim>\<open>adb_auth_client.c\<close>. The model changes the transport and the variables of the
  authorisation and lists the effects in their order; what a request to the sockets leads to is not part of it. There is one
  transport, as with the one USB connection of a device. \<open>None\<close> is undefined behaviour: a banner without an end, the use of a
  variable that was never set, the last byte of an empty key, a request on no transport.
\<close>

unbundle bit_operations_syntax

section \<open>Transport, effects\<close>

definition A_CNXN :: u32 where "A_CNXN = 0x4e584e43"
definition A_OPEN :: u32 where "A_OPEN = 0x4e45504f"
definition A_OKAY :: u32 where "A_OKAY = 0x59414b4f"
definition A_CLSE :: u32 where "A_CLSE = 0x45534c43"
definition A_WRTE :: u32 where "A_WRTE = 0x45545257"
definition A_AUTH :: u32 where "A_AUTH = 0x48545541"
definition A_VERSION :: u32 where "A_VERSION = 0x01000000"

datatype conn_state = CS_OFFLINE | CS_BOOTLOADER | CS_DEVICE | CS_HOST | CS_RECOVERY | CS_SIDELOAD | CS_UNAUTHORIZED

record atransport =
  at_connection_state :: conn_state
  at_online :: bool
  at_product :: "string option"
  at_model :: "string option"
  at_device :: "string option"
  at_token :: bytes
  at_failed :: u32

text \<open>
  The variables of \<^verbatim>\<open>adb_auth_client.c\<close> beside the transport: whether \<open>usb_transport\<close> is this transport (or null), \<open>framework_fd\<close> a
  descriptor (or -1), \<open>needs_retry\<close>, and whether \<open>auth_fde\<close> of the transport waits for answers of the framework.
\<close>

record adbd = atransport +
  usb_transport :: bool
  framework_fd :: bool
  needs_retry :: bool
  auth_fde :: bool

datatype effect =
    Send apacket
  | Disconnects
  | Sleep_1000
  | Confirm_key string
  | Open_service string u32
  | Socket_ready u32 u32
  | Socket_close u32
  | Socket_write u32 u32 bytes

text \<open>\<open>ae_enabled\<close> is the static variable \<open>auth_enabled\<close>; \<open>ae_connect\<close> is what \<open>fill_connect_data\<close> writes.\<close>

record auth_env =
  ae_enabled :: bool
  ae_connect :: bytes
  ae_ctx :: SHA_CTX
  ae_b64 :: "string \<Rightarrow> nat \<Rightarrow> bytes option"
  ae_files :: "string option list"

type_synonym handled = "(adbd \<times> effect list) option"

text \<open>
  What the daemon reacts to: a packet, with what the random device gives meanwhile and whether a write to the framework
  succeeds; what a read from the framework gives (\<open>None\<close>: an error); a connection of the framework that is accepted or not.
\<close>

datatype event = Packet "bytes option" bool apacket | Framework "bytes option" | Accept bool "bytes option"

section \<open>Operations\<close>

definition handle_online :: "adbd \<Rightarrow> adbd" where
  "handle_online t = t\<lparr>at_online := True\<rparr>"

text \<open>\<open>usb_disconnected\<close> runs with the other disconnect functions of the transport if it was registered there.\<close>

definition usb_disconnected :: "adbd \<Rightarrow> adbd" where
  "usb_disconnected t = t\<lparr>usb_transport := False, needs_retry := False\<rparr>"

definition handle_offline :: "adbd \<Rightarrow> adbd \<times> effect list" where
  "handle_offline t =
     (let t = t\<lparr>at_online := False\<rparr> in (if usb_transport t then usb_disconnected t else t, [Disconnects]))"

definition with_data :: "bytes \<Rightarrow> bytes" where
  "with_data d = d @ replicate (MAX_PAYLOAD - length d) 0"

definition send_connect :: "auth_env \<Rightarrow> effect" where
  "send_connect env =
     Send (send_packet ((get_apacket (with_data (ae_connect env)))\<lparr>pk_msg := (pk_msg (get_apacket []))\<lparr>am_command := A_CNXN, am_arg0 := A_VERSION,
       am_arg1 := of_nat MAX_PAYLOAD, am_data_length := of_nat (length (ae_connect env))\<rparr>\<rparr>))"

text \<open>\<open>rnd\<close> is what \<^verbatim>\<open>/dev/urandom\<close> gives, if it can be opened and read.\<close>

definition send_auth_request :: "bytes option \<Rightarrow> adbd \<Rightarrow> adbd \<times> effect list" where
  "send_auth_request rnd t =
     (case rnd of
        None \<Rightarrow> (t, [])
      | Some token \<Rightarrow>
          (t\<lparr>at_token := token\<rparr>,
           [Send (send_packet ((get_apacket (with_data token))\<lparr>pk_msg := (pk_msg (get_apacket []))\<lparr>am_command := A_AUTH, am_arg0 := 1,
              am_data_length := of_nat (length token)\<rparr>\<rparr>))]))"

definition adb_auth_verified :: "auth_env \<Rightarrow> adbd \<Rightarrow> adbd \<times> effect list" where
  "adb_auth_verified env t = (handle_online t, [send_connect env])"

definition qual_overwrite :: "string \<Rightarrow> string option" where
  "qual_overwrite src = (if src = [] then None else Some src)"

text \<open>The pieces between separators, without empty ones, as \<open>strtok_r\<close> gives them.\<close>

fun pieces :: "char \<Rightarrow> string \<Rightarrow> string list" where
  "pieces sep [] = [[]]"
| "pieces sep (c # s) =
     (if c = sep then [] # pieces sep s else (c # hd (pieces sep s)) # tl (pieces sep s))"

definition tokens :: "char \<Rightarrow> string \<Rightarrow> string list" where
  "tokens sep s = filter (\<lambda>p. p \<noteq> []) (pieces sep s)"

definition set_prop :: "string \<Rightarrow> adbd \<Rightarrow> adbd" where
  "set_prop key t =
     (let k = takeWhile (\<lambda>c. c \<noteq> CHR ''='') key; v = drop (length k + 1) key
      in if CHR ''='' \<notin> set key then t
         else if k = ''ro.product.name'' then t\<lparr>at_product := qual_overwrite v\<rparr>
         else if k = ''ro.product.model'' then t\<lparr>at_model := qual_overwrite v\<rparr>
         else if k = ''ro.product.device'' then t\<lparr>at_device := qual_overwrite v\<rparr>
         else t)"

definition banner_state :: "string \<Rightarrow> conn_state" where
  "banner_state type =
     (if type = ''bootloader'' then CS_BOOTLOADER else if type = ''device'' then CS_DEVICE
      else if type = ''recovery'' then CS_RECOVERY else if type = ''sideload'' then CS_SIDELOAD else CS_HOST)"

definition parse_banner :: "string \<Rightarrow> adbd \<Rightarrow> adbd" where
  "parse_banner banner t =
     (let type = takeWhile (\<lambda>c. c \<noteq> CHR '':'') banner;
          rest = drop (length type + 1) banner;
          second = takeWhile (\<lambda>c. c \<noteq> CHR '':'') rest;
          t = (if CHR '':'' \<in> set rest then fold set_prop (tokens CHR '';'' (drop (length second + 1) rest)) t else t)
      in t\<lparr>at_connection_state := banner_state type\<rparr>)"

definition c_string :: "bytes \<Rightarrow> string" where
  "c_string d = map (char_of \<circ> unat) (takeWhile (\<lambda>b. b \<noteq> 0) d)"

definition handle_sync :: "apacket \<Rightarrow> adbd \<Rightarrow> adbd \<times> effect list" where
  "handle_sync p t =
     (if am_arg0 (pk_msg p) \<noteq> 0 then (t, [Send (send_packet p)])
      else let (t, es) = handle_offline (t\<lparr>at_connection_state := CS_OFFLINE\<rparr>) in (t, es @ [Send (send_packet p)]))"

definition handle_cnxn :: "auth_env \<Rightarrow> bytes option \<Rightarrow> apacket \<Rightarrow> adbd \<Rightarrow> handled" where
  "handle_cnxn env rnd p t =
     (let (t, es) = (if at_connection_state t \<noteq> CS_OFFLINE then handle_offline (t\<lparr>at_connection_state := CS_OFFLINE\<rparr>) else (t, []))
      in if 0 \<notin> set (pk_data p) then None
         else
           let t = parse_banner (c_string (pk_data p)) t
           in if \<not> ae_enabled env then Some (handle_online t, es @ [send_connect env])
              else let (t, es') = send_auth_request rnd t in Some (t, es @ es'))"

text \<open>A public key to be confirmed: it goes to the framework as a message, and the answer is waited for.\<close>

definition adb_auth_confirm_key :: "bool \<Rightarrow> bytes \<Rightarrow> adbd \<Rightarrow> handled" where
  "adb_auth_confirm_key written key t =
     (let t = t\<lparr>usb_transport := True\<rparr>; msg = ''PK'' @ c_string key
      in if \<not> framework_fd t then Some (t\<lparr>needs_retry := True\<rparr>, [])
         else if key = [] then None
         else if last key \<noteq> 0 then Some (t, [])
         else if length msg \<ge> MAX_PAYLOAD then Some (t, [])
         else if \<not> written then Some (t, [])
         else Some (t\<lparr>auth_fde := True\<rparr>, [Confirm_key msg]))"

definition framework_ok :: bytes where "framework_ok = [0x4f, 0x4b]"

text \<open>An answer of the framework: two bytes at most are read, and \<open>OK\<close> brings the transport online that a key was confirmed for.\<close>

definition adb_auth_event :: "auth_env \<Rightarrow> bytes option \<Rightarrow> adbd \<Rightarrow> adbd \<times> effect list" where
  "adb_auth_event env answer t =
     (case answer of
        None \<Rightarrow> ((if usb_transport t then t\<lparr>auth_fde := False\<rparr> else t)\<lparr>framework_fd := False\<rparr>, [])
      | Some response \<Rightarrow>
          if take 2 response = framework_ok \<and> usb_transport t then adb_auth_verified env t else (t, []))"

definition adb_auth_listener :: "bool \<Rightarrow> bytes option \<Rightarrow> adbd \<Rightarrow> handled" where
  "adb_auth_listener accepted rnd t =
     (if \<not> accepted then Some (t, [])
      else
        let t = t\<lparr>framework_fd := True\<rparr>
        in if \<not> needs_retry t then Some (t, [])
           else if \<not> usb_transport t then None
           else Some (send_auth_request rnd (t\<lparr>needs_retry := False\<rparr>)))"

text \<open>On a device there is no private key: after a token packet \<open>send_auth_publickey\<close> looks at a variable that was never set.\<close>

definition handle_auth :: "auth_env \<Rightarrow> bytes option \<Rightarrow> bool \<Rightarrow> apacket \<Rightarrow> adbd \<Rightarrow> handled" where
  "handle_auth env rnd written p t =
     (let n = unat (am_data_length (pk_msg p))
      in if am_arg0 (pk_msg p) = 1 then None
         else if am_arg0 (pk_msg p) = 2 then
           if adb_auth_verify (ae_ctx env) (ae_b64 env) (ae_files env) (at_token t) (take n (pk_data p)) (int n) \<noteq> 0
           then let (t, es) = adb_auth_verified env t in Some (t\<lparr>at_failed := 0\<rparr>, es)
           else
             let es = (if at_failed t > 10 then [Sleep_1000] else []);
                 (t, es') = send_auth_request rnd (t\<lparr>at_failed := at_failed t + 1\<rparr>)
             in Some (t, es @ es')
         else if am_arg0 (pk_msg p) = 3 then adb_auth_confirm_key written (take n (pk_data p)) t
         else Some (t, []))"

definition handle_packet :: "auth_env \<Rightarrow> bytes option \<Rightarrow> bool \<Rightarrow> apacket \<Rightarrow> adbd \<Rightarrow> handled" where
  "handle_packet env rnd written p t =
     (let m = pk_msg p; n = unat (am_data_length m)
      in if am_command m = A_SYNC then Some (handle_sync p t)
         else if am_command m = A_CNXN then handle_cnxn env rnd p t
         else if am_command m = A_AUTH then handle_auth env rnd written p t
         else if am_command m = A_OPEN then
           Some (t, if at_online t then [Open_service (c_string ((pk_data p)[(if n > 0 then n - 1 else 0) := 0])) (am_arg0 m)] else [])
         else if am_command m = A_OKAY then Some (t, if at_online t then [Socket_ready (am_arg1 m) (am_arg0 m)] else [])
         else if am_command m = A_CLSE then Some (t, if at_online t then [Socket_close (am_arg1 m)] else [])
         else if am_command m = A_WRTE then Some (t, if at_online t then [Socket_write (am_arg1 m) (am_arg0 m) (take n (pk_data p))] else [])
         else Some (t, []))"

text \<open>
  An event. There is a listener for the framework only if authorisation is enabled (\<open>adb_auth_init\<close> is called only then), and
  its answers are read only while \<open>auth_fde\<close> is installed.
\<close>

definition handle_event :: "auth_env \<Rightarrow> event \<Rightarrow> adbd \<Rightarrow> handled" where
  "handle_event env ev t = (case ev of
     Packet rnd written p \<Rightarrow> handle_packet env rnd written p t
   | Framework answer \<Rightarrow> Some (if auth_fde t then adb_auth_event env answer t else (t, []))
   | Accept accepted rnd \<Rightarrow> if ae_enabled env then adb_auth_listener accepted rnd t else Some (t, []))"

text \<open>A run over the events the daemon gets.\<close>

fun handle_all :: "auth_env \<Rightarrow> event list \<Rightarrow> adbd \<Rightarrow> handled" where
  "handle_all env [] t = Some (t, [])"
| "handle_all env (ev # evs) t =
     (case handle_event env ev t of
        None \<Rightarrow> None
      | Some (t, es) \<Rightarrow>
          (case handle_all env evs t of
             None \<Rightarrow> None
           | Some (t, es') \<Rightarrow> Some (t, es @ es')))"

section \<open>Authorisation\<close>


















section \<open>Sessions\<close>






text \<open>C25: the program is built with authorisation off. Then a connect packet with any banner that ends is enough: the transport is online, and the
  next packet of the host opens the service it names.\<close>

theorem connect_without_authorisation:
  assumes "\<not> ae_enabled env" "am_command (pk_msg p) = A_CNXN" "0 \<in> set (pk_data p)" "am_command (pk_msg q) = A_OPEN"
  shows "\<exists>t' es name. handle_all env [Packet r1 w1 p, Packet r2 w2 q] t = Some (t', es @ [Open_service name (am_arg0 (pk_msg q))]) \<and> at_online t'"
proof -
  obtain t0 es0 where o: "(if at_connection_state t \<noteq> CS_OFFLINE then handle_offline (t\<lparr>at_connection_state := CS_OFFLINE\<rparr>) else (t, [])) = (t0, es0)"
    by fastforce
  let ?t = "handle_online (parse_banner (c_string (pk_data p)) t0)"
  have "handle_packet env r1 w1 p t = handle_cnxn env r1 p t" using assms(2) by (simp add: handle_packet_def A_CNXN_def A_SYNC_def)
  also have "\<dots> = Some (?t, es0 @ [send_connect env])" unfolding handle_cnxn_def Let_def o using assms(1,3) by simp
  finally have "handle_packet env r1 w1 p t = Some (?t, es0 @ [send_connect env])" .
  moreover have "at_online ?t" by (simp add: handle_online_def)
  ultimately obtain t1 es1 where s: "handle_packet env r1 w1 p t = Some (t1, es1)" "at_online t1" by blast
  have "\<exists>name. handle_packet env r2 w2 q t1 = Some (t1, [Open_service name (am_arg0 (pk_msg q))])"
    using assms(4) s(2) by (auto simp: handle_packet_def Let_def A_CNXN_def A_SYNC_def A_OPEN_def A_AUTH_def)
  then show ?thesis using s by (auto simp: handle_event_def)
qed

definition connect_packet :: apacket where
  "connect_packet = \<lparr>pk_msg = (pk_msg (get_apacket []))\<lparr>am_command := A_CNXN\<rparr>, pk_data = [104, 0]\<rparr>"

definition open_packet :: apacket where
  "open_packet = \<lparr>pk_msg = (pk_msg (get_apacket []))\<lparr>am_command := A_OPEN, am_arg0 := 5, am_data_length := 2\<rparr>, pk_data = [115, 0]\<rparr>"

definition env0 :: "bool \<Rightarrow> auth_env" where
  "env0 b = \<lparr>ae_enabled = b, ae_connect = [], ae_ctx = \<lparr>sha_count = 0, sha_state = [], sha_buf = []\<rparr>,
     ae_b64 = (\<lambda>_ _. Some (key_bytes (ones_key 64 3))), ae_files = [Some ''k'', None]\<rparr>"


definition daemon0 :: adbd where
  "daemon0 = \<lparr>at_connection_state = CS_OFFLINE, at_online = False, at_product = None, at_model = None, at_device = None,
     at_token = replicate 20 0, at_failed = 0, usb_transport = False, framework_fd = False, needs_retry = False, auth_fde = False\<rparr>"

theorem connect_without_authorisation_witness:
  "\<exists>t' es name. handle_all (env0 False) [Packet None True connect_packet, Packet None True open_packet] daemon0 =
     Some (t', es @ [Open_service name 5]) \<and> at_online t'"
  using connect_without_authorisation [of "env0 False" connect_packet open_packet None True None True daemon0]
  by (simp add: env0_def connect_packet_def open_packet_def)




end
