(* ===== verification/Spec2Isabelle.thy ===== *)
theory Spec2Isabelle
  imports FwUpdateMain BtAttach AdbHandle
begin

text \<open>
  \<^bold>\<open>Verification of the radio tool, the Bluetooth attach tool and the transport of the debug bridge\<close>

  The repository collects the Linux applications of a chip family. This library verifies two of
  them, both programs that bring up a device behind a serial line, and of a third the packets, the
  key files and the library with which it checks who may connect.

  \<^item> The Thread radio co-processor tool, \<^verbatim>\<open>src/openthread/RTKRCP_Config_CFU_Tool_V1.02_20241218\<close>: it sets
    the configuration of a radio, updates its firmware and sets its flow control. All of its C
    files except the trace log are modelled, operation by operation.
  \<^item> The Bluetooth attach tool, \<^verbatim>\<open>src/bluetooth/hciattach\<close>: it powers the controller, reads its versions,
    downloads a firmware patch with its configuration, resets it, and holds the serial port until
    it is hung up or ended. All of its C files are modelled, from the parsed command line on.
  \<^item> The debug bridge, \<^verbatim>\<open>src/adb\<close>: of its signature library \<^verbatim>\<open>libmincrypt\<close> (SHA-1, and RSA signatures of 2048
    bits with the exponents 3 and 65537) all C files; of \<^verbatim>\<open>adb\<close> the packets, their way over a stream
    socket, the two threads of a transport, what is done with a packet, and who is let in by a signed
    token or by the framework.

  \<^bold>\<open>Parts of the radio tool, from the bottom up\<close>

  \<^item> \<open>Prelude\<close>: commands, and what is proved of them. A C function with effects is a value of
    \<open>('s, 'a) cmd\<close>: from a state to \<open>Ret\<close> (it returns), \<open>Exit\<close> (the process ends, with its status),
    \<open>Blocked\<close> (the script of the environment is used up) or \<open>Fault\<close> (undefined behaviour: a write
    outside a buffer, a bad descriptor). \<open>gtriple\<close> are Hoare triples over commands, with \<open>triple\<close>
    (no fault) and \<open>wtriple\<close> (faults allowed); \<open>steps R c\<close> says that \<open>c\<close> moves only along the relation
    \<open>R\<close>; the locale \<open>step_order\<close> has its rules.
  \<^item> \<open>Hdlc\<close>: \<^verbatim>\<open>hdlc/CFUonHDLC.c\<close>, the framing. The record \<open>hdlc_globals\<close> holds the static variables.
    The machine is refined to an abstract automaton (\<open>abs_decode\<close>); round trip while there is room, memory
    safety, detection of single errors, the check sequence as the bitwise CRC.
    The locale \<open>crc_register\<close> is the contract of the check register.
  \<^item> \<open>Clib\<close>: what the sources use of the C library (\<open>isspace\<close>, \<open>strstr\<close>, \<open>strtoul\<close>, \<open>fgets\<close>, and the
    running \<open>snprintf\<close> of the trace lines with its size argument that wraps around).
  \<^item> \<open>Tty\<close>: \<^verbatim>\<open>ttydevice.c\<close>. The record \<open>tty_globals\<close> extends \<open>hdlc_globals\<close> by the line and the operating
    system \<open>os_env\<close>. A system call takes the next answer of its queue: the theorems hold for every
    script of answers, so for every behaviour of the device and the kernel. Locales: \<open>write_order\<close>,
    \<open>line_order\<close>, \<open>calm_order\<close>, \<open>queue_order\<close> (what one step of a client may change, and that every
    operation of the line respects it), \<open>line_inv\<close> (invariants of waiting) and \<open>frame_handler\<close> (the
    contract between \<open>ttyWaitForFrame\<close> and the handler it calls).
  \<^item> \<open>RcpConfig\<close>: \<^verbatim>\<open>RcpConfig.c\<close>. Requests and replies, the search for the speed, the configuration.
    \<open>frame_handler\<close> is interpreted on \<open>getConfigReponseHandle\<close> (\<open>reply\<close>).
  \<^item> \<open>FwUpdateSub\<close>: \<^verbatim>\<open>FwUpdateSubProcess.c\<close> and \<^verbatim>\<open>FwUpdate.h\<close>. Reply handlers with their static index
    (locale \<open>reply_index\<close>, a sublocale of \<open>frame_handler\<close>, interpreted on the three handlers),
    firmware files, offers, content reports, the version query.
  \<^item> \<open>FwUpdateMain\<close>: \<^verbatim>\<open>FwUpdateProcess.c\<close> and \<^verbatim>\<open>main.c\<close>. The table of offers and payloads, in which a store
    outside of the 20 entries or of a field is a fault (\<open>set_unit\<close>, \<open>strcpy_fits\<close>), the rounds of the
    update, the reboots, the command line.

  \<^bold>\<open>Parts of the Bluetooth tool, from the bottom up\<close>

  They use \<open>Prelude\<close> and \<open>Clib\<close>, and answer queues as above. The state grows from theory to theory:
  \<open>bt_globals\<close>, \<open>bt2_globals\<close>, \<open>btc_globals\<close>, \<open>bt3_globals\<close>, \<open>rtk_globals\<close>, \<open>att_globals\<close>.

  \<^item> \<open>BtH4\<close>: \<^verbatim>\<open>hciattach_h4.c\<close>. \<open>start_xfer_wait\<close>, the transfer of a command and its reply, with the
    receiving state machine as \<open>recv_step\<close>, and the commands on top of it.
  \<^item> \<open>BtPatch2\<close>: \<^verbatim>\<open>hci_download_v2.c\<close>. Sections, queue and fragments of the second patch format. The
    pure functions \<open>get_patch_info\<close> and \<open>hci_get_patch_cmd_buf\<close> work on the record \<open>PATCH_INFO\<close>; the loop
    \<open>v2_loop\<close> is over the answers of \<open>write\<close>. Reference: \<open>fw_bytes\<close> and \<open>v2_frames\<close>, the stream and its frames.
  \<^item> \<open>BtConfig\<close>: \<^verbatim>\<open>rtb_fwc.c\<close>. The chip table, the configuration file and what the efuse changes in it, the
    output of the items. Reference: \<open>cfg_file\<close> of a list of items, and \<open>efuse_item\<close>.
  \<^item> \<open>BtPatch3\<close>: \<^verbatim>\<open>hci_download_v3.c\<close>. The third patch format with its registers.
  \<^item> \<open>BtRtk\<close>: \<^verbatim>\<open>hciattach_rtk.c\<close>, and \<open>uart_speed\<close> and \<open>set_speed\<close> of \<^verbatim>\<open>hciattach.c\<close>. \<open>rtb_config\<close>, the whole bring-up, is cut at
    its comments and labels into \<open>efuse_read\<close>, \<open>antenna_select\<close>, \<open>power_switch\<close>, \<open>load_files\<close>, \<open>change_baud\<close> and
    \<open>start_download\<close>.
  \<^item> \<open>BtAttach\<close>: \<^verbatim>\<open>hciattach.c\<close>. \<open>init_uart\<close>, \<open>reset_bluetooth\<close>, and \<open>main\<close> behind its options as \<open>attach_main\<close>, with the
    jump back to \<open>start\<close> as the recursion of \<open>attach_loop\<close>. The two variables that survive the jump,
    \<open>__io_canceled\<close> and \<open>p.revents\<close>, are passed along (\<open>att_vars\<close>); an answer of \<open>q_sig\<close> for each look at the
    first says whether a termination signal was handled meanwhile.

  \<^bold>\<open>Parts of the debug bridge\<close>

  \<^item> \<open>MinSha\<close>: \<^verbatim>\<open>sha.c\<close>, both of its versions. The record \<open>SHA_CTX\<close> is the structure of that name. \<open>SHA1_transform\<close>,
    \<open>SHA_update\<close> and \<open>SHA_final\<close> are the plain version; \<open>SHA1_Transform\<close> (the macros as \<open>SHA_F\<close>, a row of five of them as
    \<open>SHA_five\<close>), \<open>SHA_update_le\<close> and \<open>SHA_final_le\<close> the one for little-endian machines. The locale \<open>digest\<close> is their
    common contract, interpreted on both. \<open>sha1\<close> is the reference: pad, cut into blocks, compress.
  \<^item> \<open>MinRsa\<close>: \<^verbatim>\<open>rsa.c\<close>, \<^verbatim>\<open>rsa_e_3.c\<close> and \<^verbatim>\<open>rsa_e_f4.c\<close>. Arrays of words are lists, and \<open>val\<close> is the number they stand for.
    \<open>subM\<close>, \<open>geM\<close>, \<open>montMulAdd\<close> and \<open>montMul\<close> keep the 64-bit accumulators of the source; \<open>key_ok\<close> says what
    the code relies on in a key and does not check.
  \<^item> \<open>AdbPacket\<close>: packets and their sums, \<open>readx\<close>, \<open>writex\<close>, \<open>output_thread\<close> and \<open>input_thread\<close> (\<^verbatim>\<open>transport.c\<close>), \<open>remote_read\<close> and
    \<open>remote_write\<close> (\<^verbatim>\<open>transport_local.c\<close>), \<open>read_keys\<close>, \<open>load_keys\<close> and \<open>adb_auth_verify\<close> (\<^verbatim>\<open>adb_auth_client.c\<close>). The answers of the
    system come from a script; base64 decoding is a library function and an argument. A packet in
    memory is handed on by its address, so a transfer of it is all or nothing.
  \<^item> \<open>AdbHandle\<close>: \<open>handle_packet\<close> of \<^verbatim>\<open>adb.c\<close> on a device, with \<open>parse_banner\<close> and the requests for authorisation, and the
    confirmation of keys by the framework (\<open>adb_auth_confirm_key\<close>, \<open>adb_auth_event\<close>, \<open>adb_auth_listener\<close> of \<^verbatim>\<open>adb_auth_client.c\<close>).
    \<open>handle_event\<close> takes a packet, an answer or a connection of the framework, changes the record \<open>adbd\<close> (the transport and the
    static variables of the authorisation) and lists its effects in order: packets sent, and requests to the sockets.

  \<^bold>\<open>What the theorems show\<close>

  \<^item> The line: a write that succeeds has sent exactly its bytes; a wait ends at its deadline and never
    asks \<open>select\<close> for more than a given time; opening and closing balance; a configuration file is
    taken over whole or not at all.
  \<^item> Requests: a request that succeeds has sent exactly the frame of its command and returns the
    first good frame received, in whatever pieces. The same for offers and for payloads, where a
    successful transfer has sent one report for each block of the file, in order, with its sequence
    number, relative address and flags, and has one good reply for each.
  \<^item> Layouts: parameter block, packed integers, offer report, the fixed command of the update mode.
  \<^item> Directories: their scan stays inside the table, lists exactly the readable offers and finds a
    payload for exactly the offers that have one.
  \<^item> The whole program: whatever the device does, a run that returns has closed the device.
  \<^item> Bluetooth: a command that succeeds was sent whole and answered by the event for its opcode; a
    download of the second format sends the frames of the payloads in queue order and of the
    configuration, however it ends; the configuration that is sent is that of the file with the
    efuse values put in item by item; the third format gives a sorted queue with the right
    security section; the conversions of speeds agree; a run in the foreground, outside of
    the test mode, that returns has given the port back to the terminal. Two theorems show failures
    that pass for successes, a wrong signature of the configuration and a download that did not
    work; one shows that a termination signal during a recovery is lost for good.
  \<^item> Signatures: the digest of a message does not depend on how it is fed, and both versions compute
    the reference; the exponentiations compute the power modulo the modulus, with every carry of
    the accumulators accounted for; a signature is accepted exactly if the recovered block is the
    expected one (exponent 3) or has the stored digest (exponent 65537). That the stored digest is the digest of the
    padding is not evaluated.
  \<^item> Packets: what was written is read on the other side, in whatever pieces the stream delivers it,
    and packets sent one after the other are handed on exactly, in order, between the two SYNC
    packets. A host with a signature is let in exactly if it fits one of the stored keys.
    Nothing reaches the sockets of the device but in a session that such a signature, the
    framework or, with authorisation off, a connect packet has opened; as the program is built
    authorisation is off, and a connect packet is enough.
  \<^item> Where the code fails, a theorem says when: buffers of the encoder and of the trace lines, the
    room of the decoder that is never given back, the device name, a reply cut off by a time-out, a payload without
    blocks.

  \<^bold>\<open>Bounds and fuel\<close>

  Integers have their C width (\<open>u8\<close>, \<open>u16\<close>, \<open>u32\<close>, \<open>u64\<close>, \<open>int\<close> for signed results). A loop that polls the
  environment recurs over the answers it can still take and is \<open>Blocked\<close> when there is none left.
  The downloads and the transfers of the Bluetooth tool do the same, over answers of \<open>write\<close>, \<open>poll\<close> and
  \<open>read\<close>: a turn that goes on has taken one. The loops over the configuration file end because the
  position grows. \<open>drain_loop\<close> has as many turns as there are answers of \<open>select\<close> and one more,
  and \<open>drain_loop_fuel\<close> shows that more change nothing; while the device keeps sending it goes on. \<open>update_rounds\<close> terminates
  because every odd round that goes on takes an answer of \<open>write\<close>.

  The padding loops of the digest end because the distance of the count to 56 modulo 64 shrinks,
  the loop of \<open>output_thread\<close> because each packet takes bytes from the stream.

  \<^bold>\<open>Not modelled\<close>

  The text of the logs, of which only the bounds of the buffers it is built in are (\<^verbatim>\<open>trace.c\<close>). Signals
  other than the termination of the Bluetooth tool, allocation failures, releases of memory, and the time between system calls. Of the Bluetooth
  tool: the reading of the command line and the alarm of the start-up; the extra configuration file and the merging of its items, which the build disables; and the
  byte array of a firmware that the build leaves out. The other applications of the repository:
  the rest of the debug bridge (\<^verbatim>\<open>adb/adb\<close>: the event loop, the sockets, the services and the registration of transports, callbacks over
  shared linked lists in a third-party code base), the network
  benchmark (\<^verbatim>\<open>wifi/rtwperf\<close>), the recovery program and the small commands (\<^verbatim>\<open>cmds\<close>), which
  share no code with the parts above.
\<close>

end
